(* ===== verification/CS_Prelude.thy ===== *)
theory CS_Prelude
  imports Main "HOL-Library.Word" "HOL-Library.AList" "HOL-Library.Monad_Syntax"
begin

text \<open>
  Shared ground of the development: names for the fixed-width integers of the code, the value
  type of its fallible operations, bounds-checked vector access, and the generic lemmas on lists,
  association lists and words that the component theories use.

  An operation that the C++ text declares as \<^verbatim>\<open>Expected<T, E>\<close> has a value of type \<open>'e + 't\<close>,
  with \<open>Inl\<close> for the error. Undefined behaviour of the language (a \<^verbatim>\<open>std::vector\<close>
  subscript out of range) is the value \<open>None\<close> of an outer option, so that its absence is
  something to prove.
\<close>

type_synonym u8 = "8 word"
type_synonym u16 = "16 word"
type_synonym u32 = "32 word"
type_synonym u64 = "64 word"

text \<open>\<^verbatim>\<open>v[i]\<close> with a write through the reference: \<open>None\<close> when the subscript is out of range.\<close>

definition vec_modify :: "'a list \<Rightarrow> nat \<Rightarrow> ('a \<Rightarrow> 'a) \<Rightarrow> 'a list option" where
  "vec_modify xs i f = (if i < length xs then Some (xs[i := f (xs ! i)]) else None)"

text \<open>The outcome of code that may throw an exception: \<open>Inl\<close> is its message.\<close>

type_synonym 'a thrown = "string + 'a"

text \<open>Running the rest of a computation unless an exception was thrown.\<close>

definition and_then :: "'e + 'a \<Rightarrow> ('a \<Rightarrow> 'e + 'b) \<Rightarrow> 'e + 'b" where
  "and_then m f = (case m of Inl e \<Rightarrow> Inl e | Inr v \<Rightarrow> f v)"

named_theorems expected_simps \<open>inversion of fallible results\<close>

lemma and_then_simps [simp]:
  "and_then (Inl e) f = Inl e"
  "and_then (Inr v) f = f v"
  by (simp_all add: and_then_def)

lemma and_then_eq_Inr [expected_simps]: "and_then m f = Inr b \<longleftrightarrow> (\<exists>a. m = Inr a \<and> f a = Inr b)"
  by (cases m) simp_all

lemma vec_modify_Some [simp]: "i < length xs \<Longrightarrow> vec_modify xs i f = Some (xs[i := f (xs ! i)])"
  by (simp add: vec_modify_def)

lemma vec_modify_eq_Some_iff:
  "vec_modify xs i f = Some ys \<longleftrightarrow> i < length xs \<and> ys = xs[i := f (xs ! i)]"
  by (auto simp: vec_modify_def)

text \<open>Updating the single position that satisfies a predicate is a conditional map.\<close>

lemma list_update_eq_map_if:
  assumes "i < length xs" and "\<And>j. j < length xs \<Longrightarrow> P (xs ! j) \<longleftrightarrow> j = i"
  shows "xs[i := f (xs ! i)] = map (\<lambda>x. if P x then f x else x) xs"
proof (rule nth_equalityI)
  fix j assume "j < length (xs[i := f (xs ! i)])"
  with assms show "xs[i := f (xs ! i)] ! j = map (\<lambda>x. if P x then f x else x) xs ! j"
    by (cases "j = i") auto
qed simp

lemma map_list_update_id:
  "i < length xs \<Longrightarrow> g (f (xs ! i)) = g (xs ! i) \<Longrightarrow> map g (xs[i := f (xs ! i)]) = map g xs"
  by (metis list_update_id map_update nth_map)

lemma nth_list_update_field:
  "g (f (xs ! i)) = g (xs ! i) \<Longrightarrow> j < length xs \<Longrightarrow> g (xs[i := f (xs ! i)] ! j) = g (xs ! j)"
  by (cases "i = j") auto

subsection \<open>Counters that do not wrap\<close>

lemma unat_succ: "unat x + 1 < 2 ^ 64 \<Longrightarrow> unat (x + 1 :: u64) = unat x + 1"
  by (simp add: unat_word_ariths)

lemma unat_u32_less: "unat (n :: u32) < 4294967296"
  using unsigned_less[of n] by simp

lemma less_succ: "unat x + 1 < 2 ^ 64 \<Longrightarrow> (x :: u64) < x + 1"
  by (simp add: word_less_nat_alt unat_succ)

lemma less_succ_iff: "unat x + 1 < 2 ^ 64 \<Longrightarrow> (y :: u64) < x + 1 \<longleftrightarrow> y < x \<or> y = x"
  by (auto simp: word_less_nat_alt unat_succ less_Suc_eq word_unat_eq_iff)

lemma less_succ_trans: "y < x \<Longrightarrow> unat x + 1 < 2 ^ 64 \<Longrightarrow> (y :: u64) < x + 1"
  using less_succ less_trans by blast

end
