(* ===== verification/CS_Types.thy ===== *)
theory CS_Types
  imports CS_Prelude
begin

text \<open>
  The data of \<^verbatim>\<open>core/include/clearspace/core\<close>: identifiers, geometry, drawing, events, errors and
  snapshots. A struct is a record, a \<^verbatim>\<open>std::variant\<close> of structs is a datatype with one constructor per
  alternative whose arguments are the fields in their order.

  \<^item> An \<^verbatim>\<open>enum class\<close> with underlying type \<^verbatim>\<open>std::uint8_t\<close> can hold every value of that type, not
    only its enumerators (a \<^verbatim>\<open>static_cast\<close> produces them), so \<open>Color\<close> and \<open>Thickness\<close>
    wrap a byte and the enumerators are named constants.
  \<^item> A \<^verbatim>\<open>float\<close> is its 32-bit IEEE-754 object representation: the program copies, stores and compares
    coordinates and never computes with them.
  \<^item> A \<^verbatim>\<open>steady_clock\<close> time point is an integer number of nanoseconds.
\<close>

type_synonym RoomId = u64
type_synonym ClientId = u64
type_synonym StrokeId = u64
type_synonym Seq = u64

type_synonym float32 = u32
type_synonym TimePoint = int

text \<open>\<^verbatim>\<open>std::chrono::milliseconds(40)\<close>, in nanoseconds.\<close>

definition kCursorMinInterval :: int where
  "kCursorMinInterval = 40 * 1000000"

record Point =
  pt_x :: float32
  pt_y :: float32

text \<open>
  \<^verbatim>\<open>a == b\<close> on \<^verbatim>\<open>float\<close>: false as soon as one side is a NaN (exponent all ones, mantissa not zero),
  and the two zeros are equal.
\<close>

definition float_is_nan :: "float32 \<Rightarrow> bool" where
  "float_is_nan f \<longleftrightarrow> take_bit 8 (drop_bit 23 f) = 255 \<and> take_bit 23 f \<noteq> 0"

definition float_is_zero :: "float32 \<Rightarrow> bool" where
  "float_is_zero f \<longleftrightarrow> take_bit 31 f = 0"

definition float_eq :: "float32 \<Rightarrow> float32 \<Rightarrow> bool" where
  "float_eq a b \<longleftrightarrow> \<not> float_is_nan a \<and> \<not> float_is_nan b \<and>
     (a = b \<or> float_is_zero a \<and> float_is_zero b)"

definition point_eq :: "Point \<Rightarrow> Point \<Rightarrow> bool" where
  "point_eq a b \<longleftrightarrow> float_eq (pt_x a) (pt_x b) \<and> float_eq (pt_y a) (pt_y b)"

datatype Color = Color (color_code: u8)
datatype Thickness = Thickness (thickness_code: u8)

definition Black :: Color where "Black = Color 0"
definition Red :: Color where "Red = Color 1"
definition Green :: Color where "Green = Color 2"
definition Blue :: Color where "Blue = Color 3"

definition Thin :: Thickness where "Thin = Thickness 0"
definition Medium :: Thickness where "Medium = Thickness 1"
definition Thick :: Thickness where "Thick = Thickness 2"

record Stroke =
  stroke_id :: StrokeId
  author :: ClientId
  color :: Color
  thickness :: Thickness
  strokeOrder :: Seq
  points :: "Point list"
  finished :: bool

text \<open>
  \<^verbatim>\<open>std::unordered_map<ClientId, Point> cursors\<close> is iterated when a snapshot is sent, so it is an
  association list: its keys are distinct (part of the room invariant) and its order is the
  iteration order, which the language leaves open.
\<close>

record BoardState =
  strokes :: "Stroke list"
  cursors :: "(ClientId \<times> Point) list"

datatype EventPayload =
    StrokeBegin Color Thickness Point
  | StrokePoint Point
  | StrokeEnd
  | CursorMove Point
  | Clear

datatype ServerEventPayload =
    StrokeBeginOut ClientId StrokeId Seq Color Thickness Point
  | StrokePointOut ClientId StrokeId Point
  | StrokeEndOut ClientId StrokeId
  | CursorMoveOut ClientId Point
  | ClearOut ClientId
  | MemberLeftOut ClientId

record OutgoingEvent =
  ev_room :: RoomId
  ev_to :: ClientId
  ev_seq :: Seq
  ev_payload :: ServerEventPayload

datatype ErrorCode = RoomNotFound | NotInRoom | ProtocolViolation | InvalidParams

record Error =
  err_code :: ErrorCode
  err_message :: string

definition roomNotFound :: Error where
  "roomNotFound = \<lparr>err_code = RoomNotFound, err_message = ''room not found''\<rparr>"
definition notInRoom :: Error where
  "notInRoom = \<lparr>err_code = NotInRoom, err_message = ''client is not in room''\<rparr>"
definition protocolViolation :: "string \<Rightarrow> Error" where
  "protocolViolation msg = \<lparr>err_code = ProtocolViolation, err_message = msg\<rparr>"
definition invalidParams :: "string \<Rightarrow> Error" where
  "invalidParams msg = \<lparr>err_code = InvalidParams, err_message = msg\<rparr>"

record RoomSnapshot =
  snap_room :: RoomId
  snap_lastSeq :: Seq
  snap_state :: BoardState
  snap_members :: "ClientId list"

record PersistedBoardSnapshot =
  pers_room :: RoomId
  pers_lastSeq :: Seq
  pers_strokes :: "Stroke list"

text \<open>The error and result type of the room and server operations.\<close>

type_synonym 'a expected = "Error + 'a"

text \<open>Exhaustive quantification over the error codes is executable.\<close>

instantiation ErrorCode :: enum
begin
definition enum_ErrorCode :: "ErrorCode list" where
  "enum_ErrorCode = [RoomNotFound, NotInRoom, ProtocolViolation, InvalidParams]"
definition enum_all_ErrorCode :: "(ErrorCode \<Rightarrow> bool) \<Rightarrow> bool" where
  "enum_all_ErrorCode P \<longleftrightarrow> P RoomNotFound \<and> P NotInRoom \<and> P ProtocolViolation \<and> P InvalidParams"
definition enum_ex_ErrorCode :: "(ErrorCode \<Rightarrow> bool) \<Rightarrow> bool" where
  "enum_ex_ErrorCode P \<longleftrightarrow> P RoomNotFound \<or> P NotInRoom \<or> P ProtocolViolation \<or> P InvalidParams"
instance
proof
  show "(UNIV :: ErrorCode set) = set enum_class.enum"
    by (auto simp: enum_ErrorCode_def intro: ErrorCode.exhaust)
  show "distinct (enum_class.enum :: ErrorCode list)"
    by (simp add: enum_ErrorCode_def)
  show "enum_class.enum_all P \<longleftrightarrow> Ball UNIV P" for P :: "ErrorCode \<Rightarrow> bool"
    by (metis UNIV_I enum_all_ErrorCode_def ErrorCode.exhaust)
  show "enum_class.enum_ex P \<longleftrightarrow> Bex UNIV P" for P :: "ErrorCode \<Rightarrow> bool"
    by (metis UNIV_I enum_ex_ErrorCode_def ErrorCode.exhaust)
qed
end

lemma float_eq_sym: "float_eq a b \<longleftrightarrow> float_eq b a"
  by (auto simp: float_eq_def)

lemma float_eq_trans: "float_eq a b \<Longrightarrow> float_eq b c \<Longrightarrow> float_eq a c"
  by (auto simp: float_eq_def)

end
