(* ===== verification/CS_Room.thy ===== *)
theory CS_Room
  imports CS_Types
begin

text \<open>
  The room: \<^verbatim>\<open>core/include/clearspace/core/room.hpp\<close> and \<^verbatim>\<open>core/src/room.cpp\<close>. The record has the
  fields of class \<^verbatim>\<open>Room\<close>, less the mutex (each public operation holds it from beginning to end, so
  an operation is one function from state to state) and the time provider (the value of
  \<^verbatim>\<open>timeProvider_->now()\<close> is the argument \<open>now\<close>). The set of members is a list without
  duplicates in its iteration order.

  Each operation returns \<open>Some (result, room')\<close>, or \<open>None\<close> if it would subscript the stroke
  vector out of range. The theory holds the operations, the invariant of the room and its
  preservation, and the behaviour of the broadcasts.
\<close>

record Room =
  room_id :: RoomId
  members :: "ClientId list"
  board :: BoardState
  nextSeq :: Seq
  nextStrokeId :: StrokeId
  lastCursorUpdate :: "ClientId \<rightharpoonup> TimePoint"
  activeStrokeByClient :: "ClientId \<rightharpoonup> StrokeId"
  strokeIndexById :: "StrokeId \<rightharpoonup> nat"

type_synonym 'a room_result = "('a expected \<times> Room) option"

definition new_room :: "RoomId \<Rightarrow> Room" where
  "new_room rid = \<lparr>room_id = rid, members = [], board = \<lparr>strokes = [], cursors = []\<rparr>,
     nextSeq = 1, nextStrokeId = 1, lastCursorUpdate = Map.empty,
     activeStrokeByClient = Map.empty, strokeIndexById = Map.empty\<rparr>"

definition memberCount :: "Room \<Rightarrow> nat" where
  "memberCount r = length (members r)"

definition lastSeq :: "Room \<Rightarrow> Seq" where
  "lastSeq r = (if nextSeq r = 0 then 0 else nextSeq r - 1)"

definition makePersistedSnapshot :: "Room \<Rightarrow> PersistedBoardSnapshot" where
  "makePersistedSnapshot r = \<lparr>pers_room = room_id r,
     pers_lastSeq = (if nextSeq r = 0 then 0 else nextSeq r - 1),
     pers_strokes = strokes (board r)\<rparr>"

definition ensureMember :: "Room \<Rightarrow> ClientId \<Rightarrow> unit expected" where
  "ensureMember r client = (if client \<notin> set (members r) then Inl notInRoom else Inr ())"

definition broadcast :: "Room \<Rightarrow> ClientId \<Rightarrow> Seq \<Rightarrow> ServerEventPayload \<Rightarrow> OutgoingEvent list" where
  "broadcast r from seq payload =
     map (\<lambda>m. \<lparr>ev_room = room_id r, ev_to = m, ev_seq = seq, ev_payload = payload\<rparr>)
       (filter (\<lambda>m. m \<noteq> from) (members r))"

definition join :: "Room \<Rightarrow> ClientId \<Rightarrow> RoomSnapshot expected \<times> Room" where
  "join r client =
     (let r' = r\<lparr>members := List.insert client (members r)\<rparr>
      in (Inr \<lparr>snap_room = room_id r',
               snap_lastSeq = (if nextSeq r' = 0 then 0 else nextSeq r' - 1),
               snap_state = board r',
               snap_members = members r'\<rparr>, r'))"

text \<open>The branch of \<^verbatim>\<open>leave\<close> that closes the stroke the client is still drawing.\<close>

definition leave_finish_active :: "Room \<Rightarrow> ClientId \<Rightarrow> (OutgoingEvent list \<times> Room) option" where
  "leave_finish_active r client =
     (case activeStrokeByClient r client of
        None \<Rightarrow> Some ([], r)
      | Some sid \<Rightarrow> do {
          ss \<leftarrow> (case strokeIndexById r sid of
                    None \<Rightarrow> Some (strokes (board r))
                  | Some idx \<Rightarrow> vec_modify (strokes (board r)) idx (\<lambda>s. s\<lparr>finished := True\<rparr>));
          let r' = r\<lparr>board := (board r)\<lparr>strokes := ss\<rparr>,
                     activeStrokeByClient := (activeStrokeByClient r)(client := None),
                     nextSeq := nextSeq r + 1\<rparr>;
          Some (broadcast r' client (nextSeq r) (StrokeEndOut client sid), r') })"

definition leave :: "Room \<Rightarrow> ClientId \<Rightarrow> OutgoingEvent list room_result" where
  "leave r client =
     (if client \<notin> set (members r) then Some (Inl notInRoom, r)
      else do {
        (out, r1) \<leftarrow> leave_finish_active r client;
        let r2 = r1\<lparr>board := (board r1)\<lparr>cursors := AList.delete client (cursors (board r1))\<rparr>,
                    lastCursorUpdate := (lastCursorUpdate r1)(client := None),
                    members := removeAll client (members r1)\<rparr>;
        let r3 = r2\<lparr>nextSeq := nextSeq r2 + 1\<rparr>;
        Some (Inr (out @ broadcast r3 client (nextSeq r2) (MemberLeftOut client)), r3) })"

definition applyStrokeBegin ::
    "Room \<Rightarrow> ClientId \<Rightarrow> Color \<Rightarrow> Thickness \<Rightarrow> Point \<Rightarrow> OutgoingEvent list room_result" where
  "applyStrokeBegin r client col th start =
     (if activeStrokeByClient r client \<noteq> None
      then Some (Inl (protocolViolation ''stroke already active''), r)
      else
        let seq = nextSeq r;
            sid = nextStrokeId r;
            s = \<lparr>stroke_id = sid, author = client, color = col, thickness = th,
                 strokeOrder = seq, points = [start], finished = False\<rparr>;
            idx = length (strokes (board r));
            r' = r\<lparr>nextSeq := nextSeq r + 1, nextStrokeId := nextStrokeId r + 1,
                   board := (board r)\<lparr>strokes := strokes (board r) @ [s]\<rparr>,
                   strokeIndexById := (strokeIndexById r)(sid \<mapsto> idx),
                   activeStrokeByClient := (activeStrokeByClient r)(client \<mapsto> sid)\<rparr>
        in Some (Inr (broadcast r' client seq (StrokeBeginOut client sid seq col th start)), r'))"

definition applyStrokePoint :: "Room \<Rightarrow> ClientId \<Rightarrow> Point \<Rightarrow> OutgoingEvent list room_result" where
  "applyStrokePoint r client p =
     (case activeStrokeByClient r client of
        None \<Rightarrow> Some (Inl (protocolViolation ''stroke point without begin''), r)
      | Some sid \<Rightarrow>
          (case strokeIndexById r sid of
             None \<Rightarrow> Some (Inl (protocolViolation ''unknown stroke id''), r)
           | Some idx \<Rightarrow> do {
               ss \<leftarrow> vec_modify (strokes (board r)) idx (\<lambda>s. s\<lparr>points := points s @ [p]\<rparr>);
               let r' = r\<lparr>board := (board r)\<lparr>strokes := ss\<rparr>, nextSeq := nextSeq r + 1\<rparr>;
               Some (Inr (broadcast r' client (nextSeq r) (StrokePointOut client sid p)), r') }))"

definition applyStrokeEnd :: "Room \<Rightarrow> ClientId \<Rightarrow> OutgoingEvent list room_result" where
  "applyStrokeEnd r client =
     (case activeStrokeByClient r client of
        None \<Rightarrow> Some (Inl (protocolViolation ''stroke end without begin''), r)
      | Some sid \<Rightarrow>
          (case strokeIndexById r sid of
             None \<Rightarrow> Some (Inl (protocolViolation ''unknown stroke id''), r)
           | Some idx \<Rightarrow> do {
               ss \<leftarrow> vec_modify (strokes (board r)) idx (\<lambda>s. s\<lparr>finished := True\<rparr>);
               let r' = r\<lparr>board := (board r)\<lparr>strokes := ss\<rparr>,
                          activeStrokeByClient := (activeStrokeByClient r)(client := None),
                          nextSeq := nextSeq r + 1\<rparr>;
               Some (Inr (broadcast r' client (nextSeq r) (StrokeEndOut client sid)), r') }))"

definition applyCursorMove ::
    "Room \<Rightarrow> TimePoint \<Rightarrow> ClientId \<Rightarrow> Point \<Rightarrow> OutgoingEvent list room_result" where
  "applyCursorMove r now client p =
     (if (case lastCursorUpdate r client of
            None \<Rightarrow> False | Some lst \<Rightarrow> now - lst < kCursorMinInterval)
      then Some (Inr [], r)
      else
        let r' = r\<lparr>lastCursorUpdate := (lastCursorUpdate r)(client \<mapsto> now),
                   board := (board r)\<lparr>cursors := AList.update client p (cursors (board r))\<rparr>,
                   nextSeq := nextSeq r + 1\<rparr>
        in Some (Inr (broadcast r' client (nextSeq r) (CursorMoveOut client p)), r'))"

definition applyClear :: "Room \<Rightarrow> ClientId \<Rightarrow> OutgoingEvent list room_result" where
  "applyClear r client =
     (let r' = r\<lparr>board := (board r)\<lparr>strokes := []\<rparr>, activeStrokeByClient := Map.empty,
                 strokeIndexById := Map.empty, nextSeq := nextSeq r + 1\<rparr>
      in Some (Inr (broadcast r' client (nextSeq r) (ClearOut client)), r'))"

definition apply_event ::
    "Room \<Rightarrow> TimePoint \<Rightarrow> ClientId \<Rightarrow> EventPayload \<Rightarrow> OutgoingEvent list room_result" where
  "apply_event r now client ev =
     (case ensureMember r client of
        Inl e \<Rightarrow> Some (Inl e, r)
      | Inr _ \<Rightarrow>
          (case ev of
             StrokeBegin col th start \<Rightarrow> applyStrokeBegin r client col th start
           | StrokePoint p \<Rightarrow> applyStrokePoint r client p
           | StrokeEnd \<Rightarrow> applyStrokeEnd r client
           | CursorMove p \<Rightarrow> applyCursorMove r now client p
           | Clear \<Rightarrow> applyClear r client))"


subsection \<open>The invariant of a room\<close>

text \<open>
  \<^verbatim>\<open>strokeIndexById_\<close> is exactly the inverse of the stroke vector, \<^verbatim>\<open>activeStrokeByClient_\<close> names
  exactly the unfinished stroke of each client, ids and orders grow along the vector and stay below
  the counters.
\<close>

definition index_ok :: "Stroke list \<Rightarrow> (StrokeId \<rightharpoonup> nat) \<Rightarrow> bool" where
  "index_ok ss ix \<longleftrightarrow> (\<forall>sid i. ix sid = Some i \<longleftrightarrow> i < length ss \<and> stroke_id (ss ! i) = sid)"

definition active_ok :: "Stroke list \<Rightarrow> (ClientId \<rightharpoonup> StrokeId) \<Rightarrow> bool" where
  "active_ok ss act \<longleftrightarrow>
     (\<forall>c sid. act c = Some sid \<longleftrightarrow> (\<exists>s\<in>set ss. author s = c \<and> stroke_id s = sid \<and> \<not> finished s))"

definition strokes_ok :: "Stroke list \<Rightarrow> StrokeId \<Rightarrow> Seq \<Rightarrow> bool" where
  "strokes_ok ss nid nseq \<longleftrightarrow>
     sorted_wrt (<) (map stroke_id ss) \<and> sorted_wrt (<) (map strokeOrder ss) \<and>
     (\<forall>s\<in>set ss. 0 < stroke_id s \<and> stroke_id s < nid \<and> strokeOrder s < nseq \<and> points s \<noteq> [])"

definition room_inv :: "Room \<Rightarrow> bool" where
  "room_inv r \<longleftrightarrow>
     distinct (members r) \<and>
     distinct (map fst (cursors (board r))) \<and>
     dom (lastCursorUpdate r) = fst ` set (cursors (board r)) \<and>
     dom (lastCursorUpdate r) \<subseteq> set (members r) \<and>
     dom (activeStrokeByClient r) \<subseteq> set (members r) \<and>
     index_ok (strokes (board r)) (strokeIndexById r) \<and>
     active_ok (strokes (board r)) (activeStrokeByClient r) \<and>
     strokes_ok (strokes (board r)) (nextStrokeId r) (nextSeq r) \<and>
     0 < nextStrokeId r \<and> nextStrokeId r \<le> nextSeq r"

text \<open>Room for \<open>n\<close> more sequence numbers before \<^verbatim>\<open>nextSeq_\<close> wraps around.\<close>

definition seq_room :: "Room \<Rightarrow> nat \<Rightarrow> bool" where
  "seq_room r n \<longleftrightarrow> unat (nextSeq r) + n < 2 ^ 64"

lemma room_invI:
  assumes "distinct (members r)" "distinct (map fst (cursors (board r)))"
    "dom (lastCursorUpdate r) = fst ` set (cursors (board r))"
    "dom (lastCursorUpdate r) \<subseteq> set (members r)"
    "dom (activeStrokeByClient r) \<subseteq> set (members r)"
    "index_ok (strokes (board r)) (strokeIndexById r)"
    "active_ok (strokes (board r)) (activeStrokeByClient r)"
    "strokes_ok (strokes (board r)) (nextStrokeId r) (nextSeq r)"
    "0 < nextStrokeId r" "nextStrokeId r \<le> nextSeq r"
  shows "room_inv r"
  using assms by (simp add: room_inv_def)

lemma room_invD:
  assumes "room_inv r"
  shows "distinct (members r)" "distinct (map fst (cursors (board r)))"
    "dom (lastCursorUpdate r) = fst ` set (cursors (board r))"
    "dom (lastCursorUpdate r) \<subseteq> set (members r)"
    "dom (activeStrokeByClient r) \<subseteq> set (members r)"
    "index_ok (strokes (board r)) (strokeIndexById r)"
    "active_ok (strokes (board r)) (activeStrokeByClient r)"
    "strokes_ok (strokes (board r)) (nextStrokeId r) (nextSeq r)"
    "0 < nextStrokeId r" "nextStrokeId r \<le> nextSeq r"
  using assms unfolding room_inv_def by blast+

lemma new_room_inv: "room_inv (new_room rid)"
  by (simp add: room_inv_def new_room_def index_ok_def active_ok_def strokes_ok_def)

subsection \<open>Updates of one stroke\<close>

text \<open>What a write through \<^verbatim>\<open>board_.strokes[i]\<close> leaves alone.\<close>

definition keeps_identity :: "(Stroke \<Rightarrow> Stroke) \<Rightarrow> bool" where
  "keeps_identity f \<longleftrightarrow> (\<forall>s. stroke_id (f s) = stroke_id s \<and> author (f s) = author s \<and>
     strokeOrder (f s) = strokeOrder s \<and> (points s \<noteq> [] \<longrightarrow> points (f s) \<noteq> []))"

lemma keeps_identity_finish [simp]: "keeps_identity (\<lambda>s. s\<lparr>finished := True\<rparr>)"
  by (simp add: keeps_identity_def)

lemma keeps_identity_point [simp]: "keeps_identity (\<lambda>s. s\<lparr>points := points s @ [p]\<rparr>)"
  by (simp add: keeps_identity_def)

lemma index_ok_update:
  "index_ok ss ix \<Longrightarrow> keeps_identity f \<Longrightarrow> index_ok (ss[i := f (ss ! i)]) ix"
  by (simp add: index_ok_def keeps_identity_def nth_list_update_field[where g = stroke_id]
      cong: conj_cong)

lemma strokes_ok_update:
  assumes ok: "strokes_ok ss nid nseq" and f: "keeps_identity f" and i: "i < length ss"
  shows "strokes_ok (ss[i := f (ss ! i)]) nid nseq"
proof -
  have "map stroke_id (ss[i := f (ss ! i)]) = map stroke_id ss"
    and "map strokeOrder (ss[i := f (ss ! i)]) = map strokeOrder ss"
    using f i by (auto simp: keeps_identity_def intro!: map_list_update_id)
  moreover have "s \<in> set (ss[i := f (ss ! i)]) \<Longrightarrow> s \<in> set ss \<or> s = f (ss ! i)" for s
    using set_update_subset_insert by fastforce
  ultimately show ?thesis
    using ok f i nth_mem[OF i] by (fastforce simp: strokes_ok_def keeps_identity_def)
qed

lemma strokes_ok_mono:
  "strokes_ok ss nid nseq \<Longrightarrow> nid \<le> nid' \<Longrightarrow> nseq \<le> nseq' \<Longrightarrow> strokes_ok ss nid' nseq'"
  by (auto simp: strokes_ok_def dest!: bspec)

text \<open>The stroke a client is drawing is found through the two maps, at one position.\<close>

lemma strokes_ok_distinct: "strokes_ok ss nid nseq \<Longrightarrow> distinct (map stroke_id ss)"
  by (auto simp: strokes_ok_def dest: strict_sorted_imp_sorted strict_sorted_iff[THEN iffD1])

lemma active_position:
  assumes inv: "room_inv r" and act: "activeStrokeByClient r c = Some sid"
  obtains i where "strokeIndexById r sid = Some i" "i < length (strokes (board r))"
    "stroke_id (strokes (board r) ! i) = sid" "author (strokes (board r) ! i) = c"
    "\<not> finished (strokes (board r) ! i)"
    "\<And>j. j < length (strokes (board r)) \<Longrightarrow> stroke_id (strokes (board r) ! j) = sid \<longleftrightarrow> j = i"
proof -
  let ?ss = "strokes (board r)"
  from act room_invD(7)[OF inv] obtain s where
    "s \<in> set ?ss" "author s = c" "stroke_id s = sid" "\<not> finished s"
    by (auto simp: active_ok_def)
  then obtain i where i: "i < length ?ss" "stroke_id (?ss ! i) = sid"
      "author (?ss ! i) = c" "\<not> finished (?ss ! i)"
    by (metis in_set_conv_nth)
  moreover from i room_invD(6)[OF inv] have ix: "strokeIndexById r sid = Some i"
    by (simp add: index_ok_def)
  moreover have "j < length ?ss \<Longrightarrow> stroke_id (?ss ! j) = sid \<longleftrightarrow> j = i" for j
    using ix i room_invD(6)[OF inv] unfolding index_ok_def by (metis option.inject)
  ultimately show thesis using that by blast
qed

lemma active_ok_point:
  assumes ok: "active_ok ss act" and i: "i < length ss"
    and f: "keeps_identity f" "finished (f (ss ! i)) = finished (ss ! i)"
  shows "active_ok (ss[i := f (ss ! i)]) act"
proof -
  have "(\<exists>s\<in>set (ss[i := f (ss ! i)]). author s = c \<and> stroke_id s = sid \<and> \<not> finished s) \<longleftrightarrow>
      (\<exists>s\<in>set ss. author s = c \<and> stroke_id s = sid \<and> \<not> finished s)" for c sid
    using i f unfolding keeps_identity_def
    by (smt (verit, ccfv_SIG) in_set_conv_nth length_list_update nth_list_update)
  with ok show ?thesis by (simp add: active_ok_def)
qed

lemma active_ok_finish:
  assumes ok: "active_ok ss act" and act: "act c = Some sid" and i: "i < length ss"
    and uniq: "\<And>j. j < length ss \<Longrightarrow> stroke_id (ss ! j) = sid \<longleftrightarrow> j = i"
  shows "active_ok (ss[i := (ss ! i)\<lparr>finished := True\<rparr>]) (act(c := None))"
proof -
  have own: "author s = c \<Longrightarrow> \<not> finished s \<Longrightarrow> s \<in> set ss \<Longrightarrow> stroke_id s = sid" for s
    using ok act unfolding active_ok_def by (metis option.inject)
  have "(act(c := None)) c' = Some sid' \<longleftrightarrow>
      (\<exists>s\<in>set (ss[i := (ss ! i)\<lparr>finished := True\<rparr>]).
         author s = c' \<and> stroke_id s = sid' \<and> \<not> finished s)" (is "?l \<longleftrightarrow> ?r") for c' sid'
  proof
    assume ?l
    then have "c' \<noteq> c" "act c' = Some sid'" by (auto split: if_splits)
    then obtain j where j: "j < length ss" "author (ss ! j) = c'" "stroke_id (ss ! j) = sid'"
        "\<not> finished (ss ! j)"
      using ok unfolding active_ok_def by (metis in_set_conv_nth)
    have "author (ss ! i) = c"
      using ok act uniq unfolding active_ok_def by (metis in_set_conv_nth)
    with j \<open>c' \<noteq> c\<close> have "j \<noteq> i" by auto
    with j show ?r by (metis length_list_update nth_list_update_neq nth_mem)
  next
    assume ?r
    then obtain j where j: "j < length ss" "author (ss[i := (ss ! i)\<lparr>finished := True\<rparr>] ! j) = c'"
        "stroke_id (ss[i := (ss ! i)\<lparr>finished := True\<rparr>] ! j) = sid'"
        "\<not> finished (ss[i := (ss ! i)\<lparr>finished := True\<rparr>] ! j)"
      by (auto simp: in_set_conv_nth)
    then have "j \<noteq> i" by auto
    with j have j: "j < length ss" "author (ss ! j) = c'" "stroke_id (ss ! j) = sid'"
        "\<not> finished (ss ! j)" "j \<noteq> i"
      by simp_all
    with own uniq have "c' \<noteq> c" by (metis nth_mem)
    with j ok show ?l by (auto simp: active_ok_def)
  qed
  then show ?thesis by (simp add: active_ok_def)
qed


subsection \<open>Every operation is defined and keeps the invariant\<close>

lemma broadcast_frame [simp]:
  "broadcast (r\<lparr>board := b\<rparr>) = broadcast r"
  "broadcast (r\<lparr>nextSeq := n\<rparr>) = broadcast r"
  "broadcast (r\<lparr>nextStrokeId := k\<rparr>) = broadcast r"
  "broadcast (r\<lparr>lastCursorUpdate := l\<rparr>) = broadcast r"
  "broadcast (r\<lparr>activeStrokeByClient := a\<rparr>) = broadcast r"
  "broadcast (r\<lparr>strokeIndexById := ix\<rparr>) = broadcast r"
  by (simp_all add: broadcast_def fun_eq_iff)

lemma seq_room_mono: "seq_room r n \<Longrightarrow> m \<le> n \<Longrightarrow> seq_room r m"
  by (simp add: seq_room_def)

lemma seq_room_le: "seq_room r 1 \<Longrightarrow> nextSeq r \<le> nextSeq r + 1"
  using less_succ[of "nextSeq r"] by (simp add: seq_room_def)

text \<open>The effect of a write to the active stroke, as a map over the strokes.\<close>

abbreviation on_stroke :: "StrokeId \<Rightarrow> (Stroke \<Rightarrow> Stroke) \<Rightarrow> Stroke list \<Rightarrow> Stroke list" where
  "on_stroke sid f ss \<equiv> map (\<lambda>s. if stroke_id s = sid then f s else s) ss"

lemma write_active:
  assumes inv: "room_inv r" and act: "activeStrokeByClient r c = Some sid"
  obtains i where "strokeIndexById r sid = Some i"
    "vec_modify (strokes (board r)) i f = Some (on_stroke sid f (strokes (board r)))"
    "i < length (strokes (board r))"
    "on_stroke sid f (strokes (board r)) =
       (strokes (board r))[i := f (strokes (board r) ! i)]"
    "\<And>j. j < length (strokes (board r)) \<Longrightarrow> stroke_id (strokes (board r) ! j) = sid \<longleftrightarrow> j = i"
proof -
  obtain i where i: "strokeIndexById r sid = Some i" "i < length (strokes (board r))"
      "\<And>j. j < length (strokes (board r)) \<Longrightarrow> stroke_id (strokes (board r) ! j) = sid \<longleftrightarrow> j = i"
    using active_position[OF inv act] by metis
  moreover have eq: "(strokes (board r))[i := f (strokes (board r) ! i)] =
      on_stroke sid f (strokes (board r))"
    using i(2,3) by (rule list_update_eq_map_if)
  ultimately show thesis using that by simp
qed

lemma applyStrokePoint_eq:
  assumes "room_inv r" and "activeStrokeByClient r c = Some sid"
  shows "applyStrokePoint r c p =
    Some (Inr (broadcast r c (nextSeq r) (StrokePointOut c sid p)),
      r\<lparr>board := (board r)\<lparr>strokes :=
            on_stroke sid (\<lambda>s. s\<lparr>points := points s @ [p]\<rparr>) (strokes (board r))\<rparr>,
        nextSeq := nextSeq r + 1\<rparr>)"
  using assms(2) by (rule_tac write_active[OF assms, of "\<lambda>s. s\<lparr>points := points s @ [p]\<rparr>"])
    (simp add: applyStrokePoint_def)

lemma applyStrokeEnd_eq:
  assumes "room_inv r" and "activeStrokeByClient r c = Some sid"
  shows "applyStrokeEnd r c =
    Some (Inr (broadcast r c (nextSeq r) (StrokeEndOut c sid)),
      r\<lparr>board := (board r)\<lparr>strokes :=
            on_stroke sid (\<lambda>s. s\<lparr>finished := True\<rparr>) (strokes (board r))\<rparr>,
        activeStrokeByClient := (activeStrokeByClient r)(c := None),
        nextSeq := nextSeq r + 1\<rparr>)"
  using assms(2) by (rule_tac write_active[OF assms, of "\<lambda>s. s\<lparr>finished := True\<rparr>"])
    (simp add: applyStrokeEnd_def)

lemma leave_finish_active_eq:
  assumes "room_inv r"
  shows "leave_finish_active r c =
    (case activeStrokeByClient r c of
       None \<Rightarrow> Some ([], r)
     | Some sid \<Rightarrow>
         Some (broadcast r c (nextSeq r) (StrokeEndOut c sid),
           r\<lparr>board := (board r)\<lparr>strokes :=
                 on_stroke sid (\<lambda>s. s\<lparr>finished := True\<rparr>) (strokes (board r))\<rparr>,
             activeStrokeByClient := (activeStrokeByClient r)(c := None),
             nextSeq := nextSeq r + 1\<rparr>))"
proof (cases "activeStrokeByClient r c")
  case (Some sid)
  then show ?thesis
    by (rule_tac write_active[OF assms Some, of "\<lambda>s. s\<lparr>finished := True\<rparr>"])
      (simp add: leave_finish_active_def)
qed (simp add: leave_finish_active_def)

lemma join_inv: "room_inv r \<Longrightarrow> room_inv (snd (join r c))"
  by (auto simp: join_def Let_def room_inv_def)

lemma strokes_ok_seq:
  assumes "room_inv r" "seq_room r 1" and "strokes_ok ss (nextStrokeId r) (nextSeq r)"
  shows "strokes_ok ss (nextStrokeId r) (nextSeq r + 1)"
  using strokes_ok_mono[OF assms(3) order_refl seq_room_le[OF assms(2)]] .

text \<open>The common shape of the operations that change strokes.\<close>

lemma room_inv_strokes:
  assumes inv: "room_inv r" and seq: "seq_room r 1"
    and "index_ok ss (strokeIndexById r)" "active_ok ss act" "dom act \<subseteq> set (members r)"
    and ok: "strokes_ok ss (nextStrokeId r) (nextSeq r)"
  shows "room_inv (r\<lparr>board := (board r)\<lparr>strokes := ss\<rparr>, activeStrokeByClient := act,
    nextSeq := nextSeq r + 1\<rparr>)"
  using assms(3-5) room_invD[OF inv] strokes_ok_seq[OF inv seq ok]
    order_trans[OF room_invD(10)[OF inv] seq_room_le[OF seq]]
  by (simp add: room_inv_def)

lemma finish_stroke_inv:
  assumes inv: "room_inv r" and seq: "seq_room r 1" and act: "activeStrokeByClient r c = Some sid"
  shows "room_inv (r\<lparr>board := (board r)\<lparr>strokes :=
          on_stroke sid (\<lambda>s. s\<lparr>finished := True\<rparr>) (strokes (board r))\<rparr>,
      activeStrokeByClient := (activeStrokeByClient r)(c := None),
      nextSeq := nextSeq r + 1\<rparr>)"
proof (rule write_active[OF inv act, of "\<lambda>s. s\<lparr>finished := True\<rparr>"], rule room_inv_strokes[OF inv seq])
  note D = room_invD[OF inv]
  fix i
  assume i: "i < length (strokes (board r))"
    and eq: "on_stroke sid (\<lambda>s. s\<lparr>finished := True\<rparr>) (strokes (board r)) =
      (strokes (board r))[i := (strokes (board r) ! i)\<lparr>finished := True\<rparr>]"
    and u: "\<And>j. j < length (strokes (board r)) \<Longrightarrow> stroke_id (strokes (board r) ! j) = sid \<longleftrightarrow> j = i"
  show "index_ok (on_stroke sid (\<lambda>s. s\<lparr>finished := True\<rparr>) (strokes (board r))) (strokeIndexById r)"
    unfolding eq using index_ok_update[OF D(6) keeps_identity_finish] .
  show "strokes_ok (on_stroke sid (\<lambda>s. s\<lparr>finished := True\<rparr>) (strokes (board r)))
      (nextStrokeId r) (nextSeq r)"
    unfolding eq using strokes_ok_update[OF D(8) keeps_identity_finish i] .
  show "active_ok (on_stroke sid (\<lambda>s. s\<lparr>finished := True\<rparr>) (strokes (board r)))
      ((activeStrokeByClient r)(c := None))"
    unfolding eq using D(7) act i u by (rule active_ok_finish)
  show "dom ((activeStrokeByClient r)(c := None)) \<subseteq> set (members r)"
    using D(5) by auto
qed

lemma add_point_inv:
  assumes inv: "room_inv r" and seq: "seq_room r 1" and act: "activeStrokeByClient r c = Some sid"
  shows "room_inv (r\<lparr>board := (board r)\<lparr>strokes :=
          on_stroke sid (\<lambda>s. s\<lparr>points := points s @ [p]\<rparr>) (strokes (board r))\<rparr>,
      nextSeq := nextSeq r + 1\<rparr>)"
proof (rule write_active[OF inv act, of "\<lambda>s. s\<lparr>points := points s @ [p]\<rparr>"])
  note D = room_invD[OF inv]
  let ?f = "\<lambda>s. s\<lparr>points := points s @ [p]\<rparr>"
  fix i
  assume i: "i < length (strokes (board r))"
    and eq: "on_stroke sid ?f (strokes (board r)) = (strokes (board r))[i := ?f (strokes (board r) ! i)]"
  have "room_inv (r\<lparr>board := (board r)\<lparr>strokes := on_stroke sid ?f (strokes (board r))\<rparr>,
      activeStrokeByClient := activeStrokeByClient r, nextSeq := nextSeq r + 1\<rparr>)"
    using index_ok_update[OF D(6) keeps_identity_point]
      strokes_ok_update[OF D(8) keeps_identity_point i]
      active_ok_point[OF D(7) i keeps_identity_point] D(5)
    by (intro room_inv_strokes[OF inv seq]) (simp_all only: eq, simp)
  then show ?thesis by simp
qed

lemma applyStrokeBegin_inv:
  assumes inv: "room_inv r" and seq: "seq_room r 1" and mem: "c \<in> set (members r)"
  shows "\<exists>res r'. applyStrokeBegin r c col th p = Some (res, r') \<and> room_inv r'"
proof (cases "activeStrokeByClient r c")
  case None
  note D = room_invD[OF inv]
  let ?ss = "strokes (board r)"
  let ?s = "\<lparr>stroke_id = nextStrokeId r, author = c, color = col, thickness = th,
    strokeOrder = nextSeq r, points = [p], finished = False\<rparr>"
  have nseq: "nextSeq r < nextSeq r + 1" and nid: "nextStrokeId r < nextStrokeId r + 1"
    using seq D(10) by (auto simp: seq_room_def word_le_nat_alt intro!: less_succ)
  have idle: "finished s" if "s \<in> set ?ss" "author s = c" for s
    using D(7) None that unfolding active_ok_def by (metis option.distinct(1))
  have "i < length ?ss \<Longrightarrow> stroke_id (?ss ! i) \<noteq> nextStrokeId r" for i
    using D(8) unfolding strokes_ok_def by (metis nth_mem less_irrefl)
  then have "index_ok (?ss @ [?s]) ((strokeIndexById r)(nextStrokeId r \<mapsto> length ?ss))"
    using D(6) by (auto simp: index_ok_def nth_append less_Suc_eq)
  moreover have "active_ok (?ss @ [?s]) ((activeStrokeByClient r)(c \<mapsto> nextStrokeId r))"
    using D(7) idle by (auto simp: active_ok_def)
  moreover have "strokes_ok (?ss @ [?s]) (nextStrokeId r + 1) (nextSeq r + 1)"
    using D(8,9) nseq nid by (auto simp: strokes_ok_def sorted_wrt_append dest: less_trans)
  moreover have "nextStrokeId r + 1 \<le> nextSeq r + 1"
    using D(10) seq by (simp add: seq_room_def word_le_nat_alt unat_succ)
  moreover have "0 < nextStrokeId r + 1"
    using D(9) nid by (rule less_trans)
  ultimately show ?thesis
    using D mem None by (simp add: applyStrokeBegin_def Let_def room_inv_def)
qed (use inv in \<open>simp add: applyStrokeBegin_def\<close>)

lemma applyStrokePoint_inv:
  assumes "room_inv r" "seq_room r 1"
  shows "\<exists>res r'. applyStrokePoint r c p = Some (res, r') \<and> room_inv r'"
proof (cases "activeStrokeByClient r c")
  case (Some sid)
  then show ?thesis
    using add_point_inv[OF assms Some] applyStrokePoint_eq[OF assms(1) Some] by simp
qed (use assms in \<open>simp add: applyStrokePoint_def\<close>)

lemma applyStrokeEnd_inv:
  assumes "room_inv r" "seq_room r 1"
  shows "\<exists>res r'. applyStrokeEnd r c = Some (res, r') \<and> room_inv r'"
proof (cases "activeStrokeByClient r c")
  case (Some sid)
  then show ?thesis
    using finish_stroke_inv[OF assms Some] applyStrokeEnd_eq[OF assms(1) Some] by simp
qed (use assms in \<open>simp add: applyStrokeEnd_def\<close>)

lemma dom_cursor_update:
  "fst ` set (AList.update c p cs) = insert c (fst ` set cs)"
  using dom_update[of c p cs] by (simp add: dom_map_of_conv_image_fst)

lemma dom_cursor_delete: "fst ` set (AList.delete c cs) = fst ` set cs - {c}"
  by (metis delete_keys list.set_map set_removeAll)

lemma applyCursorMove_inv:
  assumes inv: "room_inv r" and seq: "seq_room r 1" and "c \<in> set (members r)"
  shows "\<exists>res r'. applyCursorMove r now c p = Some (res, r') \<and> room_inv r'"
  using assms(3) room_invD[OF inv] strokes_ok_seq[OF inv seq]
    order_trans[OF room_invD(10)[OF inv] seq_room_le[OF seq]] inv
  by (simp add: applyCursorMove_def Let_def room_inv_def dom_cursor_update distinct_update)

lemma applyClear_inv:
  assumes inv: "room_inv r" and seq: "seq_room r 1"
  shows "\<exists>res r'. applyClear r c = Some (res, r') \<and> room_inv r'"
  using room_invD[OF inv] order_trans[OF room_invD(10)[OF inv] seq_room_le[OF seq]]
  by (simp add: applyClear_def Let_def room_inv_def index_ok_def active_ok_def strokes_ok_def)

text \<open>Applying an event never leaves the bounds of the vector and keeps the invariant.\<close>

lemma apply_event_inv:
  assumes "room_inv r" "seq_room r 1"
  shows "\<exists>res r'. apply_event r now c ev = Some (res, r') \<and> room_inv r'"
  using assms applyStrokeBegin_inv[OF assms] applyStrokePoint_inv[OF assms]
    applyStrokeEnd_inv[OF assms] applyCursorMove_inv[OF assms] applyClear_inv[OF assms]
  by (cases ev) (simp_all add: apply_event_def ensureMember_def)

lemma leave_finish_active_inv:
  assumes inv: "room_inv r" and seq: "seq_room r 2"
  obtains out r1 where "leave_finish_active r c = Some (out, r1)" "room_inv r1" "seq_room r1 1"
    "members r1 = members r" "activeStrokeByClient r1 c = None"
proof (cases "activeStrokeByClient r c")
  case None
  then show thesis
    using that inv seq_room_mono[OF seq] leave_finish_active_eq[OF inv, of c] by simp
next
  case (Some sid)
  have seq1: "seq_room r 1" using seq_room_mono[OF seq] by simp
  then have "unat (nextSeq r + 1) = unat (nextSeq r) + 1"
    by (simp add: seq_room_def unat_succ)
  then show thesis
    using that Some seq finish_stroke_inv[OF inv seq1 Some] leave_finish_active_eq[OF inv, of c]
    by (simp add: seq_room_def)
qed

lemma leave_inv:
  assumes inv: "room_inv r" and seq: "seq_room r 2"
  shows "\<exists>res r'. leave r c = Some (res, r') \<and> room_inv r'"
proof (cases "c \<in> set (members r)")
  case True
  obtain out r1 where r1: "leave_finish_active r c = Some (out, r1)" "room_inv r1" "seq_room r1 1"
      "activeStrokeByClient r1 c = None"
    using leave_finish_active_inv[OF inv seq] by metis
  then have "dom (activeStrokeByClient r1) \<subseteq> set (removeAll c (members r1))"
    using room_invD(5) by fastforce
  moreover have "fst ` set (AList.delete c (cursors (board r1))) = dom ((lastCursorUpdate r1)(c := None))"
    using room_invD(3)[OF r1(2)] by (simp add: dom_cursor_delete)
  moreover have "dom ((lastCursorUpdate r1)(c := None)) \<subseteq> set (removeAll c (members r1))"
    using room_invD(4)[OF r1(2)] by auto
  ultimately show ?thesis
    using True r1(1) room_invD[OF r1(2)] strokes_ok_seq[OF r1(2,3)]
      order_trans[OF room_invD(10)[OF r1(2)] seq_room_le[OF r1(3)]]
    by (simp add: leave_def Let_def room_inv_def distinct_delete distinct_removeAll)
qed (use inv in \<open>simp add: leave_def\<close>)


subsection \<open>Rejections and departures\<close>

definition is_drawing :: "Room \<Rightarrow> ClientId \<Rightarrow> bool" where
  "is_drawing r c \<longleftrightarrow> (\<exists>s\<in>set (strokes (board r)). author s = c \<and> \<not> finished s)"

text \<open>The protocol of a room: which event of which client is refused, and how.\<close>

definition rejection :: "Room \<Rightarrow> ClientId \<Rightarrow> EventPayload \<Rightarrow> Error option" where
  "rejection r c ev =
     (if c \<notin> set (members r) then Some notInRoom
      else case ev of
        StrokeBegin _ _ _ \<Rightarrow>
          if is_drawing r c then Some (protocolViolation ''stroke already active'') else None
      | StrokePoint _ \<Rightarrow>
          if is_drawing r c then None else Some (protocolViolation ''stroke point without begin'')
      | StrokeEnd \<Rightarrow>
          if is_drawing r c then None else Some (protocolViolation ''stroke end without begin'')
      | _ \<Rightarrow> None)"

lemma is_drawing_iff: "room_inv r \<Longrightarrow> is_drawing r c \<longleftrightarrow> (\<exists>sid. activeStrokeByClient r c = Some sid)"
  using room_invD(7)[of r] unfolding is_drawing_def active_ok_def by metis

lemma finish_by_author:
  assumes inv: "room_inv r"
  shows "map (\<lambda>s. if author s = c then s\<lparr>finished := True\<rparr> else s) (strokes (board r)) =
    (case activeStrokeByClient r c of None \<Rightarrow> strokes (board r)
     | Some sid \<Rightarrow> on_stroke sid (\<lambda>s. s\<lparr>finished := True\<rparr>) (strokes (board r)))"
proof -
  have fin: "s\<lparr>finished := True\<rparr> = s" if "finished s" for s :: Stroke
    using that by (cases s) simp
  show ?thesis
  proof (cases "activeStrokeByClient r c")
    case None
    then have "finished s" if "s \<in> set (strokes (board r))" "author s = c" for s
      using that is_drawing_iff[OF inv, of c] by (auto simp: is_drawing_def)
    with None fin show ?thesis by (auto intro!: map_idI)
  next
    case (Some sid)
    have "author s = c \<Longrightarrow> stroke_id s \<noteq> sid \<Longrightarrow> finished s"
      "stroke_id s = sid \<Longrightarrow> author s = c" if "s \<in> set (strokes (board r))" for s
      using that Some room_invD(7)[OF inv] active_position[OF inv Some]
      unfolding active_ok_def by (metis option.inject, metis in_set_conv_nth)
    with Some fin show ?thesis by auto
  qed
qed

text \<open>
  C25: An event is refused exactly when the room's protocol refuses it: the sender is not a member, it
  begins a stroke while drawing one, or it extends or ends a stroke without drawing one; the
  code's "unknown stroke id" branches never run. A refused event changes nothing.
\<close>

theorem apply_event_rejections:
  assumes inv: "room_inv r" and "apply_event r now c ev = Some (res, r')"
  shows "(case rejection r c ev of
      Some e \<Rightarrow> res = Inl e \<and> r' = r
    | None \<Rightarrow> \<exists>out. res = Inr out)"
proof (cases "c \<in> set (members r)")
  case True
  with assms is_drawing_iff[OF inv, of c] applyStrokePoint_eq[OF inv, of c] applyStrokeEnd_eq[OF inv, of c]
  show ?thesis
    by (cases "activeStrokeByClient r c"; cases ev)
      (auto simp: apply_event_def ensureMember_def rejection_def applyStrokeBegin_def applyStrokePoint_def
        applyStrokeEnd_def applyCursorMove_def applyClear_def Let_def split: if_splits)
qed (use assms in \<open>auto simp: apply_event_def ensureMember_def rejection_def\<close>)

theorem apply_event_rejections_witness:
  "apply_event (snd (join (new_room 1) 5)) 0 5 StrokeEnd =
     Some (Inl (protocolViolation ''stroke end without begin''), snd (join (new_room 1) 5))"
proof -
  let ?r = "snd (join (new_room 1) 5)"
  have inv: "room_inv ?r" by (rule join_inv[OF new_room_inv])
  obtain res r' where a: "apply_event ?r 0 5 StrokeEnd = Some (res, r')"
    by (simp add: apply_event_def ensureMember_def applyStrokeEnd_def join_def new_room_def Let_def)
  have "rejection ?r 5 StrokeEnd = Some (protocolViolation ''stroke end without begin'')"
    by (simp add: rejection_def is_drawing_def join_def new_room_def Let_def)
  with apply_event_rejections[OF inv a] a show ?thesis by simp
qed

text \<open>
  A member that leaves is gone without a trace: it is no member any more, its cursor and its
  rate-limit entry are deleted, the strokes it drew are all finished, and nothing else on the board
  has changed.
\<close>

theorem leave_cleans_up:
  assumes inv: "room_inv r" and mem: "c \<in> set (members r)" and lv: "leave r c = Some (res, r')"
  shows "(\<exists>out. res = Inr out) \<and> set (members r') = set (members r) - {c} \<and>
    map_of (cursors (board r')) = (map_of (cursors (board r)))(c := None) \<and>
    lastCursorUpdate r' = (lastCursorUpdate r)(c := None) \<and>
    activeStrokeByClient r' = (activeStrokeByClient r)(c := None) \<and>
    strokes (board r') =
      map (\<lambda>s. if author s = c then s\<lparr>finished := True\<rparr> else s) (strokes (board r))"
  using mem lv leave_finish_active_eq[OF inv, of c] finish_by_author[OF inv, of c]
  by (cases "activeStrokeByClient r c")
    (auto simp: leave_def Let_def delete_conv' fun_upd_idem simp del: map_eq_conv)

text \<open>Operations that change nothing, and events change no members.\<close>

lemma empty_refuses:
  assumes "members r = []"
  shows "apply_event r now c ev = Some (Inl notInRoom, r)" "leave r c = Some (Inl notInRoom, r)"
  using assms by (simp_all add: apply_event_def ensureMember_def leave_def)

lemma refused_same:
  "apply_event r now c ev = Some (Inl e, r') \<Longrightarrow> r' = r" "leave r c = Some (Inl e, r') \<Longrightarrow> r' = r"
  by (auto simp: apply_event_def ensureMember_def applyStrokeBegin_def applyStrokePoint_def applyStrokeEnd_def
      applyCursorMove_def applyClear_def leave_def Let_def
      split: if_splits option.splits bind_splits EventPayload.splits)

lemma apply_keeps_members: "apply_event r now c ev = Some (res, r') \<Longrightarrow> members r' = members r"
  by (auto simp: apply_event_def ensureMember_def applyStrokeBegin_def applyStrokePoint_def applyStrokeEnd_def
      applyCursorMove_def applyClear_def Let_def split: if_splits option.splits bind_splits EventPayload.splits)

end
