(* ===== verification/CS_Room_Run.thy ===== *)
theory CS_Room_Run
  imports CS_Room
begin

text \<open>
  Runs of a room: sequences of \<^verbatim>\<open>join\<close>, \<^verbatim>\<open>leave\<close> and \<^verbatim>\<open>apply\<close> calls in the order in which
  they take the room's mutex, and what the members are sent. The central lemma, \<open>run_op_log\<close>, says
  that each operation appends a list of payloads to the room's event log, sends the same numbered
  payloads to every other member, and changes the board exactly as a client that replays them.
\<close>

datatype room_op =
    Join ClientId
  | Leave ClientId
  | Apply ClientId TimePoint EventPayload

fun op_client :: "room_op \<Rightarrow> ClientId" where
  "op_client (Join c) = c"
| "op_client (Leave c) = c"
| "op_client (Apply c now ev) = c"

text \<open>
  What a call answers: an error, the snapshot of a join, or the events to send. \<open>call_op\<close> is the call with its
  answer, \<open>run_op\<close> looks at the events alone.
\<close>

datatype ('snap, 'out) answer = Refused Error | Joined 'snap | Sent 'out

type_synonym room_answer = "(RoomSnapshot, OutgoingEvent list) answer"

definition answer_of :: "('out \<Rightarrow> ('snap, 'a) answer) \<Rightarrow> 'out expected \<Rightarrow> ('snap, 'a) answer" where
  "answer_of f res = (case res of Inl e \<Rightarrow> Refused e | Inr out \<Rightarrow> f out)"

fun call_op :: "Room \<Rightarrow> room_op \<Rightarrow> (room_answer \<times> Room) option" where
  "call_op r (Join c) = Some (case join r c of (Inl e, r') \<Rightarrow> (Refused e, r') | (Inr snap, r') \<Rightarrow> (Joined snap, r'))"
| "call_op r (Leave c) = map_option (map_prod (answer_of Sent) id) (leave r c)"
| "call_op r (Apply c now ev) = map_option (map_prod (answer_of Sent) id) (apply_event r now c ev)"

fun answer_events :: "room_answer \<Rightarrow> OutgoingEvent list" where
  "answer_events (Refused e) = []"
| "answer_events (Joined snap) = []"
| "answer_events (Sent out) = out"

definition run_op :: "Room \<Rightarrow> room_op \<Rightarrow> (OutgoingEvent list \<times> Room) option" where
  "run_op r op = map_option (map_prod answer_events id) (call_op r op)"

definition sent :: "OutgoingEvent list expected \<Rightarrow> OutgoingEvent list" where
  "sent res = (case res of Inl e \<Rightarrow> [] | Inr out \<Rightarrow> out)"

lemma answer_events_of: "answer_events (answer_of Sent res) = sent res"
  by (cases res) (simp_all add: answer_of_def sent_def)

lemma run_op_simps [simp]:
  "run_op r (Join c) = Some ([], snd (join r c))"
  "run_op r (Leave c) = map_option (\<lambda>(res, r'). (sent res, r')) (leave r c)"
  "run_op r (Apply c now ev) = map_option (\<lambda>(res, r'). (sent res, r')) (apply_event r now c ev)"
  by (auto simp: run_op_def option.map_comp comp_def map_prod_def answer_events_of split_def split: prod.split sum.split
      intro!: map_option_cong)

fun run_calls :: "Room \<Rightarrow> room_op list \<Rightarrow> (room_answer list \<times> Room) option" where
  "run_calls r [] = Some ([], r)"
| "run_calls r (op # ops) = do {
     (ans, r1) \<leftarrow> call_op r op;
     (rest, r2) \<leftarrow> run_calls r1 ops;
     Some (ans # rest, r2) }"

fun run_room :: "Room \<Rightarrow> room_op list \<Rightarrow> (OutgoingEvent list \<times> Room) option" where
  "run_room r [] = Some ([], r)"
| "run_room r (op # ops) = do {
     (out, r1) \<leftarrow> run_op r op;
     (outs, r2) \<leftarrow> run_room r1 ops;
     Some (out @ outs, r2) }"

lemma run_room_calls: "run_room r ops = map_option (map_prod (\<lambda>as. concat (map answer_events as)) id) (run_calls r ops)"
  by (induction ops arbitrary: r) (auto simp: run_op_def split: bind_splits)

definition received :: "ClientId \<Rightarrow> OutgoingEvent list \<Rightarrow> OutgoingEvent list" where
  "received m out = filter (\<lambda>e. ev_to e = m) out"

text \<open>
  What a client shows: the strokes in drawing order and the cursors by client. \<open>replay\<close> is the
  reading of the protocol's events by a client that keeps such a view.
\<close>

record View =
  view_strokes :: "Stroke list"
  view_cursors :: "ClientId \<rightharpoonup> Point"

definition board_view :: "BoardState \<Rightarrow> View" where
  "board_view b = \<lparr>view_strokes = strokes b, view_cursors = map_of (cursors b)\<rparr>"

fun replay :: "View \<Rightarrow> ServerEventPayload \<Rightarrow> View" where
  "replay v (StrokeBeginOut c sid ord col th p) =
     v\<lparr>view_strokes := view_strokes v @
         [\<lparr>stroke_id = sid, author = c, color = col, thickness = th, strokeOrder = ord,
           points = [p], finished = False\<rparr>]\<rparr>"
| "replay v (StrokePointOut c sid p) =
     v\<lparr>view_strokes := on_stroke sid (\<lambda>s. s\<lparr>points := points s @ [p]\<rparr>) (view_strokes v)\<rparr>"
| "replay v (StrokeEndOut c sid) =
     v\<lparr>view_strokes := on_stroke sid (\<lambda>s. s\<lparr>finished := True\<rparr>) (view_strokes v)\<rparr>"
| "replay v (CursorMoveOut c p) = v\<lparr>view_cursors := (view_cursors v)(c \<mapsto> p)\<rparr>"
| "replay v (ClearOut c) = v\<lparr>view_strokes := []\<rparr>"
| "replay v (MemberLeftOut c) = v\<lparr>view_cursors := (view_cursors v)(c := None)\<rparr>"

fun stamped :: "RoomId \<Rightarrow> ClientId \<Rightarrow> Seq \<Rightarrow> ServerEventPayload list \<Rightarrow> OutgoingEvent list" where
  "stamped rid m n [] = []"
| "stamped rid m n (p # ps) =
     \<lparr>ev_room = rid, ev_to = m, ev_seq = n, ev_payload = p\<rparr> # stamped rid m (n + 1) ps"

subsection \<open>What one operation logs\<close>

lemma received_append [simp]: "received m (a @ b) = received m a @ received m b"
  by (simp add: received_def)

lemma received_Nil [simp]: "received m [] = []"
  by (simp add: received_def)

lemma received_broadcast:
  assumes "distinct (members r)"
  shows "received m (broadcast r c n p) =
    (if m \<in> set (members r) \<and> m \<noteq> c
     then [\<lparr>ev_room = room_id r, ev_to = m, ev_seq = n, ev_payload = p\<rparr>] else [])"
proof -
  have "filter (\<lambda>x. x = m) (filter (\<lambda>x. x \<noteq> c) xs) = (if m \<in> set xs \<and> m \<noteq> c then [m] else [])"
    if "distinct xs" for xs
    using that by (induction xs) auto
  from this[OF assms] show ?thesis
    by (simp add: received_def broadcast_def filter_map comp_def del: filter_filter)
qed

text \<open>
  \<open>logs r r' c out ps\<close>: from \<open>r\<close> to \<open>r'\<close> the room logged the payloads \<open>ps\<close> and sent
  exactly these, numbered, to each member other than \<open>c\<close>.
\<close>

definition logs :: "Room \<Rightarrow> Room \<Rightarrow> ClientId \<Rightarrow> OutgoingEvent list \<Rightarrow> ServerEventPayload list \<Rightarrow> bool" where
  "logs r r' c out ps \<longleftrightarrow>
     room_id r' = room_id r \<and>
     nextSeq r' = nextSeq r + of_nat (length ps) \<and>
     board_view (board r') = foldl replay (board_view (board r)) ps \<and>
     (\<forall>m. received m out =
        (if m \<in> set (members r) \<and> m \<noteq> c then stamped (room_id r) m (nextSeq r) ps else []))"

lemma logs_nothing: "room_id r' = room_id r \<Longrightarrow> nextSeq r' = nextSeq r \<Longrightarrow>
    board r' = board r \<Longrightarrow> logs r r' c [] []"
  by (simp add: logs_def)

lemma logs_one:
  assumes "distinct (members r)" "room_id r' = room_id r" "nextSeq r' = nextSeq r + 1"
    "board_view (board r') = replay (board_view (board r)) p"
  shows "logs r r' c (broadcast r c (nextSeq r) p) [p]"
  using assms by (simp add: logs_def received_broadcast)

lemma applyStrokeBegin_logs:
  assumes "room_inv r" "applyStrokeBegin r c col th p = Some (res, r')"
  shows "members r' = members r \<and> (\<exists>ps. length ps \<le> 1 \<and> logs r r' c (sent res) ps)"
proof (cases "activeStrokeByClient r c")
  case None
  then have "logs r r' c (sent res) [StrokeBeginOut c (nextStrokeId r) (nextSeq r) col th p]"
    using assms room_invD(1)[OF assms(1)]
    by (auto simp: applyStrokeBegin_def Let_def sent_def board_view_def intro!: logs_one)
  with None assms show ?thesis
    by (auto simp: applyStrokeBegin_def Let_def intro!: exI[of _ "[_]"])
qed (use assms in \<open>auto simp: applyStrokeBegin_def sent_def intro!: exI[of _ "[]"] logs_nothing\<close>)

lemma applyStrokePoint_logs:
  assumes "room_inv r" "applyStrokePoint r c p = Some (res, r')"
  shows "members r' = members r \<and> (\<exists>ps. length ps \<le> 1 \<and> logs r r' c (sent res) ps)"
proof (cases "activeStrokeByClient r c")
  case (Some sid)
  then have "logs r r' c (sent res) [StrokePointOut c sid p]"
    using assms room_invD(1)[OF assms(1)] applyStrokePoint_eq[OF assms(1) Some, of p]
    by (auto simp: sent_def board_view_def intro!: logs_one)
  with assms applyStrokePoint_eq[OF assms(1) Some, of p] show ?thesis
    by (auto intro!: exI[of _ "[_]"])
qed (use assms in \<open>auto simp: applyStrokePoint_def sent_def intro!: exI[of _ "[]"] logs_nothing\<close>)

lemma applyStrokeEnd_logs:
  assumes "room_inv r" "applyStrokeEnd r c = Some (res, r')"
  shows "members r' = members r \<and> (\<exists>ps. length ps \<le> 1 \<and> logs r r' c (sent res) ps)"
proof (cases "activeStrokeByClient r c")
  case (Some sid)
  then have "logs r r' c (sent res) [StrokeEndOut c sid]"
    using assms room_invD(1)[OF assms(1)] applyStrokeEnd_eq[OF assms(1) Some]
    by (auto simp: sent_def board_view_def intro!: logs_one)
  with assms applyStrokeEnd_eq[OF assms(1) Some] show ?thesis
    by (auto intro!: exI[of _ "[_]"])
qed (use assms in \<open>auto simp: applyStrokeEnd_def sent_def intro!: exI[of _ "[]"] logs_nothing\<close>)

lemma applyCursorMove_logs:
  assumes "room_inv r" "applyCursorMove r now c p = Some (res, r')"
  shows "members r' = members r \<and> (\<exists>ps. length ps \<le> 1 \<and> logs r r' c (sent res) ps)"
proof (cases "case lastCursorUpdate r c of None \<Rightarrow> False | Some lst \<Rightarrow> now - lst < kCursorMinInterval")
  case False
  then have "logs r r' c (sent res) [CursorMoveOut c p]"
    using assms room_invD(1)[OF assms(1)]
    by (auto simp: applyCursorMove_def Let_def sent_def board_view_def update_conv' intro!: logs_one)
  with False assms show ?thesis
    by (auto simp: applyCursorMove_def Let_def intro!: exI[of _ "[_]"])
qed (use assms in \<open>auto simp: applyCursorMove_def sent_def intro!: exI[of _ "[]"] logs_nothing\<close>)

lemma applyClear_logs:
  assumes "room_inv r" "applyClear r c = Some (res, r')"
  shows "members r' = members r \<and> (\<exists>ps. length ps \<le> 1 \<and> logs r r' c (sent res) ps)"
proof -
  have "logs r r' c (sent res) [ClearOut c]"
    using assms room_invD(1)[OF assms(1)]
    by (auto simp: applyClear_def Let_def sent_def board_view_def intro!: logs_one)
  with assms show ?thesis by (auto simp: applyClear_def Let_def intro!: exI[of _ "[_]"])
qed

lemma apply_event_logs:
  assumes "room_inv r" "apply_event r now c ev = Some (res, r')"
  shows "members r' = members r \<and> (\<exists>ps. length ps \<le> 1 \<and> logs r r' c (sent res) ps)"
proof (cases "c \<in> set (members r)")
  case True
  then show ?thesis
    using assms applyStrokeBegin_logs applyStrokePoint_logs applyStrokeEnd_logs
      applyCursorMove_logs applyClear_logs
    by (cases ev) (simp_all add: apply_event_def ensureMember_def)
next
  case False
  then show ?thesis
    using assms by (auto simp: apply_event_def ensureMember_def sent_def intro!: exI[of _ "[]"] logs_nothing)
qed


lemma leave_member_eq:
  assumes "room_inv r" "c \<in> set (members r)"
  shows "leave r c =
    (let (out, r1) = the (leave_finish_active r c) in
     Some (Inr (out @ broadcast (r1\<lparr>members := removeAll c (members r1)\<rparr>) c (nextSeq r1) (MemberLeftOut c)),
       r1\<lparr>board := (board r1)\<lparr>cursors := AList.delete c (cursors (board r1))\<rparr>,
          lastCursorUpdate := (lastCursorUpdate r1)(c := None),
          members := removeAll c (members r1),
          nextSeq := nextSeq r1 + 1\<rparr>))"
  using assms leave_finish_active_eq[OF assms(1), of c]
  by (simp add: leave_def Let_def broadcast_def split: option.split)

lemma leave_logs:
  assumes "room_inv r" "leave r c = Some (res, r')"
  shows "set (members r') = set (members r) - {c} \<and> (\<exists>ps. length ps \<le> 2 \<and> logs r r' c (sent res) ps)"
proof (cases "c \<in> set (members r)")
  case True
  show ?thesis
  proof (cases "activeStrokeByClient r c")
    case None
    then have "logs r r' c (sent res) [MemberLeftOut c]"
      using True assms room_invD(1)[OF assms(1)] leave_finish_active_eq[OF assms(1), of c]
      by (auto simp: leave_member_eq logs_def received_broadcast sent_def board_view_def
          delete_conv' distinct_removeAll)
    with None True assms leave_finish_active_eq[OF assms(1), of c] show ?thesis
      by (auto simp: leave_member_eq intro!: exI[of _ "[_]"])
  next
    case (Some sid)
    then have "logs r r' c (sent res) [StrokeEndOut c sid, MemberLeftOut c]"
      using True assms room_invD(1)[OF assms(1)] leave_finish_active_eq[OF assms(1), of c]
      by (auto simp: leave_member_eq logs_def received_broadcast sent_def board_view_def
          delete_conv' distinct_removeAll)
    with Some True assms leave_finish_active_eq[OF assms(1), of c] show ?thesis
      by (auto simp: leave_member_eq intro!: exI[of _ "[_, _]"])
  qed
next
  case False
  with assms show ?thesis
    by (auto simp: leave_def sent_def intro!: exI[of _ "[]"] logs_nothing)
qed

definition members_after :: "Room \<Rightarrow> room_op \<Rightarrow> ClientId set" where
  "members_after r op = (case op of
     Join c \<Rightarrow> insert c (set (members r))
   | Leave c \<Rightarrow> set (members r) - {c}
   | Apply c now ev \<Rightarrow> set (members r))"

lemma run_op_log:
  assumes inv: "room_inv r" and seq: "seq_room r 2"
  obtains out r' ps where "run_op r op = Some (out, r')" "room_inv r'" "length ps \<le> 2"
    "logs r r' (op_client op) out ps" "set (members r') = members_after r op"
proof (cases op)
  case (Join c)
  have "logs r (snd (join r c)) c [] []"
    by (rule logs_nothing) (simp_all add: join_def Let_def)
  with Join that[of "[]" "snd (join r c)" "[]"] join_inv[OF inv] show thesis
    by (simp add: members_after_def join_def Let_def)
next
  case (Leave c)
  obtain res r' where l: "leave r c = Some (res, r')" "room_inv r'"
    using leave_inv[OF inv seq] by blast
  with leave_logs[OF inv l(1)] Leave that[of "sent res" r'] show thesis
    by (auto simp: members_after_def)
next
  case (Apply c now ev)
  obtain res r' where a: "apply_event r now c ev = Some (res, r')" "room_inv r'"
    using apply_event_inv[OF inv seq_room_mono[OF seq]] by fastforce
  then obtain ps where ps: "members r' = members r" "length ps \<le> 1" "logs r r' c (sent res) ps"
    using apply_event_logs[OF inv a(1)] by blast
  show thesis
    by (rule that[of "sent res" r' ps]) (use Apply a ps in \<open>simp_all add: members_after_def\<close>)
qed

subsection \<open>Runs\<close>

lemma seq_room_logs: "seq_room r n \<Longrightarrow> logs r r' c out ps \<Longrightarrow> length ps \<le> n \<Longrightarrow>
    unat (nextSeq r') = unat (nextSeq r) + length ps"
  by (simp add: seq_room_def logs_def unat_word_ariths unat_of_nat)

lemma stamped_append:
  "stamped rid m n (ps @ qs) = stamped rid m n ps @ stamped rid m (n + of_nat (length ps)) qs"
  by (induction ps arbitrary: n) (simp_all add: algebra_simps)

lemma ev_payload_stamped [simp]: "map ev_payload (stamped rid m n ps) = ps"
  by (induction ps arbitrary: n) simp_all

lemma unat_ev_seq_stamped:
  "unat n + length ps < 2 ^ 64 \<Longrightarrow>
     map (\<lambda>e. unat (ev_seq e)) (stamped rid m n ps) = [unat n..<unat n + length ps]"
proof (induction ps arbitrary: n)
  case (Cons p ps)
  then have "unat (n + 1) = unat n + 1" by (intro unat_succ) simp
  with Cons.IH[of "n + 1"] Cons.prems show ?case
    by (simp add: upt_rec)
qed simp

text \<open>The first step of a run, with everything the inductions over runs need.\<close>

lemma run_room_snoc:
  "run_room r (ops @ [op]) = do {
     (outs, r1) \<leftarrow> run_room r ops;
     (out, r2) \<leftarrow> run_op r1 op;
     Some (outs @ out, r2) }"
  by (induction ops arbitrary: r) (auto split: bind_splits)

lemma run_room_step:
  assumes inv: "room_inv r" and seq: "seq_room r (2 * length (op # ops))"
  obtains out r1 ps where "run_op r op = Some (out, r1)" "room_inv r1"
    "logs r r1 (op_client op) out ps" "set (members r1) = members_after r op"
    "unat (nextSeq r1) = unat (nextSeq r) + length ps" "unat (nextSeq r) + length ps < 2 ^ 64"
    "seq_room r1 (2 * length ops)"
proof -
  have seq2: "seq_room r 2" using seq by (rule seq_room_mono) simp
  obtain out r1 ps where step: "run_op r op = Some (out, r1)" "room_inv r1" "length ps \<le> 2"
      "logs r r1 (op_client op) out ps" "set (members r1) = members_after r op"
    using run_op_log[OF inv seq2] by metis
  moreover have n: "unat (nextSeq r1) = unat (nextSeq r) + length ps"
    using seq2 step(4,3) by (rule seq_room_logs)
  moreover have "seq_room r1 (2 * length ops)" "unat (nextSeq r) + length ps < 2 ^ 64"
    using seq seq2 step(3) n by (simp_all add: seq_room_def)
  ultimately show thesis using that by blast
qed

lemma run_room_inv:
  assumes "room_inv r" "seq_room r (2 * length ops)"
  shows "\<exists>out r'. run_room r ops = Some (out, r') \<and> room_inv r' \<and> nextSeq r \<le> nextSeq r'"
  using assms
proof (induction ops arbitrary: r)
  case (Cons op ops)
  obtain out r1 and ps :: "ServerEventPayload list"
    where "run_op r op = Some (out, r1)" "room_inv r1"
      "unat (nextSeq r1) = unat (nextSeq r) + length ps" "seq_room r1 (2 * length ops)"
    using run_room_step[OF Cons.prems] by metis
  with Cons.IH[of r1] show ?case by (auto simp: word_le_nat_alt)
qed simp

lemma run_room_nextSeq_mono:
  "room_inv r \<Longrightarrow> seq_room r (2 * length ops) \<Longrightarrow> run_room r ops = Some (out, r') \<Longrightarrow>
     unat (nextSeq r) \<le> unat (nextSeq r')"
  using run_room_inv[of r ops] by (auto simp: word_le_nat_alt)

text \<open>
  A member that only watches (it stays in the room and issues no operation of its own) receives the
  whole log of the run, numbered without gaps, and replaying it on its view gives the board.
\<close>

lemma run_room_observer:
  assumes "room_inv r" "seq_room r (2 * length ops)" "m \<in> set (members r)"
    "\<forall>op\<in>set ops. op_client op \<noteq> m" "run_room r ops = Some (out, r')"
  shows "m \<in> set (members r') \<and>
    board_view (board r') = foldl replay (board_view (board r)) (map ev_payload (received m out)) \<and>
    map (\<lambda>e. unat (ev_seq e)) (received m out) = [unat (nextSeq r)..<unat (nextSeq r')]"
  using assms
proof (induction ops arbitrary: r out)
  case (Cons op ops)
  obtain out1 r1 ps where step: "run_op r op = Some (out1, r1)" "room_inv r1"
      "logs r r1 (op_client op) out1 ps" "set (members r1) = members_after r op"
    and n: "unat (nextSeq r1) = unat (nextSeq r) + length ps" "unat (nextSeq r) + length ps < 2 ^ 64"
    and seq: "seq_room r1 (2 * length ops)"
    using run_room_step[OF Cons.prems(1,2)] by metis
  from step(1) Cons.prems(5) obtain out2 where
    out: "out = out1 @ out2" "run_room r1 ops = Some (out2, r')"
    by (auto split: bind_splits)
  have m1: "m \<in> set (members r1)"
    using Cons.prems(3,4) step(4) by (cases op) (auto simp: members_after_def)
  have "received m out1 = stamped (room_id r) m (nextSeq r) ps"
    and view: "board_view (board r1) = foldl replay (board_view (board r)) ps"
    using step(3) Cons.prems(3,4) by (auto simp: logs_def)
  then show ?case
    using Cons.IH[OF step(2) seq m1 _ out(2)] Cons.prems(4) out(1) view unat_ev_seq_stamped[OF n(2)]
      run_room_nextSeq_mono[OF step(2) seq out(2)]
    by (auto simp: n(1) upt_add_eq_append[symmetric] le_iff_add)
qed (simp add: received_def)

text \<open>For any member, the sequence numbers it receives grow strictly along a run.\<close>

lemma set_received_logs:
  assumes "logs r r' c out ps" "unat (nextSeq r) + length ps < 2 ^ 64" "e \<in> set (received m out)"
  shows "unat (nextSeq r) \<le> unat (ev_seq e) \<and> unat (ev_seq e) < unat (nextSeq r) + length ps"
proof -
  have "e \<in> set (stamped (room_id r) m (nextSeq r) ps)"
    using assms(1,3) by (auto simp: logs_def split: if_splits)
  then have "unat (ev_seq e) \<in> set (map (\<lambda>e. unat (ev_seq e)) (stamped (room_id r) m (nextSeq r) ps))"
    by simp
  then show ?thesis
    using unat_ev_seq_stamped[OF assms(2)] by simp
qed

lemma sorted_received_logs:
  assumes "logs r r' c out ps" "unat (nextSeq r) + length ps < 2 ^ 64"
  shows "sorted_wrt (<) (map (\<lambda>e. unat (ev_seq e)) (received m out))"
  using assms unat_ev_seq_stamped[OF assms(2)] by (simp add: logs_def)

lemma run_room_seqs:
  assumes "room_inv r" "seq_room r (2 * length ops)" "run_room r ops = Some (out, r')"
  shows "sorted_wrt (<) (map (\<lambda>e. unat (ev_seq e)) (received m out)) \<and>
    (\<forall>e\<in>set (received m out). unat (nextSeq r) \<le> unat (ev_seq e) \<and> unat (ev_seq e) < unat (nextSeq r'))"
  using assms
proof (induction ops arbitrary: r out)
  case (Cons op ops)
  obtain out1 r1 ps where step: "run_op r op = Some (out1, r1)" "room_inv r1"
      "logs r r1 (op_client op) out1 ps"
    and n: "unat (nextSeq r1) = unat (nextSeq r) + length ps" "unat (nextSeq r) + length ps < 2 ^ 64"
    and seq: "seq_room r1 (2 * length ops)"
    using run_room_step[OF Cons.prems(1,2)] by metis
  from step(1) Cons.prems(3) obtain out2 where
    out: "out = out1 @ out2" "run_room r1 ops = Some (out2, r')"
    by (auto split: bind_splits)
  from Cons.IH[OF step(2) seq out(2)] set_received_logs[OF step(3) n(2)]
    sorted_received_logs[OF step(3) n(2)] run_room_nextSeq_mono[OF step(2) seq out(2)] out(1) n(1)
  show ?case by (force simp: sorted_wrt_append)
qed simp


subsection \<open>Properties of runs\<close>

lemma run_room_space:
  assumes "room_inv r" "seq_room r (2 * length ops + n)" "run_room r ops = Some (out, r')"
  shows "seq_room r' n"
  using assms
proof (induction ops arbitrary: r out)
  case (Cons op ops)
  have seq2: "seq_room r 2" using Cons.prems(2) by (rule seq_room_mono) simp
  obtain out1 r1 ps where step: "run_op r op = Some (out1, r1)" "room_inv r1" "length ps \<le> 2"
      "logs r r1 (op_client op) out1 ps"
    using run_op_log[OF Cons.prems(1) seq2] by metis
  have "seq_room r1 (2 * length ops + n)"
    using Cons.prems(2) step(3) seq_room_logs[OF seq2 step(4,3)] by (simp add: seq_room_def)
  with Cons.IH[OF step(2)] Cons.prems(3) step(1) show ?case
    by (auto split: bind_splits)
qed simp

lemma new_room_space: "k + 1 < 2 ^ 64 \<Longrightarrow> seq_room (new_room rid) k"
  by (simp add: seq_room_def new_room_def)

lemma snap_lastSeq_join:
  assumes "room_inv r" "join r m = (Inr snap, r0)"
  shows "unat (snap_lastSeq snap) + 1 = unat (nextSeq r)"
proof -
  have "nextSeq r \<noteq> 0"
    using room_invD(9,10)[OF assms(1)] by (auto simp: word_less_nat_alt word_le_nat_alt)
  then have "unat (nextSeq r - 1) + 1 = unat (nextSeq r)"
    by (metis Suc_eq_plus1 Suc_pred' unat_gt_0 unat_minus_one)
  with \<open>nextSeq r \<noteq> 0\<close> show ?thesis
    using assms(2) by (auto simp: join_def Let_def)
qed

lemmas room_eval = new_room_def join_def leave_def leave_finish_active_def apply_event_def
  ensureMember_def applyStrokeBegin_def applyStrokePoint_def applyStrokeEnd_def
  applyCursorMove_def applyClear_def broadcast_def sent_def received_def Let_def

text \<open>
  For every room and every sequence of join, leave and apply calls (fewer than 2^63 - 1 of
  them, so that no counter wraps), no call subscripts the stroke vector out of range, and the
  invariant of the room holds at the end: members and cursors without duplicates, both index maps in
  step with the strokes, ids and orders strictly growing.
\<close>

theorem room_runs_safe:
  assumes "2 * length ops + 1 < 2 ^ 64"
  shows "\<exists>out r'. run_room (new_room rid) ops = Some (out, r') \<and> room_inv r'"
  using run_room_inv[OF new_room_inv new_room_space[OF assms]] by blast

theorem room_runs_safe_witness:
  "\<exists>out r'. run_room (new_room 1) [Join 1, Join 2, Apply 1 0 (StrokeBegin Red Thin \<lparr>pt_x = 0, pt_y = 0\<rparr>),
     Leave 1] = Some (out, r') \<and> room_inv r'"
  by (rule room_runs_safe) simp

text \<open>
  C2: A client that joins and then only watches sees what the server has. Whatever happened before
  it joined and whatever the other members do afterwards, replaying the events it received, in the
  order it received them, on the board of its join snapshot gives the server's strokes and cursors,
  and their sequence numbers continue the snapshot's \<^verbatim>\<open>lastSeq\<close> one by one without gaps.
\<close>

theorem observer_converges:
  assumes "2 * (length before + length after) + 1 < 2 ^ 64"
    and "run_room (new_room rid) before = Some (out0, r)"
    and "join r m = (Inr snap, r0)"
    and "\<forall>op\<in>set after. op_client op \<noteq> m"
    and "run_room r0 after = Some (out, r')"
  shows "board_view (board r') =
      foldl replay (board_view (snap_state snap)) (map ev_payload (received m out)) \<and>
    map (\<lambda>e. unat (ev_seq e)) (received m out) =
      [unat (snap_lastSeq snap) + 1..<unat (nextSeq r')]"
proof -
  have space: "seq_room (new_room rid) (2 * length before + 2 * length after)"
    using assms(1) by (intro new_room_space) (simp add: algebra_simps)
  have "room_inv r"
    using run_room_inv[OF new_room_inv seq_room_mono[OF space], of before] assms(2) by auto
  then have r0: "room_inv r0" "m \<in> set (members r0)" "board r0 = snap_state snap"
      "nextSeq r0 = nextSeq r"
    using join_inv[of r m] assms(3) by (auto simp: join_def Let_def)
  have "seq_room r (2 * length after)"
    using run_room_space[OF new_room_inv space assms(2)] .
  then have "seq_room r0 (2 * length after)"
    using r0(4) by (simp add: seq_room_def)
  from run_room_observer[OF r0(1) this r0(2) assms(4,5)] show ?thesis
    using r0(3,4) snap_lastSeq_join[OF \<open>room_inv r\<close> assms(3)] by simp
qed

theorem observer_converges_witness:
  "let before = [Join 1, Apply 1 0 (StrokeBegin Red Thin \<lparr>pt_x = 0, pt_y = 0\<rparr>)];
       after = [Apply 1 5 (StrokePoint \<lparr>pt_x = 1, pt_y = 1\<rparr>), Apply 1 6 (CursorMove \<lparr>pt_x = 1, pt_y = 1\<rparr>),
                Leave 1];
       r = snd (the (run_room (new_room 1) before));
       r0 = snd (join r 2);
       (out, r') = the (run_room r0 after)
   in length (received 2 out) = 4 \<and>
      board_view (board r') = foldl replay (board_view (board r)) (map ev_payload (received 2 out))"
proof -
  let ?before = "[Join 1, Apply 1 0 (StrokeBegin Red Thin \<lparr>pt_x = 0, pt_y = 0\<rparr>)]"
  let ?after = "[Apply 1 5 (StrokePoint \<lparr>pt_x = 1, pt_y = 1\<rparr>),
    Apply 1 6 (CursorMove \<lparr>pt_x = 1, pt_y = 1\<rparr>), Leave 1]"
  obtain out0 r where r: "run_room (new_room 1) ?before = Some (out0, r)"
    by (simp add: room_eval)
  obtain snap r0 where r0: "join r 2 = (Inr snap, r0)" "snap_state snap = board r"
    by (simp add: join_def Let_def)
  obtain out r' where r': "run_room r0 ?after = Some (out, r')" "length (received 2 out) = 4"
    using r r0(1) by (auto simp: room_eval kCursorMinInterval_def)
  show ?thesis
    using observer_converges[OF _ r r0(1) _ r'(1)] r r0 r' by (simp del: run_room.simps)
qed

text \<open>
  Whoever a member is and whatever it does itself, the sequence numbers of the events it
  receives grow strictly along the run of a room.
\<close>

theorem received_seqs_increase:
  assumes "2 * length ops + 1 < 2 ^ 64" and "run_room (new_room rid) ops = Some (out, r')"
  shows "sorted_wrt (<) (map (\<lambda>e. unat (ev_seq e)) (received m out))"
  using run_room_seqs[OF new_room_inv new_room_space[OF assms(1)] assms(2)] by blast

theorem received_seqs_increase_witness:
  "\<exists>out r'. run_room (new_room 7) [Join 1, Join 2, Apply 1 0 Clear, Apply 2 0 Clear, Apply 1 0 Clear] =
      Some (out, r') \<and> map ev_seq (received 2 out) = [1, 3] \<and>
    sorted_wrt (<) (map (\<lambda>e. unat (ev_seq e)) (received 2 out))"
proof -
  let ?ops = "[Join 1, Join 2, Apply 1 0 Clear, Apply 2 0 Clear, Apply 1 0 Clear]"
  obtain out r' where r: "run_room (new_room 7) ?ops = Some (out, r')" "map ev_seq (received 2 out) = [1, 3]"
    by (simp add: room_eval)
  from received_seqs_increase[OF _ r(1), of 2] r show ?thesis by auto
qed


text \<open>Which operations keep a client's place and its rate-limit entry.\<close>

definition leaves_cursor_alone :: "ClientId \<Rightarrow> room_op \<Rightarrow> bool" where
  "leaves_cursor_alone c op \<longleftrightarrow>
     (case op of Join _ \<Rightarrow> True | Leave c' \<Rightarrow> c' \<noteq> c
      | Apply c' _ ev \<Rightarrow> c' \<noteq> c \<or> (\<forall>p. ev \<noteq> CursorMove p))"

lemma run_op_cursor_frame:
  assumes "leaves_cursor_alone c op" "run_op r op = Some (out, r')"
  shows "lastCursorUpdate r' c = lastCursorUpdate r c \<and>
    (c \<in> set (members r) \<longrightarrow> c \<in> set (members r'))"
proof (cases op)
  case (Leave d)
  then show ?thesis
    using assms by (auto simp: leaves_cursor_alone_def leave_def leave_finish_active_def Let_def
        split: if_splits option.splits bind_splits)
next
  case (Apply d t ev)
  then show ?thesis
    using assms by (cases ev) (auto simp: leaves_cursor_alone_def apply_event_def ensureMember_def
        applyStrokeBegin_def applyStrokePoint_def applyStrokeEnd_def applyCursorMove_def applyClear_def
        Let_def split: if_splits option.splits bind_splits)
qed (use assms in \<open>auto simp: join_def Let_def\<close>)

lemma run_room_cursor_frame:
  assumes "\<forall>op\<in>set ops. leaves_cursor_alone c op" "run_room r ops = Some (out, r')"
  shows "lastCursorUpdate r' c = lastCursorUpdate r c \<and>
    (c \<in> set (members r) \<longrightarrow> c \<in> set (members r'))"
  using assms
proof (induction ops arbitrary: r out)
  case (Cons op ops)
  from Cons.prems(2) obtain out1 r1 out2 where
    "run_op r op = Some (out1, r1)" "run_room r1 ops = Some (out2, r')"
    by (auto split: bind_splits)
  with Cons.IH[of r1 out2] run_op_cursor_frame[of c op r out1 r1] Cons.prems(1) show ?case
    by auto
qed simp

text \<open>
  Cursor updates of one client are at least \<^verbatim>\<open>kCursorMinInterval\<close> (40 ms) apart: after an accepted
  move at time \<open>t1\<close>, and as long as the client neither leaves nor moves its cursor, a move at
  \<open>t2\<close> is dropped without any effect (no event, no sequence number) when less than 40 ms have
  passed, and otherwise it is accepted and sent to every other member.
\<close>

theorem cursor_rate_limit:
  assumes "apply_event r t1 c (CursorMove p) = Some (Inr out1, r1)" "lastCursorUpdate r1 c = Some t1"
    and "run_room r1 ops = Some (out, r2)" "\<forall>op\<in>set ops. leaves_cursor_alone c op"
  shows "apply_event r2 t2 c (CursorMove q) =
    (if t2 - t1 < kCursorMinInterval then Some (Inr [], r2)
     else Some (Inr (broadcast r2 c (nextSeq r2) (CursorMoveOut c q)),
       r2\<lparr>lastCursorUpdate := (lastCursorUpdate r2)(c \<mapsto> t2),
          board := (board r2)\<lparr>cursors := AList.update c q (cursors (board r2))\<rparr>,
          nextSeq := nextSeq r2 + 1\<rparr>))"
proof -
  have "c \<in> set (members r1)"
    using assms(1) by (auto simp: apply_event_def ensureMember_def applyCursorMove_def Let_def split: if_splits)
  with run_room_cursor_frame[OF assms(4,3)] assms(2) show ?thesis
    by (simp add: apply_event_def ensureMember_def applyCursorMove_def Let_def)
qed

theorem cursor_rate_limit_witness:
  "let r = snd (join (new_room 1) 5);
       p = \<lparr>pt_x = 0, pt_y = 0\<rparr>;
       r1 = snd (the (apply_event r 1000 5 (CursorMove p)));
       r2 = snd (the (run_room r1 [Join 6]))
   in apply_event r2 40000999 5 (CursorMove p) = Some (Inr [], r2) \<and>
      apply_event r2 40001000 5 (CursorMove p) \<noteq> Some (Inr [], r2)"
proof -
  let ?r = "snd (join (new_room 1) 5)"
  let ?p = "\<lparr>pt_x = 0, pt_y = 0\<rparr> :: Point"
  obtain out1 r1 where a: "apply_event ?r 1000 5 (CursorMove ?p) = Some (Inr out1, r1)"
      "lastCursorUpdate r1 5 = Some 1000" "nextSeq r1 = 2"
    by (simp add: room_eval)
  obtain out r2 where b: "run_room r1 [Join 6] = Some (out, r2)" "nextSeq r2 = 2"
    using a(3) by (simp add: join_def Let_def)
  have ok: "\<forall>op\<in>set [Join 6]. leaves_cursor_alone 5 op"
    by (simp add: leaves_cursor_alone_def)
  have ne: "r2\<lparr>lastCursorUpdate := l, board := bb, nextSeq := nextSeq r2 + 1\<rparr> \<noteq> r2" for l bb
  proof
    assume "r2\<lparr>lastCursorUpdate := l, board := bb, nextSeq := nextSeq r2 + 1\<rparr> = r2"
    then have "nextSeq (r2\<lparr>lastCursorUpdate := l, board := bb, nextSeq := nextSeq r2 + 1\<rparr>) = nextSeq r2"
      by simp
    with b(2) show False by simp
  qed
  from cursor_rate_limit[OF a(1,2) b(1) ok, of _ ?p] a b(1) ne show ?thesis
    by (simp add: kCursorMinInterval_def Let_def del: run_room.simps)
qed

end
