(* ===== verification/CS_Room_Spec.thy ===== *)
theory CS_Room_Spec
  imports CS_Room_Run
begin

text \<open>
  The contract of a room without its index structures. The specification state keeps the members as
  a set, the strokes, the cursors as a map and the counters; the stroke a client is drawing is found
  in the strokes themselves, as its unfinished one. An operation answers an error, a snapshot, or what
  each client is sent, in order. The room of the code implements it
  (\<open>room_join_refines\<close>, \<open>room_apply_refines\<close>, \<open>room_leave_refines\<close>), and the
  order in which the member set is iterated is shown to have no influence beyond the order of the
  copies of one broadcast.
\<close>

record SpecRoom =
  sp_id :: RoomId
  sp_members :: "ClientId set"
  sp_strokes :: "Stroke list"
  sp_cursors :: "ClientId \<rightharpoonup> Point"
  sp_moved :: "ClientId \<rightharpoonup> TimePoint"
  sp_seq :: Seq
  sp_nextStroke :: StrokeId

record SpecSnapshot =
  ss_room :: RoomId
  ss_lastSeq :: Seq
  ss_strokes :: "Stroke list"
  ss_cursors :: "ClientId \<rightharpoonup> Point"
  ss_members :: "ClientId set"

type_synonym Mail = "ClientId \<Rightarrow> OutgoingEvent list"

definition abs_room :: "Room \<Rightarrow> SpecRoom" where
  "abs_room r = \<lparr>sp_id = room_id r, sp_members = set (members r), sp_strokes = strokes (board r),
     sp_cursors = map_of (cursors (board r)), sp_moved = lastCursorUpdate r,
     sp_seq = nextSeq r, sp_nextStroke = nextStrokeId r\<rparr>"

definition drawing :: "SpecRoom \<Rightarrow> ClientId \<Rightarrow> Stroke option" where
  "drawing S c = find (\<lambda>s. author s = c \<and> \<not> finished s) (sp_strokes S)"

text \<open>One copy for everyone in \<open>ms\<close>.\<close>

definition copies :: "ClientId set \<Rightarrow> RoomId \<Rightarrow> Seq \<Rightarrow> ServerEventPayload \<Rightarrow> Mail" where
  "copies ms rid n p = (\<lambda>m. if m \<in> ms then [\<lparr>ev_room = rid, ev_to = m, ev_seq = n, ev_payload = p\<rparr>] else [])"

definition spec_broadcast :: "SpecRoom \<Rightarrow> ClientId \<Rightarrow> ServerEventPayload \<Rightarrow> Mail" where
  "spec_broadcast S c p = copies (sp_members S - {c}) (sp_id S) (sp_seq S) p"

text \<open>Publishing an event: every other member gets it under the next sequence number.\<close>

definition publish :: "SpecRoom \<Rightarrow> ClientId \<Rightarrow> ServerEventPayload \<Rightarrow> (SpecRoom \<Rightarrow> SpecRoom) \<Rightarrow>
    Mail expected \<times> SpecRoom" where
  "publish S c p upd = (Inr (spec_broadcast S c p), (upd S)\<lparr>sp_seq := sp_seq S + 1\<rparr>)"

definition edit_drawing :: "ClientId \<Rightarrow> (Stroke \<Rightarrow> Stroke) \<Rightarrow> SpecRoom \<Rightarrow> SpecRoom" where
  "edit_drawing c f S = S\<lparr>sp_strokes :=
     map (\<lambda>s. if author s = c \<and> \<not> finished s then f s else s) (sp_strokes S)\<rparr>"

fun spec_apply :: "SpecRoom \<Rightarrow> TimePoint \<Rightarrow> ClientId \<Rightarrow> EventPayload \<Rightarrow>
    Mail expected \<times> SpecRoom" where
  "spec_apply S now c ev =
     (if c \<notin> sp_members S then (Inl notInRoom, S)
      else case ev of
        StrokeBegin col th p \<Rightarrow>
          (case drawing S c of
             Some _ \<Rightarrow> (Inl (protocolViolation ''stroke already active''), S)
           | None \<Rightarrow> publish S c (StrokeBeginOut c (sp_nextStroke S) (sp_seq S) col th p)
               (\<lambda>S. S\<lparr>sp_strokes := sp_strokes S @
                   [\<lparr>stroke_id = sp_nextStroke S, author = c, color = col, thickness = th,
                     strokeOrder = sp_seq S, points = [p], finished = False\<rparr>],
                   sp_nextStroke := sp_nextStroke S + 1\<rparr>))
      | StrokePoint p \<Rightarrow>
          (case drawing S c of
             None \<Rightarrow> (Inl (protocolViolation ''stroke point without begin''), S)
           | Some s \<Rightarrow> publish S c (StrokePointOut c (stroke_id s) p)
               (edit_drawing c (\<lambda>s. s\<lparr>points := points s @ [p]\<rparr>)))
      | StrokeEnd \<Rightarrow>
          (case drawing S c of
             None \<Rightarrow> (Inl (protocolViolation ''stroke end without begin''), S)
           | Some s \<Rightarrow> publish S c (StrokeEndOut c (stroke_id s))
               (edit_drawing c (\<lambda>s. s\<lparr>finished := True\<rparr>)))
      | CursorMove p \<Rightarrow>
          (if \<exists>t. sp_moved S c = Some t \<and> now - t < kCursorMinInterval then (Inr (\<lambda>m. []), S)
           else publish S c (CursorMoveOut c p)
             (\<lambda>S. S\<lparr>sp_cursors := (sp_cursors S)(c \<mapsto> p), sp_moved := (sp_moved S)(c \<mapsto> now)\<rparr>))
      | Clear \<Rightarrow> publish S c (ClearOut c) (\<lambda>S. S\<lparr>sp_strokes := []\<rparr>))"

text \<open>Joining answers the board with the number of the last event, none yet being 0, and the members with the new one.\<close>

definition spec_join :: "SpecRoom \<Rightarrow> ClientId \<Rightarrow> SpecSnapshot expected \<times> SpecRoom" where
  "spec_join S c =
     (Inr \<lparr>ss_room = sp_id S, ss_lastSeq = (if sp_seq S = 0 then 0 else sp_seq S - 1), ss_strokes = sp_strokes S,
        ss_cursors = sp_cursors S, ss_members = insert c (sp_members S)\<rparr>,
      S\<lparr>sp_members := insert c (sp_members S)\<rparr>)"

text \<open>
  Leaving publishes the end of the client's unfinished stroke, if there is one, and then that the
  member left.
\<close>

definition spec_leave :: "SpecRoom \<Rightarrow> ClientId \<Rightarrow> Mail expected \<times> SpecRoom" where
  "spec_leave S c =
     (if c \<notin> sp_members S then (Inl notInRoom, S)
      else
        let (ended, S1) = (case drawing S c of
              None \<Rightarrow> (\<lambda>m. [], S)
            | Some s \<Rightarrow> (spec_broadcast S c (StrokeEndOut c (stroke_id s)),
                (edit_drawing c (\<lambda>s. s\<lparr>finished := True\<rparr>) S)\<lparr>sp_seq := sp_seq S + 1\<rparr>))
        in (Inr (\<lambda>m. ended m @ spec_broadcast S1 c (MemberLeftOut c) m),
            S1\<lparr>sp_members := sp_members S1 - {c}, sp_cursors := (sp_cursors S1)(c := None),
               sp_moved := (sp_moved S1)(c := None), sp_seq := sp_seq S1 + 1\<rparr>))"

text \<open>What each client is sent by a list of events, and the abstraction of a snapshot.\<close>

definition mail :: "OutgoingEvent list \<Rightarrow> Mail" where
  "mail out = (\<lambda>m. received m out)"

definition abs_result :: "OutgoingEvent list expected \<Rightarrow> Mail expected" where
  "abs_result res = map_sum id mail res"

definition abs_snapshot :: "RoomSnapshot \<Rightarrow> SpecSnapshot" where
  "abs_snapshot snap = \<lparr>ss_room = snap_room snap, ss_lastSeq = snap_lastSeq snap, ss_strokes = strokes (snap_state snap),
     ss_cursors = map_of (cursors (snap_state snap)), ss_members = set (snap_members snap)\<rparr>"

subsection \<open>The unfinished stroke and the index maps\<close>

lemma drawing_None_iff:
  assumes "room_inv r"
  shows "drawing (abs_room r) c = None \<longleftrightarrow> activeStrokeByClient r c = None"
  using room_invD(7)[OF assms] unfolding drawing_def abs_room_def find_None_iff active_ok_def
  by (metis SpecRoom.select_convs(3) not_None_eq)

lemma drawing_Some:
  assumes "room_inv r" "activeStrokeByClient r c = Some sid"
  shows "\<exists>s. drawing (abs_room r) c = Some s \<and> stroke_id s = sid"
proof -
  obtain s where s: "drawing (abs_room r) c = Some s"
    using drawing_None_iff[OF assms(1), of c] assms(2) by fastforce
  then have "s \<in> set (strokes (board r))" "author s = c" "\<not> finished s"
    by (auto simp: drawing_def abs_room_def find_Some_iff)
  then have "activeStrokeByClient r c = Some (stroke_id s)"
    using room_invD(7)[OF assms(1)] by (auto simp: active_ok_def)
  with s assms(2) show ?thesis by simp
qed

lemma edit_drawing_eq:
  assumes inv: "room_inv r" and act: "activeStrokeByClient r c = Some sid"
  shows "map (\<lambda>s. if author s = c \<and> \<not> finished s then f s else s) (strokes (board r)) =
    on_stroke sid f (strokes (board r))"
proof -
  have "author s = c \<and> \<not> finished s \<longleftrightarrow> stroke_id s = sid" if "s \<in> set (strokes (board r))" for s
  proof
    assume "author s = c \<and> \<not> finished s"
    with that act room_invD(7)[OF inv] show "stroke_id s = sid"
      unfolding active_ok_def by (metis option.inject)
  next
    assume "stroke_id s = sid"
    with that active_position[OF inv act] show "author s = c \<and> \<not> finished s"
      by (metis in_set_conv_nth)
  qed
  then show ?thesis by simp
qed

lemma mail_broadcast: "distinct (members r) \<Longrightarrow> mail (broadcast r c n p) =
    copies (set (members r) - {c}) (room_id r) n p"
  by (auto simp: mail_def copies_def received_broadcast)

lemma mail_simps: "mail [] = (\<lambda>m. [])" "mail (xs @ ys) = (\<lambda>m. mail xs m @ mail ys m)"
  by (simp_all add: mail_def)

subsection \<open>Refinement\<close>

lemma room_join_refines: "join r c = (res, r') \<Longrightarrow> spec_join (abs_room r) c = (map_sum id abs_snapshot res, abs_room r')"
  by (auto simp: join_def Let_def abs_room_def spec_join_def abs_snapshot_def)

lemmas spec_simps = abs_room_def publish_def spec_broadcast_def mail_broadcast mail_simps edit_drawing_def abs_result_def

lemma room_point_refines:
  assumes inv: "room_inv r" and "c \<in> set (members r)" and res: "apply_event r now c (StrokePoint p) = Some (res, r')"
  shows "spec_apply (abs_room r) now c (StrokePoint p) = (abs_result res, abs_room r')"
proof (cases "activeStrokeByClient r c")
  case None
  with assms drawing_None_iff[OF inv, of c] show ?thesis
    by (auto simp: apply_event_def ensureMember_def applyStrokePoint_def spec_simps)
next
  case (Some sid)
  with assms drawing_Some[OF inv, of c] edit_drawing_eq[OF inv Some] applyStrokePoint_eq[OF inv Some]
  show ?thesis using room_invD(1)[OF inv] by (auto simp: apply_event_def ensureMember_def spec_simps simp del: map_eq_conv)
qed

lemma room_end_refines:
  assumes inv: "room_inv r" and "c \<in> set (members r)" and res: "apply_event r now c StrokeEnd = Some (res, r')"
  shows "spec_apply (abs_room r) now c StrokeEnd = (abs_result res, abs_room r')"
proof (cases "activeStrokeByClient r c")
  case None
  with assms drawing_None_iff[OF inv, of c] show ?thesis
    by (auto simp: apply_event_def ensureMember_def applyStrokeEnd_def spec_simps)
next
  case (Some sid)
  with assms drawing_Some[OF inv, of c] edit_drawing_eq[OF inv Some] applyStrokeEnd_eq[OF inv Some]
  show ?thesis using room_invD(1)[OF inv] by (auto simp: apply_event_def ensureMember_def spec_simps simp del: map_eq_conv)
qed

lemma room_apply_refines:
  assumes inv: "room_inv r" and res: "apply_event r now c ev = Some (res, r')"
  shows "spec_apply (abs_room r) now c ev = (abs_result res, abs_room r')"
proof (cases "c \<in> set (members r)")
  case True
  note D = drawing_None_iff[OF inv, of c] drawing_Some[OF inv, of c] room_invD(1)[OF inv]
  show ?thesis
  proof (cases ev)
    case (StrokeBegin col th p)
    with True res D show ?thesis
      by (cases "activeStrokeByClient r c")
        (auto simp: apply_event_def ensureMember_def applyStrokeBegin_def Let_def spec_simps)
  next
    case (StrokePoint p)
    with room_point_refines[OF inv True] res show ?thesis by simp
  next
    case StrokeEnd
    with room_end_refines[OF inv True] res show ?thesis by simp
  next
    case (CursorMove p)
    with True res D(3) show ?thesis
      by (cases "lastCursorUpdate r c")
        (auto simp: apply_event_def ensureMember_def applyCursorMove_def Let_def spec_simps
          update_conv' split: if_splits)
  next
    case Clear
    with True res D(3) show ?thesis
      by (auto simp: apply_event_def ensureMember_def applyClear_def Let_def spec_simps)
  qed
next
  case False
  with res show ?thesis
    by (auto simp: apply_event_def ensureMember_def spec_simps)
qed

lemma room_leave_refines:
  assumes inv: "room_inv r" and res: "leave r c = Some (res, r')"
  shows "spec_leave (abs_room r) c = (abs_result res, abs_room r')"
proof (cases "c \<in> set (members r)")
  case True
  note L = leave_member_eq[OF inv True] leave_finish_active_eq[OF inv, of c] room_invD(1)[OF inv]
  show ?thesis
  proof (cases "activeStrokeByClient r c")
    case None
    with True res L drawing_None_iff[OF inv, of c] show ?thesis
      by (auto simp: spec_leave_def spec_simps delete_conv' distinct_removeAll)
  next
    case (Some sid)
    with True res L drawing_Some[OF inv Some] edit_drawing_eq[OF inv Some] show ?thesis
      by (auto simp: spec_leave_def spec_simps delete_conv' distinct_removeAll simp del: map_eq_conv)
  qed
next
  case False
  with res show ?thesis
    by (auto simp: leave_def spec_leave_def abs_room_def abs_result_def)
qed


subsection \<open>Runs refine runs of the specification\<close>

type_synonym spec_answer = "(SpecSnapshot, Mail) answer"

fun spec_op :: "SpecRoom \<Rightarrow> room_op \<Rightarrow> spec_answer \<times> SpecRoom" where
  "spec_op S (Join c) = map_prod (answer_of Joined) id (spec_join S c)"
| "spec_op S (Leave c) = map_prod (answer_of Sent) id (spec_leave S c)"
| "spec_op S (Apply c now ev) = map_prod (answer_of Sent) id (spec_apply S now c ev)"

fun spec_run :: "SpecRoom \<Rightarrow> room_op list \<Rightarrow> spec_answer list \<times> SpecRoom" where
  "spec_run S [] = ([], S)"
| "spec_run S (op # ops) =
     (let (ans, S1) = spec_op S op; (rest, S2) = spec_run S1 ops in (ans # rest, S2))"

definition abs_answer :: "room_answer \<Rightarrow> spec_answer" where
  "abs_answer ans = map_answer abs_snapshot mail ans"

lemma abs_answer_of: "answer_of Sent (abs_result res) = abs_answer (answer_of Sent res)"
  by (cases res) (simp_all add: abs_result_def abs_answer_def answer_of_def)

lemma call_op_refines:
  assumes "room_inv r" "call_op r op = Some (ans, r')"
  shows "spec_op (abs_room r) op = (abs_answer ans, abs_room r')"
proof (cases op)
  case (Join c)
  obtain res r1 where j: "join r c = (res, r1)" by (cases "join r c")
  then show ?thesis using assms(2) Join room_join_refines[OF j]
    by (cases res) (auto simp: abs_answer_def answer_of_def)
next
  case (Leave c)
  with assms room_leave_refines[OF assms(1), of c] show ?thesis
    by (auto simp: abs_answer_of)
next
  case (Apply c now ev)
  with assms room_apply_refines[OF assms(1), of now c ev] show ?thesis
    by (auto simp: abs_answer_of simp del: spec_apply.simps)
qed

lemma run_calls_refines:
  assumes "room_inv r" "seq_room r (2 * length ops)" "run_calls r ops = Some (ans, r')"
  shows "spec_run (abs_room r) ops = (map abs_answer ans, abs_room r')"
  using assms
proof (induction ops arbitrary: r ans)
  case (Cons op ops)
  obtain a r1 as where run: "call_op r op = Some (a, r1)" "run_calls r1 ops = Some (as, r')" "ans = a # as"
    using Cons.prems(3) by (auto split: bind_splits)
  then have "room_inv r1" "seq_room r1 (2 * length ops)"
    using run_room_step[OF Cons.prems(1,2)] by (auto simp: run_op_def)
  with Cons.IH[OF _ _ run(2)] call_op_refines[OF Cons.prems(1) run(1)] run(3) show ?case by simp
qed simp

text \<open>
  Two rooms that differ only in the iteration order of their members and cursors send every client
  the same events in the same order.
\<close>

fun spec_mail :: "spec_answer \<Rightarrow> Mail" where
  "spec_mail (Sent box) = box"
| "spec_mail _ = (\<lambda>m. [])"

lemma received_answers: "received m (concat (map answer_events as)) = concat (map (\<lambda>a. spec_mail (abs_answer a) m) as)"
proof (induction as)
  case (Cons a as)
  then show ?case by (cases a) (simp_all add: abs_answer_def mail_def)
qed simp

lemma run_room_order_free:
  assumes "room_inv r" "room_inv q" "abs_room r = abs_room q" "seq_room r (2 * length ops)"
    "run_room r ops = Some (out, r')" "run_room q ops = Some (out', q')"
  shows "received m out = received m out' \<and> abs_room r' = abs_room q'"
proof -
  have seq: "seq_room q (2 * length ops)"
    using assms(3,4) by (simp add: seq_room_def abs_room_def)
  obtain as where r: "run_calls r ops = Some (as, r')" "out = concat (map answer_events as)"
    using assms(5) by (auto simp: run_room_calls)
  obtain bs where q: "run_calls q ops = Some (bs, q')" "out' = concat (map answer_events bs)"
    using assms(6) by (auto simp: run_room_calls)
  have same: "map abs_answer as = map abs_answer bs" "abs_room r' = abs_room q'"
    using run_calls_refines[OF assms(1,4) r(1)] run_calls_refines[OF assms(2) seq q(1)] assms(3) by simp_all
  have "map (\<lambda>a. spec_mail (abs_answer a) m) as = map (\<lambda>a. spec_mail (abs_answer a) m) bs"
    using arg_cong[OF same(1), of "map (\<lambda>a. spec_mail a m)"] unfolding map_map comp_def .
  then show ?thesis using same(2) by (simp add: r(2) q(2) received_answers)
qed


subsection \<open>Properties\<close>

text \<open>
  C3: The room implements its specification. From its construction on, every sequence of calls gets
  exactly the answers the specification prescribes and ends in the abstraction of exactly its state: each error with its
  code and text, each join snapshot (room, last number, strokes, cursors and members), and for every accepted call the
  events that each client is sent, in order and none twice. The specification has no index maps: the stroke a client
  draws is its unfinished stroke on the board.
\<close>

theorem room_implements_spec:
  assumes "2 * length ops + 1 < 2 ^ 64"
  shows "\<exists>ans r'. run_calls (new_room rid) ops = Some (ans, r') \<and>
    spec_run (abs_room (new_room rid)) ops = (map abs_answer ans, abs_room r')"
proof -
  obtain ans r' where "run_calls (new_room rid) ops = Some (ans, r')"
    using run_room_inv[OF new_room_inv new_room_space[OF assms], of rid] by (auto simp: run_room_calls)
  then show ?thesis using run_calls_refines[OF new_room_inv new_room_space[OF assms]] by blast
qed

text \<open>Two joins, a stroke, a refused second stroke of the same client, and its departure.\<close>

definition spec_sample :: "room_op list" where
  "spec_sample = [Join 1, Join 2, Apply 1 0 (StrokeBegin Blue Thick \<lparr>pt_x = 0, pt_y = 0\<rparr>),
     Apply 1 0 (StrokeBegin Red Thin \<lparr>pt_x = 0, pt_y = 0\<rparr>), Apply 3 0 Clear, Leave 1]"

theorem room_implements_spec_witness:
  "\<exists>ans r' snap. run_calls (new_room 3) spec_sample = Some (ans, r') \<and>
    spec_run (abs_room (new_room 3)) spec_sample = (map abs_answer ans, abs_room r') \<and>
    hd ans = Joined snap \<and> snap_members snap = [1] \<and>
    ans ! 3 = Refused (protocolViolation ''stroke already active'') \<and> ans ! 4 = Refused notInRoom"
proof -
  obtain ans r' where run: "run_calls (new_room 3) spec_sample = Some (ans, r')"
    "spec_run (abs_room (new_room 3)) spec_sample = (map abs_answer ans, abs_room r')"
    using room_implements_spec[of spec_sample 3] by (auto simp: spec_sample_def)
  moreover have "(\<exists>snap. hd ans = Joined snap \<and> snap_members snap = [1]) \<and>
      ans ! 3 = Refused (protocolViolation ''stroke already active'') \<and> ans ! 4 = Refused notInRoom"
    using run(1) by (auto simp: spec_sample_def room_eval answer_of_def)
  ultimately show ?thesis by blast
qed

text \<open>
  C31: The iteration order of the unordered member set and cursor map cannot be observed: two rooms in
  the same abstract state, run through the same calls, send every client the same events in the same
  order and stay in the same abstract state.
\<close>

theorem iteration_order_irrelevant:
  assumes "room_inv r" "room_inv q" "abs_room r = abs_room q" "seq_room r (2 * length ops)"
    and "run_room r ops = Some (out, r')" "run_room q ops = Some (out', q')"
  shows "received m out = received m out' \<and> abs_room r' = abs_room q'"
  using assms by (rule run_room_order_free)

theorem iteration_order_irrelevant_witness:
  "let r = snd (join (snd (join (new_room 1) 5)) 6);
       q = snd (join (snd (join (new_room 1) 6)) 5)
   in members r \<noteq> members q \<and>
      received 6 (fst (the (run_room r [Apply 5 0 Clear]))) =
      received 6 (fst (the (run_room q [Apply 5 0 Clear])))"
proof -
  let ?r = "snd (join (snd (join (new_room 1) 5)) 6)"
  let ?q = "snd (join (snd (join (new_room 1) 6)) 5)"
  have inv: "room_inv ?r" "room_inv ?q" by (intro join_inv new_room_inv)+
  have eq: "abs_room ?r = abs_room ?q"
    by (auto simp: abs_room_def join_def new_room_def Let_def)
  have seq: "seq_room ?r (2 * length [Apply 5 0 Clear])"
    by (simp add: seq_room_def join_def new_room_def Let_def)
  obtain out r' where r: "run_room ?r [Apply 5 0 Clear] = Some (out, r')"
    using run_room_inv[OF inv(1) seq] by blast
  have seq': "seq_room ?q (2 * length [Apply 5 0 Clear])"
    by (simp add: seq_room_def join_def new_room_def Let_def)
  obtain out' q' where q: "run_room ?q [Apply 5 0 Clear] = Some (out', q')"
    using run_room_inv[OF inv(2) seq'] by blast
  have "members ?r \<noteq> members ?q"
    by (simp add: join_def new_room_def Let_def)
  with iteration_order_irrelevant[OF inv eq seq r q, of 6] r q show ?thesis
    by (simp add: Let_def del: run_room.simps)
qed

end
