(* ===== verification/CS_Room_Manager.thy ===== *)
theory CS_Room_Manager
  imports CS_Room
begin

text \<open>
  The room directory: \<^verbatim>\<open>core/include/clearspace/core/room_manager.hpp\<close> and
  \<^verbatim>\<open>core/src/room_manager.cpp\<close>. \<^verbatim>\<open>rooms_\<close> owns every room through a shared pointer and never
  drops one, so the map holds the room itself; a mutation through the pointer that \<^verbatim>\<open>getRoom\<close>
  returned is \<open>setRoom\<close> at the same key.

  The locale \<open>room_directory\<close> is the interface the server core relies on; its lemmas lift a
  property of rooms to all rooms of the directory.
\<close>

record RoomManager =
  rooms :: "RoomId \<rightharpoonup> Room"
  nextRoomId :: RoomId

definition new_manager :: RoomManager where
  "new_manager = \<lparr>rooms = Map.empty, nextRoomId = 1\<rparr>"

definition mgr_createRoom :: "RoomManager \<Rightarrow> RoomId \<times> RoomManager" where
  "mgr_createRoom m =
     (let rid = nextRoomId m
      in (rid, m\<lparr>nextRoomId := nextRoomId m + 1, rooms := (rooms m)(rid \<mapsto> new_room rid)\<rparr>))"

definition getRoom :: "RoomManager \<Rightarrow> RoomId \<Rightarrow> Room option" where
  "getRoom m room = rooms m room"

definition setRoom :: "RoomManager \<Rightarrow> RoomId \<Rightarrow> Room \<Rightarrow> RoomManager" where
  "setRoom m room r = m\<lparr>rooms := (rooms m)(room \<mapsto> r)\<rparr>"

text \<open>Keys handed out so far lie strictly between 0 and the counter.\<close>

definition manager_inv :: "RoomManager \<Rightarrow> bool" where
  "manager_inv m \<longleftrightarrow> 0 < nextRoomId m \<and>
     (\<forall>rid. rooms m rid \<noteq> None \<longleftrightarrow> 0 < rid \<and> rid < nextRoomId m)"

definition manager_room :: "RoomManager \<Rightarrow> bool" where
  "manager_room m \<longleftrightarrow> unat (nextRoomId m) + 1 < 2 ^ 64"

locale room_directory =
  fixes create :: "'m \<Rightarrow> RoomId \<times> 'm"
    and look :: "'m \<Rightarrow> RoomId \<Rightarrow> Room option"
    and store :: "'m \<Rightarrow> RoomId \<Rightarrow> Room \<Rightarrow> 'm"
    and valid :: "'m \<Rightarrow> bool"
    and has_space :: "'m \<Rightarrow> bool"
  assumes look_create: "create m = (rid, m') \<Longrightarrow> look m' = (look m)(rid \<mapsto> new_room rid)"
    and create_fresh: "valid m \<Longrightarrow> create m = (rid, m') \<Longrightarrow> look m rid = None"
    and look_store: "look (store m rid r) = (look m)(rid \<mapsto> r)"
    and valid_create: "valid m \<Longrightarrow> has_space m \<Longrightarrow> create m = (rid, m') \<Longrightarrow> valid m'"
    and valid_store: "valid m \<Longrightarrow> look m rid \<noteq> None \<Longrightarrow> valid (store m rid r)"
begin

text \<open>A predicate that holds of every room, by its key.\<close>

definition all_rooms :: "(RoomId \<Rightarrow> Room \<Rightarrow> bool) \<Rightarrow> 'm \<Rightarrow> bool" where
  "all_rooms P m \<longleftrightarrow> (\<forall>rid r. look m rid = Some r \<longrightarrow> P rid r)"

lemma all_rooms_create:
  "all_rooms P m \<Longrightarrow> create m = (rid, m') \<Longrightarrow> P rid (new_room rid) \<Longrightarrow> all_rooms P m'"
  by (auto simp: all_rooms_def look_create)

lemma all_rooms_store: "all_rooms P m \<Longrightarrow> P rid r \<Longrightarrow> all_rooms P (store m rid r)"
  by (auto simp: all_rooms_def look_store)

lemma all_roomsD: "all_rooms P m \<Longrightarrow> look m rid = Some r \<Longrightarrow> P rid r"
  by (auto simp: all_rooms_def)

text \<open>What an operation on one room leaves alone.\<close>

lemma store_isolated: "rid' \<noteq> rid \<Longrightarrow> look (store m rid r) rid' = look m rid'"
  by (simp add: look_store)

lemma create_keeps:
  assumes "valid m" "create m = (rid, m')" "look m rid' = Some r"
  shows "look m' rid' = Some r"
  using assms create_fresh[OF assms(1,2)] by (auto simp: look_create)

end

lemma manager_inv_create:
  assumes "manager_inv m" "manager_room m" "mgr_createRoom m = (rid, m')"
  shows "manager_inv m'"
proof -
  have m': "rid = nextRoomId m" "nextRoomId m' = nextRoomId m + 1"
      "rooms m' = (rooms m)(nextRoomId m \<mapsto> new_room (nextRoomId m))"
    using assms(3) by (auto simp: mgr_createRoom_def Let_def)
  have n: "nextRoomId m < nextRoomId m + 1"
    using assms(2) by (simp add: manager_room_def less_succ)
  have "rid' < nextRoomId m + 1 \<longleftrightarrow> rid' < nextRoomId m \<or> rid' = nextRoomId m" for rid'
    using assms(2) by (simp add: manager_room_def less_succ_iff)
  with assms(1) n show ?thesis
    by (auto simp: manager_inv_def m' dest: less_trans)
qed

interpretation rm: room_directory mgr_createRoom getRoom setRoom manager_inv manager_room
proof
  show "mgr_createRoom m = (rid, m') \<Longrightarrow> getRoom m' = (getRoom m)(rid \<mapsto> new_room rid)" for m rid m'
    by (auto simp: mgr_createRoom_def getRoom_def Let_def fun_eq_iff)
  show "manager_inv m \<Longrightarrow> mgr_createRoom m = (rid, m') \<Longrightarrow> getRoom m rid = None" for m rid m'
    unfolding mgr_createRoom_def getRoom_def manager_inv_def Let_def
    by (metis fst_conv less_irrefl not_None_eq)
  show "getRoom (setRoom m rid r) = (getRoom m)(rid \<mapsto> r)" for m rid r
    by (simp add: getRoom_def setRoom_def fun_eq_iff)
  show "manager_inv m \<Longrightarrow> manager_room m \<Longrightarrow> mgr_createRoom m = (rid, m') \<Longrightarrow> manager_inv m'"
    for m rid m' by (rule manager_inv_create)
  show "manager_inv m \<Longrightarrow> getRoom m rid \<noteq> None \<Longrightarrow> manager_inv (setRoom m rid r)" for m rid r
    by (auto simp: manager_inv_def getRoom_def setRoom_def)
qed

lemma new_manager_inv: "manager_inv new_manager"
  by (auto simp: manager_inv_def new_manager_def word_less_nat_alt)

end
