(* ===== verification/CS_Server_Core.thy ===== *)
theory CS_Server_Core
  imports CS_Room_Manager CS_Room_Run
begin

text \<open>
  The server core: \<^verbatim>\<open>core/include/clearspace/core/server_core.hpp\<close> and
  \<^verbatim>\<open>core/src/server_core.cpp\<close>. An operation returns the value of the C++ method, the snapshots it
  handed to \<^verbatim>\<open>snapshotSink_->enqueue\<close> in their order, and the new state. \<open>snapshotSink\<close> says
  whether the constructor was given a sink. The theory that interleaves the calls of several
  threads is \<open>CS_Concurrency\<close>; here a call runs by itself.

  The locale \<open>room_service\<close> is what a client session relies on; it is interpreted by the
  operations of the core.
\<close>

record ServerCore =
  snapshotSink :: bool
  manager :: RoomManager

definition new_core :: "bool \<Rightarrow> ServerCore" where
  "new_core sink = \<lparr>snapshotSink = sink, manager = new_manager\<rparr>"

type_synonym core_result =
  "(OutgoingEvent list expected \<times> PersistedBoardSnapshot list \<times> ServerCore) option"

definition createRoom :: "ServerCore \<Rightarrow> RoomId \<times> ServerCore" where
  "createRoom core = (let (rid, m) = mgr_createRoom (manager core) in (rid, core\<lparr>manager := m\<rparr>))"

definition joinRoom :: "ServerCore \<Rightarrow> ClientId \<Rightarrow> RoomId \<Rightarrow> RoomSnapshot expected \<times> ServerCore" where
  "joinRoom core client room =
     (case getRoom (manager core) room of
        None \<Rightarrow> (Inl roomNotFound, core)
      | Some r \<Rightarrow>
          let (res, r') = join r client
          in (res, core\<lparr>manager := setRoom (manager core) room r'\<rparr>))"

definition leaveRoom :: "ServerCore \<Rightarrow> ClientId \<Rightarrow> RoomId \<Rightarrow> core_result" where
  "leaveRoom core client room =
     (case getRoom (manager core) room of
        None \<Rightarrow> Some (Inl roomNotFound, [], core)
      | Some r \<Rightarrow> do {
          (res, r') \<leftarrow> leave r client;
          let core' = core\<lparr>manager := setRoom (manager core) room r'\<rparr>;
          case res of
            Inl e \<Rightarrow> Some (Inl e, [], core')
          | Inr out \<Rightarrow>
              Some (Inr out,
                (if snapshotSink core
                 then if memberCount r' = 0 then [makePersistedSnapshot r'] else []
                 else []), core') })"

definition shouldSave :: "EventPayload \<Rightarrow> bool" where
  "shouldSave ev \<longleftrightarrow> (case ev of StrokeEnd \<Rightarrow> True | Clear \<Rightarrow> True | _ \<Rightarrow> False)"

definition handleEvent :: "ServerCore \<Rightarrow> TimePoint \<Rightarrow> ClientId \<Rightarrow> RoomId \<Rightarrow> EventPayload \<Rightarrow> core_result" where
  "handleEvent core now client room ev =
     (case getRoom (manager core) room of
        None \<Rightarrow> Some (Inl roomNotFound, [], core)
      | Some r \<Rightarrow> do {
          (res, r') \<leftarrow> apply_event r now client ev;
          let core' = core\<lparr>manager := setRoom (manager core) room r'\<rparr>;
          case res of
            Inl e \<Rightarrow> Some (Inl e, [], core')
          | Inr out \<Rightarrow>
              Some (Inr out,
                (if snapshotSink core
                 then if shouldSave ev then [makePersistedSnapshot r'] else []
                 else []), core') })"

text \<open>
  \<open>core_ok n\<close>: every room satisfies its invariant under its own key, and no counter can wrap
  within the next \<open>n\<close> operations.
\<close>

definition core_ok :: "nat \<Rightarrow> ServerCore \<Rightarrow> bool" where
  "core_ok n core \<longleftrightarrow> manager_inv (manager core) \<and> 2 * n + 1 < 2 ^ 64 \<and>
     unat (nextRoomId (manager core)) + n < 2 ^ 64 \<and>
     rm.all_rooms (\<lambda>rid r. room_inv r \<and> room_id r = rid \<and> seq_room r (2 * n)) (manager core)"

definition in_room :: "ServerCore \<Rightarrow> RoomId \<Rightarrow> ClientId \<Rightarrow> bool" where
  "in_room core rid c \<longleftrightarrow> (\<exists>r. getRoom (manager core) rid = Some r \<and> c \<in> set (members r))"

definition room_exists :: "ServerCore \<Rightarrow> RoomId \<Rightarrow> bool" where
  "room_exists core rid \<longleftrightarrow> getRoom (manager core) rid \<noteq> None"

locale room_service =
  fixes ok :: "nat \<Rightarrow> 's \<Rightarrow> bool"
    and has :: "'s \<Rightarrow> RoomId \<Rightarrow> bool"
    and isin :: "'s \<Rightarrow> RoomId \<Rightarrow> ClientId \<Rightarrow> bool"
    and mk :: "'s \<Rightarrow> RoomId \<times> 's"
    and enter :: "'s \<Rightarrow> ClientId \<Rightarrow> RoomId \<Rightarrow> RoomSnapshot expected \<times> 's"
    and quit :: "'s \<Rightarrow> ClientId \<Rightarrow> RoomId \<Rightarrow> (OutgoingEvent list expected \<times> PersistedBoardSnapshot list \<times> 's) option"
    and event :: "'s \<Rightarrow> TimePoint \<Rightarrow> ClientId \<Rightarrow> RoomId \<Rightarrow> EventPayload \<Rightarrow>
        (OutgoingEvent list expected \<times> PersistedBoardSnapshot list \<times> 's) option"
  assumes mk_ok: "ok (Suc n) s \<Longrightarrow> mk s = (rid, s') \<Longrightarrow>
        ok n s' \<and> \<not> has s rid \<and> has s' = (has s)(rid := True) \<and> isin s' = isin s"
    and enter_missing: "\<not> has s rid \<Longrightarrow> enter s c rid = (Inl roomNotFound, s)"
    and enter_ok: "ok (Suc n) s \<Longrightarrow> has s rid \<Longrightarrow>
        \<exists>snap s'. enter s c rid = (Inr snap, s') \<and> ok n s' \<and> has s' = has s \<and>
          isin s' = (isin s)(rid := (isin s rid)(c := True))"
    and quit_ok: "ok (Suc n) s \<Longrightarrow> isin s rid c \<Longrightarrow>
        \<exists>out sn s'. quit s c rid = Some (Inr out, sn, s') \<and> ok n s' \<and> has s' = has s \<and>
          isin s' = (isin s)(rid := (isin s rid)(c := False))"
    and quit_outside: "\<not> isin s rid c \<Longrightarrow>
        \<exists>e. quit s c rid = Some (Inl e, [], s)"
    and event_ok: "ok (Suc n) s \<Longrightarrow> isin s rid c \<Longrightarrow>
        \<exists>res sn s'. event s t c rid ev = Some (res, sn, s') \<and> ok n s' \<and> has s' = has s \<and>
          isin s' = isin s"
    and isin_has: "isin s rid c \<Longrightarrow> has s rid"
    and ok_mono: "ok n s \<Longrightarrow> m \<le> n \<Longrightarrow> ok m s"

lemma core_okD:
  assumes "core_ok (Suc n) core" "getRoom (manager core) rid = Some r"
  shows "room_inv r" "room_id r = rid" "seq_room r (2 * n + 2)" "seq_room r 1" "seq_room r 2"
proof -
  show "room_inv r" "room_id r = rid" "seq_room r (2 * n + 2)"
    using assms rm.all_roomsD by (fastforce simp: core_ok_def)+
  then show "seq_room r 1" "seq_room r 2" by (auto simp: seq_room_def)
qed

lemma all_rooms_weaken:
  "rm.all_rooms P m \<Longrightarrow> (\<And>rid r. P rid r \<Longrightarrow> Q rid r) \<Longrightarrow> rm.all_rooms Q m"
  by (auto simp: rm.all_rooms_def)

lemma core_ok_mono: "core_ok n core \<Longrightarrow> m \<le> n \<Longrightarrow> core_ok m core"
  unfolding core_ok_def by (auto elim!: all_rooms_weaken simp: seq_room_def)

text \<open>Writing back a room that spent at most two sequence numbers.\<close>

lemma core_ok_set:
  assumes ok: "core_ok (Suc n) core" and look: "getRoom (manager core) rid = Some r"
    and r': "room_inv r'" "room_id r' = rid" "unat (nextSeq r') \<le> unat (nextSeq r) + 2"
  shows "core_ok n (core\<lparr>manager := setRoom (manager core) rid r'\<rparr>)"
proof -
  have "seq_room r' (2 * n)"
    using core_okD(3)[OF ok look] r'(3) by (simp add: seq_room_def)
  moreover have "rm.all_rooms (\<lambda>rid r. room_inv r \<and> room_id r = rid \<and> seq_room r (2 * n)) (manager core)"
    using core_ok_mono[OF ok, of n] by (simp add: core_ok_def)
  ultimately have "rm.all_rooms (\<lambda>rid r. room_inv r \<and> room_id r = rid \<and> seq_room r (2 * n))
      (setRoom (manager core) rid r')"
    using r' by (intro rm.all_rooms_store) simp_all
  moreover have "manager_inv (setRoom (manager core) rid r')"
    using ok look by (intro rm.valid_store) (simp_all add: core_ok_def)
  ultimately show ?thesis
    using ok by (simp add: core_ok_def setRoom_def)
qed

lemma apply_event_step:
  assumes "room_inv r" "seq_room r 2"
  obtains res r' where "apply_event r now c ev = Some (res, r')" "room_inv r'"
    "room_id r' = room_id r" "members r' = members r" "unat (nextSeq r') \<le> unat (nextSeq r) + 2"
proof -
  have seq1: "seq_room r 1" using assms(2) by (simp add: seq_room_def)
  obtain res r' where a: "apply_event r now c ev = Some (res, r')" "room_inv r'"
    using apply_event_inv[OF assms(1) seq1] by blast
  moreover obtain ps where "members r' = members r" "length ps \<le> 1" "logs r r' c (sent res) ps"
    using apply_event_logs[OF assms(1) a(1)] by blast
  ultimately show thesis
    using that seq_room_logs[OF seq1, of r' c "sent res" ps] by (simp add: logs_def)
qed

lemma leave_step:
  assumes "room_inv r" "seq_room r 2"
  obtains res r' where "leave r c = Some (res, r')" "room_inv r'" "room_id r' = room_id r"
    "set (members r') = set (members r) - {c}" "unat (nextSeq r') \<le> unat (nextSeq r) + 2"
proof -
  obtain res r' where a: "leave r c = Some (res, r')" "room_inv r'"
    using leave_inv[OF assms] by blast
  moreover obtain ps where "set (members r') = set (members r) - {c}" "length ps \<le> 2"
      "logs r r' c (sent res) ps"
    using leave_logs[OF assms(1) a(1)] by blast
  ultimately show thesis
    using that seq_room_logs[OF assms(2), of r' c "sent res" ps] by (simp add: logs_def)
qed


text \<open>The laws of the service, one operation at a time.\<close>

lemma setRoom_same: "getRoom m rid = Some r \<Longrightarrow> setRoom m rid r = m"
  by (cases m) (auto simp: setRoom_def getRoom_def)

lemma room_exists_set: "getRoom (manager core) rid = Some r \<Longrightarrow>
    room_exists (core\<lparr>manager := setRoom (manager core) rid r'\<rparr>) = room_exists core"
  by (auto simp: room_exists_def rm.look_store fun_eq_iff)

lemma in_room_set: "in_room (core\<lparr>manager := setRoom (manager core) rid r'\<rparr>) =
    (in_room core)(rid := (\<lambda>c. c \<in> set (members r')))"
  by (auto simp: in_room_def rm.look_store fun_eq_iff)

lemma createRoom_ok:
  assumes ok: "core_ok (Suc n) core" and cr: "createRoom core = (rid, core')"
  shows "core_ok n core' \<and> \<not> room_exists core rid \<and> room_exists core' = (room_exists core)(rid := True) \<and>
    in_room core' = in_room core"
proof -
  obtain m where m: "mgr_createRoom (manager core) = (rid, m)" "core' = core\<lparr>manager := m\<rparr>"
    using cr by (auto simp: createRoom_def Let_def split: prod.splits)
  have inv: "manager_inv (manager core)" "manager_room (manager core)"
    using ok by (auto simp: core_ok_def manager_room_def)
  have "rm.all_rooms (\<lambda>rid r. room_inv r \<and> room_id r = rid \<and> seq_room r (2 * n)) (manager core)"
    using core_ok_mono[OF ok, of n] by (simp add: core_ok_def)
  moreover have "seq_room (new_room rid) (2 * n)" "room_id (new_room rid) = rid"
    using ok by (simp_all add: seq_room_def new_room_def core_ok_def)
  ultimately have "rm.all_rooms (\<lambda>rid r. room_inv r \<and> room_id r = rid \<and> seq_room r (2 * n)) m"
    using rm.all_rooms_create[OF _ m(1)] new_room_inv by blast
  moreover have "nextRoomId m = nextRoomId (manager core) + 1"
    using m(1) by (auto simp: mgr_createRoom_def Let_def)
  ultimately have "core_ok n core'"
    using ok rm.valid_create[OF inv m(1)] inv(2)
    by (simp add: core_ok_def m(2) manager_room_def unat_succ)
  then show ?thesis
    using rm.create_fresh[OF inv(1) m(1)] rm.look_create[OF m(1)] m(2)
    by (auto simp: room_exists_def in_room_def fun_eq_iff new_room_def)
qed

lemma joinRoom_ok:
  assumes ok: "core_ok (Suc n) core" and ex: "room_exists core rid"
  shows "\<exists>snap core'. joinRoom core c rid = (Inr snap, core') \<and> core_ok n core' \<and>
    room_exists core' = room_exists core \<and> in_room core' = (in_room core)(rid := (in_room core rid)(c := True))"
proof -
  obtain r where r: "getRoom (manager core) rid = Some r"
    using ex by (auto simp: room_exists_def)
  obtain snap r' where j: "join r c = (Inr snap, r')" "r' = r\<lparr>members := List.insert c (members r)\<rparr>"
    by (simp add: join_def Let_def)
  then have "core_ok n (core\<lparr>manager := setRoom (manager core) rid r'\<rparr>)"
    using core_okD[OF ok r] join_inv[of r c] by (intro core_ok_set[OF ok r]) simp_all
  then show ?thesis
    using r j room_exists_set[OF r]
    by (auto simp: joinRoom_def in_room_set) (auto simp: fun_eq_iff in_room_def)
qed

lemma leaveRoom_ok:
  assumes ok: "core_ok (Suc n) core" and mem: "in_room core rid c"
  shows "\<exists>out sn core'. leaveRoom core c rid = Some (Inr out, sn, core') \<and> core_ok n core' \<and>
    room_exists core' = room_exists core \<and> in_room core' = (in_room core)(rid := (in_room core rid)(c := False))"
proof -
  obtain r where r: "getRoom (manager core) rid = Some r" "c \<in> set (members r)"
    using mem by (auto simp: in_room_def)
  note D = core_okD[OF ok r(1)]
  obtain res r' where l: "leave r c = Some (res, r')" "room_inv r'" "room_id r' = room_id r"
      "set (members r') = set (members r) - {c}" "unat (nextSeq r') \<le> unat (nextSeq r) + 2"
    using leave_step[OF D(1,5)] by blast
  obtain out where "res = Inr out"
    using l(1) r(2) leave_member_eq[OF D(1) r(2)] by (auto simp: Let_def split: prod.splits)
  moreover have "core_ok n (core\<lparr>manager := setRoom (manager core) rid r'\<rparr>)"
    using l D(2) by (intro core_ok_set[OF ok r(1)]) simp_all
  moreover have "(\<lambda>c'. c' \<in> set (members r')) = (in_room core rid)(c := False)"
    using l(4) r(1) by (auto simp: in_room_def fun_eq_iff)
  ultimately show ?thesis
    using r(1) l(1) room_exists_set[OF r(1)] by (simp add: leaveRoom_def Let_def in_room_set)
qed

lemma leaveRoom_outside:
  assumes "\<not> in_room core rid c"
  shows "\<exists>e. leaveRoom core c rid = Some (Inl e, [], core)"
  using assms by (cases "getRoom (manager core) rid")
    (auto simp: leaveRoom_def leave_def in_room_def Let_def setRoom_same)

lemma handleEvent_ok:
  assumes ok: "core_ok (Suc n) core" and mem: "in_room core rid c"
  shows "\<exists>res sn core'. handleEvent core now c rid ev = Some (res, sn, core') \<and> core_ok n core' \<and>
    room_exists core' = room_exists core \<and> in_room core' = in_room core"
proof -
  obtain r where r: "getRoom (manager core) rid = Some r" "c \<in> set (members r)"
    using mem by (auto simp: in_room_def)
  note D = core_okD[OF ok r(1)]
  obtain res r' where l: "apply_event r now c ev = Some (res, r')" "room_inv r'" "room_id r' = room_id r"
      "members r' = members r" "unat (nextSeq r') \<le> unat (nextSeq r) + 2"
    using apply_event_step[OF D(1,5)] by blast
  moreover have "core_ok n (core\<lparr>manager := setRoom (manager core) rid r'\<rparr>)"
    using l D(2) by (intro core_ok_set[OF ok r(1)]) simp_all
  moreover have "(\<lambda>c'. c' \<in> set (members r')) = in_room core rid"
    using l(4) r(1) by (auto simp: in_room_def fun_eq_iff)
  ultimately show ?thesis
    using r(1) l(1) room_exists_set[OF r(1)]
    by (cases res) (simp_all add: handleEvent_def Let_def in_room_set)
qed

interpretation core: room_service core_ok room_exists in_room createRoom joinRoom leaveRoom handleEvent
proof
  show "\<not> room_exists s rid \<Longrightarrow> joinRoom s c rid = (Inl roomNotFound, s)" for s rid c
    by (simp add: room_exists_def joinRoom_def)
  show "in_room s rid c \<Longrightarrow> room_exists s rid" for s rid c
    by (auto simp: in_room_def room_exists_def)
qed (fact createRoom_ok joinRoom_ok leaveRoom_ok leaveRoom_outside handleEvent_ok core_ok_mono)+

lemma new_core_ok: "2 * n + 1 < 2 ^ 64 \<Longrightarrow> core_ok n (new_core sink)"
  by (simp add: core_ok_def new_core_def new_manager_inv rm.all_rooms_def getRoom_def)
    (simp add: new_manager_def)


subsection \<open>Properties\<close>

text \<open>Creating rooms one after the other.\<close>

fun create_rooms :: "nat \<Rightarrow> ServerCore \<Rightarrow> RoomId list \<times> ServerCore" where
  "create_rooms 0 core = ([], core)"
| "create_rooms (Suc n) core =
     (let (rid, core1) = createRoom core; (rids, core2) = create_rooms n core1 in (rid # rids, core2))"

lemma create_rooms_ids:
  assumes "unat (nextRoomId (manager core)) + n < 2 ^ 64"
  shows "map unat (fst (create_rooms n core)) =
    [unat (nextRoomId (manager core))..<unat (nextRoomId (manager core)) + n]"
  using assms
proof (induction n arbitrary: core)
  case (Suc n)
  let ?core1 = "snd (createRoom core)"
  have "unat (nextRoomId (manager ?core1)) = unat (nextRoomId (manager core)) + 1"
    "fst (createRoom core) = nextRoomId (manager core)"
    using Suc.prems by (simp_all add: createRoom_def mgr_createRoom_def Let_def unat_succ)
  with Suc.IH[of ?core1] Suc.prems show ?case
    by (simp add: Let_def split_beta upt_rec)
qed simp

lemmas core_eval = room_eval new_core_def new_manager_def createRoom_def mgr_createRoom_def joinRoom_def
  leaveRoom_def handleEvent_def getRoom_def setRoom_def shouldSave_def memberCount_def
  makePersistedSnapshot_def lastSeq_def

text \<open>A core with one room and one member in it.\<close>

lemma core_ok_joined: "core_ok (Suc 0) (snd (joinRoom (snd (createRoom (new_core sink))) c 1))"
proof -
  have "core_ok (Suc (Suc (Suc 0))) (new_core sink)" by (rule new_core_ok) simp
  moreover obtain core1 where c1: "createRoom (new_core sink) = (1, core1)"
    by (simp add: createRoom_def mgr_createRoom_def new_core_def new_manager_def Let_def)
  ultimately have "core_ok (Suc (Suc 0)) core1" "room_exists core1 1"
    using createRoom_ok by fastforce+
  with joinRoom_ok[of "Suc 0" core1 1 c] c1 show ?thesis by auto
qed

text \<open>
  Rooms get the ids 1, 2, 3 and so on in the order of their creation; no two rooms ever share an
  id before the 64-bit counter is used up.
\<close>

theorem created_room_ids:
  assumes "n + 1 < 2 ^ 64"
  shows "map unat (fst (create_rooms n (new_core sink))) = [1..<n + 1] \<and>
    distinct (fst (create_rooms n (new_core sink)))"
proof -
  have ids: "map unat (fst (create_rooms n (new_core sink))) = [1..<n + 1]"
    using create_rooms_ids[of "new_core sink" n] assms
    by (simp add: new_core_def new_manager_def del: upt_Suc)
  then have "distinct (map unat (fst (create_rooms n (new_core sink))))"
    by (metis distinct_upt)
  with ids show ?thesis using distinct_map by blast
qed

theorem created_room_ids_witness:
  "map unat (fst (create_rooms 3 (new_core True))) = [1, 2, 3]"
  using created_room_ids[of 3 True] by (simp add: upt_rec)

text \<open>
  Rooms are independent: whatever a client does in one room, every other room is left exactly as
  it was, its sequence numbers and stroke ids included.
\<close>

theorem rooms_isolated:
  assumes "rid' \<noteq> rid"
  shows "getRoom (manager (snd (joinRoom core c rid))) rid' = getRoom (manager core) rid' \<and>
    (\<forall>res sn core'. leaveRoom core c rid = Some (res, sn, core') \<longrightarrow>
        getRoom (manager core') rid' = getRoom (manager core) rid') \<and>
    (\<forall>res sn core'. handleEvent core now c rid ev = Some (res, sn, core') \<longrightarrow>
        getRoom (manager core') rid' = getRoom (manager core) rid')"
  using assms
  by (auto simp: joinRoom_def leaveRoom_def handleEvent_def Let_def rm.store_isolated
      split: option.splits prod.splits sum.splits bind_splits)

theorem rooms_isolated_witness:
  "getRoom (manager (snd (joinRoom (snd (create_rooms 2 (new_core True))) 5 1))) 2 =
     getRoom (manager (snd (create_rooms 2 (new_core True)))) 2"
  using rooms_isolated[of 2 1 "snd (create_rooms 2 (new_core True))" 5] by simp

text \<open>
  With a sink, a successful \<^verbatim>\<open>StrokeEnd\<close> or \<^verbatim>\<open>Clear\<close> enqueues exactly one snapshot, which holds the
  strokes of the room after the event and its last sequence number; every other event, and every
  refused one, enqueues nothing.
\<close>

theorem handleEvent_persists:
  assumes ok: "core_ok (Suc n) core" and sink: "snapshotSink core"
    and h: "handleEvent core now c rid ev = Some (res, sn, core')"
    and r': "getRoom (manager core') rid = Some r'"
  shows "sn = (if (\<exists>out. res = Inr out) \<and> (ev = StrokeEnd \<or> ev = Clear)
      then [\<lparr>pers_room = rid, pers_lastSeq = lastSeq r', pers_strokes = strokes (board r')\<rparr>] else [])"
proof -
  obtain r where r: "getRoom (manager core) rid = Some r"
    using h r' by (cases "getRoom (manager core) rid") (auto simp: handleEvent_def)
  note D = core_okD[OF ok r]
  obtain res1 r1 where a: "apply_event r now c ev = Some (res1, r1)" "room_id r1 = room_id r"
    using apply_event_step[OF D(1,5)] by blast
  have save: "shouldSave ev \<longleftrightarrow> ev = StrokeEnd \<or> ev = Clear"
    by (cases ev) (simp_all add: shouldSave_def)
  show ?thesis
    using h r a r' sink D(2)
    by (cases res1)
      (auto simp: handleEvent_def Let_def rm.look_store save makePersistedSnapshot_def lastSeq_def)
qed

text \<open>
  With a sink, a departure enqueues a snapshot exactly when the last member left; that snapshot
  holds the room's strokes, and all of them are finished.
\<close>

theorem last_leave_persists:
  assumes ok: "core_ok (Suc n) core" and sink: "snapshotSink core"
    and l: "leaveRoom core c rid = Some (Inr out, sn, core')"
    and r': "getRoom (manager core') rid = Some r'"
  shows "sn = (if members r' = [] then [makePersistedSnapshot r'] else []) \<and>
    (\<forall>s\<in>\<Union> (set ` pers_strokes ` set sn). finished s)"
proof -
  obtain r where r: "getRoom (manager core) rid = Some r"
    using l by (cases "getRoom (manager core) rid") (auto simp: leaveRoom_def)
  note D = core_okD[OF ok r]
  obtain res r1 where a: "leave r c = Some (res, r1)" "room_inv r1"
    using leave_step[OF D(1,5)] by blast
  have sn: "r1 = r'" "sn = (if members r' = [] then [makePersistedSnapshot r'] else [])"
    using l r a r' sink by (auto simp: leaveRoom_def Let_def rm.look_store memberCount_def split: sum.splits)
  have "finished s" if "members r' = []" "s \<in> set (strokes (board r'))" for s
    using that room_invD(5)[OF a(2)] is_drawing_iff[OF a(2), of "author s"]
    by (auto simp: sn(1) is_drawing_def)
  with sn(2) show ?thesis by (auto simp: makePersistedSnapshot_def split: if_splits)
qed

theorem last_leave_persists_witness:
  "\<exists>core' r'. leaveRoom (snd (joinRoom (snd (createRoom (new_core True))) 5 1)) 5 1 =
      Some (Inr [], [makePersistedSnapshot r'], core') \<and> members r' = []"
proof -
  let ?core = "snd (joinRoom (snd (createRoom (new_core True))) 5 1)"
  obtain sn core' r' where h: "leaveRoom ?core 5 1 = Some (Inr [], sn, core')"
      "getRoom (manager core') 1 = Some r'" "members r' = []" "snapshotSink ?core"
    by (simp add: core_eval)
  from last_leave_persists[OF core_ok_joined[of True 5] h(4,1,2)] h show ?thesis by auto
qed

end
