(* ===== verification/CS_Messages.thy ===== *)
theory CS_Messages
  imports CS_Types
begin

text \<open>
  The wire messages: \<^verbatim>\<open>transport/include/clearspace/transport/messages.hpp\<close> and
  \<^verbatim>\<open>protocol_error.hpp\<close>. The two variants \<^verbatim>\<open>ClientMessage\<close> and \<^verbatim>\<open>ServerMessage\<close> are datatypes;
  the structs that occur inside messages are records.
\<close>

record PointDto =
  dto_x :: float32
  dto_y :: float32

record CursorDto =
  cursor_client :: ClientId
  cursor_point :: PointDto

record StrokeDto =
  dto_id :: StrokeId
  dto_author :: ClientId
  dto_color :: u8
  dto_thickness :: u8
  dto_strokeOrder :: Seq
  dto_points :: "PointDto list"
  dto_finished :: bool

datatype ClientMessage =
    PingRequest
  | CreateRoomRequest
  | JoinRoomRequest RoomId
  | LeaveRoomRequest RoomId
  | StrokeBeginRequest RoomId u8 u8 PointDto
  | StrokePointRequest RoomId PointDto
  | StrokeEndRequest RoomId
  | CursorMoveRequest RoomId PointDto
  | ClearRequest RoomId

record RoomSnapshotResponse =
  resp_room :: RoomId
  resp_lastSeq :: Seq
  resp_members :: "ClientId list"
  resp_strokes :: "StrokeDto list"
  resp_cursors :: "CursorDto list"

text \<open>
  The arguments of the event alternatives are the fields in the order of the structs: room, seq,
  author, id, strokeOrder, color, thickness, point.
\<close>

datatype ServerMessage =
    PongResponse
  | RoomCreatedResponse RoomId
  | OkResponse string RoomId
  | ErrorResponse string string
  | SnapshotResponse RoomSnapshotResponse
  | StrokeBeginEvent RoomId Seq ClientId StrokeId Seq u8 u8 PointDto
  | StrokePointEvent RoomId Seq ClientId StrokeId PointDto
  | StrokeEndEvent RoomId Seq ClientId StrokeId
  | CursorMoveEvent RoomId Seq ClientId PointDto
  | ClearEvent RoomId Seq ClientId
  | MemberLeftEvent RoomId Seq ClientId

datatype ProtocolErrorCode =
    InvalidJson | MissingField | InvalidFieldType | UnknownMessageType | InvalidMessage

record ProtocolError =
  perr_code :: ProtocolErrorCode
  perr_message :: string

definition perr_invalidJson :: "string \<Rightarrow> ProtocolError" where
  "perr_invalidJson msg = \<lparr>perr_code = InvalidJson, perr_message = msg\<rparr>"
definition perr_missingField :: "string \<Rightarrow> ProtocolError" where
  "perr_missingField msg = \<lparr>perr_code = MissingField, perr_message = msg\<rparr>"
definition perr_invalidFieldType :: "string \<Rightarrow> ProtocolError" where
  "perr_invalidFieldType msg = \<lparr>perr_code = InvalidFieldType, perr_message = msg\<rparr>"
definition perr_unknownMessageType :: "string \<Rightarrow> ProtocolError" where
  "perr_unknownMessageType msg = \<lparr>perr_code = UnknownMessageType, perr_message = msg\<rparr>"
definition perr_invalidMessage :: "string \<Rightarrow> ProtocolError" where
  "perr_invalidMessage msg = \<lparr>perr_code = InvalidMessage, perr_message = msg\<rparr>"

end
