(* ===== verification/CS_Mappers.thy ===== *)
theory CS_Mappers
  imports CS_Messages CS_Room_Run
begin

text \<open>
  The mappers between the core and the wire: \<^verbatim>\<open>transport/src/mappers.cpp\<close>. The five overloads of
  \<^verbatim>\<open>toCoreEvent\<close> are one function on the client messages that carry an event; the other messages
  have no overload (\<open>None\<close>). \<^verbatim>\<open>std::sort\<close> on the members (plain integers) and on the cursors (by
  client, which is unique in a map) has one possible result, the sorted list.
\<close>

definition toColor :: "u8 \<Rightarrow> Color expected" where
  "toColor c = (if color_code Blue < c then Inl (invalidParams ''invalid color'') else Inr (Color c))"

definition toThickness :: "u8 \<Rightarrow> Thickness expected" where
  "toThickness t =
     (if thickness_code Thick < t then Inl (invalidParams ''invalid thickness'') else Inr (Thickness t))"

definition fromCorePoint :: "Point \<Rightarrow> PointDto" where
  "fromCorePoint p = \<lparr>dto_x = pt_x p, dto_y = pt_y p\<rparr>"

definition toCorePoint :: "PointDto \<Rightarrow> Point" where
  "toCorePoint p = \<lparr>pt_x = dto_x p, pt_y = dto_y p\<rparr>"

definition fromCoreStroke :: "Stroke \<Rightarrow> StrokeDto" where
  "fromCoreStroke s = \<lparr>dto_id = stroke_id s, dto_author = author s,
     dto_color = color_code (color s), dto_thickness = thickness_code (thickness s),
     dto_strokeOrder = strokeOrder s, dto_points = map fromCorePoint (points s),
     dto_finished = finished s\<rparr>"

fun toCoreEvent :: "ClientMessage \<Rightarrow> EventPayload expected option" where
  "toCoreEvent (StrokeBeginRequest room col th start) = Some
     (case toColor col of
        Inl e \<Rightarrow> Inl e
      | Inr c \<Rightarrow> (case toThickness th of
          Inl e \<Rightarrow> Inl e
        | Inr t \<Rightarrow> Inr (StrokeBegin c t (toCorePoint start))))"
| "toCoreEvent (StrokePointRequest room p) = Some (Inr (StrokePoint (toCorePoint p)))"
| "toCoreEvent (StrokeEndRequest room) = Some (Inr StrokeEnd)"
| "toCoreEvent (CursorMoveRequest room p) = Some (Inr (CursorMove (toCorePoint p)))"
| "toCoreEvent (ClearRequest room) = Some (Inr Clear)"
| "toCoreEvent _ = None"

fun errorCodeToString :: "ErrorCode \<Rightarrow> string" where
  "errorCodeToString RoomNotFound = ''room_not_found''"
| "errorCodeToString NotInRoom = ''not_in_room''"
| "errorCodeToString ProtocolViolation = ''protocol_violation''"
| "errorCodeToString InvalidParams = ''invalid_params''"

definition toErrorMessage :: "Error \<Rightarrow> ServerMessage" where
  "toErrorMessage e = ErrorResponse (errorCodeToString (err_code e)) (err_message e)"

definition toSnapshotMessage :: "RoomSnapshot \<Rightarrow> ServerMessage" where
  "toSnapshotMessage snap = SnapshotResponse
     \<lparr>resp_room = snap_room snap, resp_lastSeq = snap_lastSeq snap,
      resp_members = sort (snap_members snap),
      resp_strokes = map fromCoreStroke (strokes (snap_state snap)),
      resp_cursors = sort_key cursor_client
        (map (\<lambda>(c, p). \<lparr>cursor_client = c, cursor_point = fromCorePoint p\<rparr>)
          (cursors (snap_state snap)))\<rparr>"

definition toServerMessage :: "OutgoingEvent \<Rightarrow> ServerMessage" where
  "toServerMessage ev =
     (case ev_payload ev of
        StrokeBeginOut a sid ord col th start \<Rightarrow>
          StrokeBeginEvent (ev_room ev) (ev_seq ev) a sid ord (color_code col) (thickness_code th)
            (fromCorePoint start)
      | StrokePointOut a sid p \<Rightarrow> StrokePointEvent (ev_room ev) (ev_seq ev) a sid (fromCorePoint p)
      | StrokeEndOut a sid \<Rightarrow> StrokeEndEvent (ev_room ev) (ev_seq ev) a sid
      | CursorMoveOut a p \<Rightarrow> CursorMoveEvent (ev_room ev) (ev_seq ev) a (fromCorePoint p)
      | ClearOut a \<Rightarrow> ClearEvent (ev_room ev) (ev_seq ev) a
      | MemberLeftOut c \<Rightarrow> MemberLeftEvent (ev_room ev) (ev_seq ev) c)"


subsection \<open>Reading the wire back\<close>

text \<open>What a client recovers from an event message and from a snapshot message.\<close>

fun readEvent :: "ServerMessage \<Rightarrow> (RoomId \<times> Seq \<times> ServerEventPayload) option" where
  "readEvent (StrokeBeginEvent room seq a sid ord col th start) =
     Some (room, seq, StrokeBeginOut a sid ord (Color col) (Thickness th) (toCorePoint start))"
| "readEvent (StrokePointEvent room seq a sid p) = Some (room, seq, StrokePointOut a sid (toCorePoint p))"
| "readEvent (StrokeEndEvent room seq a sid) = Some (room, seq, StrokeEndOut a sid)"
| "readEvent (CursorMoveEvent room seq a p) = Some (room, seq, CursorMoveOut a (toCorePoint p))"
| "readEvent (ClearEvent room seq a) = Some (room, seq, ClearOut a)"
| "readEvent (MemberLeftEvent room seq c) = Some (room, seq, MemberLeftOut c)"
| "readEvent _ = None"

definition toCoreStroke :: "StrokeDto \<Rightarrow> Stroke" where
  "toCoreStroke d = \<lparr>stroke_id = dto_id d, author = dto_author d, color = Color (dto_color d),
     thickness = Thickness (dto_thickness d), strokeOrder = dto_strokeOrder d,
     points = map toCorePoint (dto_points d), finished = dto_finished d\<rparr>"

definition readSnapshot :: "RoomSnapshotResponse \<Rightarrow> View" where
  "readSnapshot resp = \<lparr>view_strokes = map toCoreStroke (resp_strokes resp),
     view_cursors = map_of (map (\<lambda>d. (cursor_client d, toCorePoint (cursor_point d))) (resp_cursors resp))\<rparr>"

lemma toCorePoint_from [simp]: "toCorePoint (fromCorePoint p) = p"
  by (simp add: toCorePoint_def fromCorePoint_def)

lemma toCoreStroke_from [simp]: "toCoreStroke (fromCoreStroke s) = s"
  by (simp add: toCoreStroke_def fromCoreStroke_def comp_def)

lemma readEvent_toServerMessage:
  "readEvent (toServerMessage ev) = Some (ev_room ev, ev_seq ev, ev_payload ev)"
  by (simp add: toServerMessage_def split: ServerEventPayload.split)

lemma map_of_sort_key:
  assumes "distinct (map fst (map f xs))"
  shows "map_of (map f (sort_key k xs)) = map_of (map f xs)"
proof -
  have "distinct (map (\<lambda>x. fst (f x)) (sort_key k xs))"
    using assms by (simp add: distinct_map comp_def)
  with assms show ?thesis
    by (subst map_of_inject_set) (simp_all add: comp_def)
qed

lemma sort_key_strict:
  "distinct (map k xs) \<Longrightarrow> sorted_wrt (<) (map k (sort_key k xs))"
  by (simp add: strict_sorted_iff distinct_map)

text \<open>
  Nothing of an event is lost on the wire: from the message that \<^verbatim>\<open>toServerMessage\<close> builds a
  client recovers the room, the sequence number and the complete payload.
\<close>

theorem event_wire_roundtrip:
  "readEvent (toServerMessage ev) = Some (ev_room ev, ev_seq ev, ev_payload ev)"
  by (rule readEvent_toServerMessage)

lemma snapshot_message_view:
  assumes inv: "room_inv r" and j: "join r c = (Inr snap, r')"
    and resp: "toSnapshotMessage snap = SnapshotResponse resp"
  shows "readSnapshot resp = board_view (board r') \<and>
    resp_room resp = room_id r \<and> resp_lastSeq resp = lastSeq r' \<and>
    sorted_wrt (<) (resp_members resp) \<and> set (resp_members resp) = insert c (set (members r)) \<and>
    sorted_wrt (<) (map cursor_client (resp_cursors resp))"
proof -
  let ?dto = "\<lambda>(c, p). \<lparr>cursor_client = c, cursor_point = fromCorePoint p\<rparr>"
  have snap: "snap_state snap = board r'" "snap_members snap = members r'" "snap_room snap = room_id r"
      "snap_lastSeq snap = lastSeq r'" "set (members r') = insert c (set (members r))"
    using j by (auto simp: join_def Let_def lastSeq_def)
  have r': "room_inv r'" using join_inv[OF inv, of c] j by simp
  have dist: "distinct (map cursor_client (map ?dto (cursors (board r'))))"
    using room_invD(2)[OF r'] by (simp add: comp_def split_beta)
  have eq: "map (\<lambda>d. (cursor_client d, toCorePoint (cursor_point d))) (map ?dto (cursors (board r'))) =
      cursors (board r')"
    by (simp add: comp_def split_beta)
  have cur: "map_of (map (\<lambda>d. (cursor_client d, toCorePoint (cursor_point d)))
      (sort_key cursor_client (map ?dto (cursors (board r'))))) = map_of (cursors (board r'))"
    using room_invD(2)[OF r'] by (subst map_of_sort_key) (simp_all only: eq)
  have "map toCoreStroke (map fromCoreStroke (strokes (board r'))) = strokes (board r')"
    by (simp add: comp_def)
  moreover have fields: "resp_cursors resp = sort_key cursor_client (map ?dto (cursors (board r')))"
    "resp_strokes resp = map fromCoreStroke (strokes (board r'))" "resp_members resp = sort (members r')"
    "resp_room resp = room_id r" "resp_lastSeq resp = lastSeq r'"
    using resp snap by (auto simp: toSnapshotMessage_def)
  ultimately have "readSnapshot resp = board_view (board r')"
    using cur by (simp only: readSnapshot_def board_view_def)
  moreover have "sorted_wrt (<) (map cursor_client (resp_cursors resp))"
    unfolding fields(1) by (rule sort_key_strict[OF dist])
  moreover have "sorted_wrt (<) (resp_members resp)"
    using room_invD(1)[OF r'] by (simp add: fields(3) strict_sorted_iff)
  ultimately show ?thesis using fields snap(5) by simp
qed

text \<open>
  C32: The snapshot message a joining client is sent shows the board of the room: its strokes, in
  drawing order and with all their points, and every cursor; the members are listed in increasing
  order without repetition, the joining client among them, and the cursors in strictly increasing
  order of their clients.
\<close>

theorem snapshot_wire_faithful:
  assumes inv: "room_inv r" and j: "join r c = (Inr snap, r')"
    and resp: "toSnapshotMessage snap = SnapshotResponse resp"
  shows "readSnapshot resp = board_view (board r') \<and>
    resp_room resp = room_id r \<and> resp_lastSeq resp = lastSeq r' \<and>
    sorted_wrt (<) (resp_members resp) \<and> set (resp_members resp) = insert c (set (members r)) \<and>
    sorted_wrt (<) (map cursor_client (resp_cursors resp))"
  by (rule snapshot_message_view[OF assms])

theorem snapshot_wire_faithful_witness:
  "\<exists>resp. toSnapshotMessage (case fst (join (snd (join (new_room 9) 2)) 1) of Inr s \<Rightarrow> s) =
      SnapshotResponse resp \<and> resp_members resp = [1, 2] \<and>
    readSnapshot resp = \<lparr>view_strokes = [], view_cursors = Map.empty\<rparr>"
proof -
  let ?r = "snd (join (new_room 9) 2)"
  obtain snap r' where j: "join ?r 1 = (Inr snap, r')" "board r' = \<lparr>strokes = [], cursors = []\<rparr>"
      "snap_members snap = [1, 2]"
    by (simp add: join_def new_room_def Let_def)
  obtain resp where resp: "toSnapshotMessage snap = SnapshotResponse resp" "resp_members resp = [1, 2]"
    using j(3) by (simp add: toSnapshotMessage_def)
  from snapshot_wire_faithful[OF join_inv[OF new_room_inv] j(1) resp(1)] resp j show ?thesis
    by (simp add: board_view_def)
qed

text \<open>
  Only drawable colours and thicknesses enter a room: a stroke request is translated exactly
  when its colour byte is at most 3 and its thickness byte at most 2, and is refused with
  \<^verbatim>\<open>InvalidParams\<close> otherwise, the colour being checked first.
\<close>

theorem stroke_request_validation:
  "toCoreEvent (StrokeBeginRequest room col th start) =
     Some (if 3 < col then Inl (invalidParams ''invalid color'')
           else if 2 < th then Inl (invalidParams ''invalid thickness'')
           else Inr (StrokeBegin (Color col) (Thickness th) (toCorePoint start)))"
  by (simp add: toColor_def toThickness_def Blue_def Thick_def)

text \<open>
  The four error codes have four different wire names, so that a client can tell from an error
  message which kind of error occurred, and the text of the error is passed on unchanged.
\<close>

theorem error_wire_injective:
  "toErrorMessage e = toErrorMessage e' \<longleftrightarrow> err_code e = err_code e' \<and> err_message e = err_message e'"
  by (cases "err_code e"; cases "err_code e'") (auto simp: toErrorMessage_def)

end
