(* ===== verification/CS_Json.thy ===== *)
theory CS_Json
  imports CS_Messages "HOL-Library.Countable"
begin

text \<open>
  The line protocol: \<^verbatim>\<open>transport/src/json_protocol.cpp\<close>. The library \<^verbatim>\<open>nlohmann::json\<close> is a parameter,
  the record \<open>JsonLib\<close> of the functions the source calls: \<open>js_find\<close> is \<^verbatim>\<open>contains\<close> (is it \<open>Some\<close>?) and
  \<^verbatim>\<open>at\<close> (the value), \<open>js_get_u64\<close>, \<open>js_get_u32\<close>, \<open>js_get_float\<close> and \<open>js_get_string\<close> are the instances
  of \<^verbatim>\<open>get\<close> in use, and the rest build values. \<^verbatim>\<open>parse\<close>, \<^verbatim>\<open>get\<close> and \<^verbatim>\<open>dump\<close> may throw (\<open>Inl\<close>);
  \<^verbatim>\<open>dump\<close> does so on strings that are not UTF-8. \<open>json_laws\<close> collects what the library's
  documentation promises of them.
\<close>

record 'j JsonLib =
  js_parse :: "string \<Rightarrow> 'j thrown"
  js_dump :: "'j \<Rightarrow> string thrown"
  js_is_object :: "'j \<Rightarrow> bool"
  js_find :: "'j \<Rightarrow> string \<Rightarrow> 'j option"
  js_get_string :: "'j \<Rightarrow> string thrown"
  js_get_u64 :: "'j \<Rightarrow> u64 thrown"
  js_get_u32 :: "'j \<Rightarrow> u32 thrown"
  js_get_float :: "'j \<Rightarrow> float32 thrown"
  js_string :: "string \<Rightarrow> 'j"
  js_u64 :: "u64 \<Rightarrow> 'j"
  js_float :: "float32 \<Rightarrow> 'j"
  js_bool :: "bool \<Rightarrow> 'j"
  js_array :: "'j list \<Rightarrow> 'j"
  js_object :: "(string \<times> 'j) list \<Rightarrow> 'j"

type_synonym 'a parsed = "ProtocolError + 'a"

definition invalidFieldType :: "string \<Rightarrow> ProtocolError" where
  "invalidFieldType key = perr_invalidFieldType (''invalid field type: '' @ key)"

text \<open>\<open>get\<close> stands for the instance of \<^verbatim>\<open>get<T>\<close>.\<close>

definition getRequired :: "'j JsonLib \<Rightarrow> ('j \<Rightarrow> 'a thrown) \<Rightarrow> 'j \<Rightarrow> string \<Rightarrow> 'a parsed" where
  "getRequired lib get obj key =
     (case js_find lib obj key of
        None \<Rightarrow> Inl (perr_missingField (''missing field: '' @ key))
      | Some j \<Rightarrow> (case get j of Inl _ \<Rightarrow> Inl (invalidFieldType key) | Inr v \<Rightarrow> Inr v))"

definition getRequiredPoint :: "'j JsonLib \<Rightarrow> 'j \<Rightarrow> string \<Rightarrow> PointDto parsed" where
  "getRequiredPoint lib obj key =
     (case js_find lib obj key of
        None \<Rightarrow> Inl (perr_missingField (''missing field: '' @ key))
      | Some pointObject \<Rightarrow>
          if \<not> js_is_object lib pointObject then Inl (invalidFieldType key)
          else and_then (getRequired lib (js_get_float lib) pointObject ''x'') (\<lambda>px.
               and_then (getRequired lib (js_get_float lib) pointObject ''y'') (\<lambda>py.
               Inr \<lparr>dto_x = px, dto_y = py\<rparr>)))"

definition makePointJson :: "'j JsonLib \<Rightarrow> PointDto \<Rightarrow> 'j" where
  "makePointJson lib p = js_object lib [(''x'', js_float lib (dto_x p)), (''y'', js_float lib (dto_y p))]"

definition makeStrokeJson :: "'j JsonLib \<Rightarrow> StrokeDto \<Rightarrow> 'j" where
  "makeStrokeJson lib s = js_object lib
     [(''id'', js_u64 lib (dto_id s)), (''author'', js_u64 lib (dto_author s)),
      (''color'', js_u64 lib (ucast (dto_color s))), (''thickness'', js_u64 lib (ucast (dto_thickness s))),
      (''stroke_order'', js_u64 lib (dto_strokeOrder s)),
      (''points'', js_array lib (map (makePointJson lib) (dto_points s))),
      (''finished'', js_bool lib (dto_finished s))]"

definition makeCursorJson :: "'j JsonLib \<Rightarrow> CursorDto \<Rightarrow> 'j" where
  "makeCursorJson lib c = js_object lib
     [(''client'', js_u64 lib (cursor_client c)), (''point'', makePointJson lib (cursor_point c))]"

definition parseClientMessage :: "'j JsonLib \<Rightarrow> string \<Rightarrow> ClientMessage parsed" where
  "parseClientMessage lib line =
     (case js_parse lib line of
        Inl what \<Rightarrow> Inl (perr_invalidJson what)
      | Inr obj \<Rightarrow>
          if \<not> js_is_object lib obj then Inl (perr_invalidJson ''root json value must be an object'')
          else and_then (getRequired lib (js_get_string lib) obj ''type'') (\<lambda>type.
            if type = ''ping'' then Inr PingRequest
            else if type = ''create_room'' then Inr CreateRoomRequest
            else if type = ''join_room'' then
              and_then (getRequired lib (js_get_u64 lib) obj ''room'') (\<lambda>room. Inr (JoinRoomRequest room))
            else if type = ''leave_room'' then
              and_then (getRequired lib (js_get_u64 lib) obj ''room'') (\<lambda>room. Inr (LeaveRoomRequest room))
            else if type = ''stroke_begin'' then
              and_then (getRequired lib (js_get_u64 lib) obj ''room'') (\<lambda>room.
              and_then (getRequired lib (js_get_u32 lib) obj ''color'') (\<lambda>color.
              and_then (getRequired lib (js_get_u32 lib) obj ''thickness'') (\<lambda>thickness.
              and_then (getRequiredPoint lib obj ''start'') (\<lambda>start.
                if 255 < color \<or> 255 < thickness
                then Inl (perr_invalidFieldType ''color or thickness is out of range'')
                else Inr (StrokeBeginRequest room (ucast color) (ucast thickness) start)))))
            else if type = ''stroke_point'' then
              and_then (getRequired lib (js_get_u64 lib) obj ''room'') (\<lambda>room.
              and_then (getRequiredPoint lib obj ''point'') (\<lambda>point.
                Inr (StrokePointRequest room point)))
            else if type = ''stroke_end'' then
              and_then (getRequired lib (js_get_u64 lib) obj ''room'') (\<lambda>room. Inr (StrokeEndRequest room))
            else if type = ''cursor_move'' then
              and_then (getRequired lib (js_get_u64 lib) obj ''room'') (\<lambda>room.
              and_then (getRequiredPoint lib obj ''point'') (\<lambda>point.
                Inr (CursorMoveRequest room point)))
            else if type = ''clear'' then
              and_then (getRequired lib (js_get_u64 lib) obj ''room'') (\<lambda>room. Inr (ClearRequest room))
            else Inl (perr_unknownMessageType (''unknown message type: '' @ type))))"

text \<open>The fields of the object \<^verbatim>\<open>serializeServerMessage\<close> builds, in the order of the source.\<close>

fun messageFields :: "'j JsonLib \<Rightarrow> ServerMessage \<Rightarrow> (string \<times> 'j) list" where
  "messageFields lib PongResponse = [(''type'', js_string lib ''pong'')]"
| "messageFields lib (RoomCreatedResponse room) =
     [(''type'', js_string lib ''room_created''), (''room'', js_u64 lib room)]"
| "messageFields lib (OkResponse request room) =
     [(''type'', js_string lib ''ok''), (''request'', js_string lib request), (''room'', js_u64 lib room)]"
| "messageFields lib (ErrorResponse code message) =
     [(''type'', js_string lib ''error''), (''code'', js_string lib code), (''message'', js_string lib message)]"
| "messageFields lib (SnapshotResponse p) =
     [(''type'', js_string lib ''room_snapshot''), (''room'', js_u64 lib (resp_room p)),
      (''last_seq'', js_u64 lib (resp_lastSeq p)),
      (''members'', js_array lib (map (js_u64 lib) (resp_members p))),
      (''strokes'', js_array lib (map (makeStrokeJson lib) (resp_strokes p))),
      (''cursors'', js_array lib (map (makeCursorJson lib) (resp_cursors p)))]"
| "messageFields lib (StrokeBeginEvent room seq a sid ord col th start) =
     [(''type'', js_string lib ''stroke_begin''), (''room'', js_u64 lib room), (''seq'', js_u64 lib seq),
      (''author'', js_u64 lib a), (''id'', js_u64 lib sid), (''stroke_order'', js_u64 lib ord),
      (''color'', js_u64 lib (ucast col)), (''thickness'', js_u64 lib (ucast th)),
      (''start'', makePointJson lib start)]"
| "messageFields lib (StrokePointEvent room seq a sid point) =
     [(''type'', js_string lib ''stroke_point''), (''room'', js_u64 lib room), (''seq'', js_u64 lib seq),
      (''author'', js_u64 lib a), (''id'', js_u64 lib sid), (''point'', makePointJson lib point)]"
| "messageFields lib (StrokeEndEvent room seq a sid) =
     [(''type'', js_string lib ''stroke_end''), (''room'', js_u64 lib room), (''seq'', js_u64 lib seq),
      (''author'', js_u64 lib a), (''id'', js_u64 lib sid)]"
| "messageFields lib (CursorMoveEvent room seq a point) =
     [(''type'', js_string lib ''cursor_move''), (''room'', js_u64 lib room), (''seq'', js_u64 lib seq),
      (''author'', js_u64 lib a), (''point'', makePointJson lib point)]"
| "messageFields lib (ClearEvent room seq a) =
     [(''type'', js_string lib ''clear''), (''room'', js_u64 lib room), (''seq'', js_u64 lib seq),
      (''author'', js_u64 lib a)]"
| "messageFields lib (MemberLeftEvent room seq client) =
     [(''type'', js_string lib ''member_left''), (''room'', js_u64 lib room), (''seq'', js_u64 lib seq),
      (''client'', js_u64 lib client)]"

definition serializeServerMessage :: "'j JsonLib \<Rightarrow> ServerMessage \<Rightarrow> string thrown" where
  "serializeServerMessage lib msg = js_dump lib (js_object lib (messageFields lib msg))"

subsection \<open>The documented behaviour of the library\<close>

text \<open>
  \<open>pr\<close> holds of the values that \<^verbatim>\<open>dump\<close> prints and \<^verbatim>\<open>parse\<close> reads back: numbers, finite floats,
  UTF-8 strings (ASCII ones at least), and arrays and objects of such values. \<^verbatim>\<open>dump\<close> prints on one line.
  \<^verbatim>\<open>get<unsigned int>\<close> converts an unsigned number as \<^verbatim>\<open>static_cast\<close> does.
\<close>

definition ascii :: "string \<Rightarrow> bool" where
  "ascii s \<longleftrightarrow> (\<forall>c\<in>set s. of_char c < (128 :: nat))"

definition finite_float :: "float32 \<Rightarrow> bool" where
  "finite_float b \<longleftrightarrow> take_bit 8 (drop_bit 23 b) \<noteq> 255"

definition json_laws :: "'j JsonLib \<Rightarrow> ('j \<Rightarrow> bool) \<Rightarrow> bool" where
  "json_laws lib pr \<longleftrightarrow>
     (\<forall>kvs. js_is_object lib (js_object lib kvs)) \<and>
     (\<forall>kvs k. distinct (map fst kvs) \<longrightarrow> js_find lib (js_object lib kvs) k = map_of kvs k) \<and>
     (\<forall>s. js_get_string lib (js_string lib s) = Inr s) \<and>
     (\<forall>n. js_get_u64 lib (js_u64 lib n) = Inr n) \<and>
     (\<forall>n. js_get_u32 lib (js_u64 lib n) = Inr (ucast n)) \<and>
     (\<forall>b. finite_float b \<longrightarrow> js_get_float lib (js_float lib b) = Inr b) \<and>
     inj (js_bool lib) \<and> inj (js_array lib) \<and>
     (\<forall>kvs. (\<forall>(k, v)\<in>set kvs. ascii k \<and> pr v) \<longrightarrow> pr (js_object lib kvs)) \<and>
     (\<forall>js. (\<forall>j\<in>set js. pr j) \<longrightarrow> pr (js_array lib js)) \<and>
     (\<forall>s. ascii s \<longrightarrow> pr (js_string lib s)) \<and> (\<forall>n. pr (js_u64 lib n)) \<and> (\<forall>b. pr (js_bool lib b)) \<and>
     (\<forall>b. finite_float b \<longrightarrow> pr (js_float lib b)) \<and>
     (\<forall>j. pr j \<longrightarrow> (\<exists>s. js_dump lib j = Inr s \<and> js_parse lib s = Inr j \<and> CHR 0x0A \<notin> set s))"


lemma json_lawsD:
  assumes "json_laws lib pr"
  shows "\<And>kvs. js_is_object lib (js_object lib kvs)"
    "\<And>kvs k. distinct (map fst kvs) \<Longrightarrow> js_find lib (js_object lib kvs) k = map_of kvs k"
    "\<And>s. js_get_string lib (js_string lib s) = Inr s"
    "\<And>n. js_get_u64 lib (js_u64 lib n) = Inr n"
    "\<And>n. js_get_u32 lib (js_u64 lib n) = Inr (ucast n)"
    "\<And>b. finite_float b \<Longrightarrow> js_get_float lib (js_float lib b) = Inr b"
  using assms by (simp_all add: json_laws_def)

lemma json_printD:
  assumes "json_laws lib pr"
  shows "\<And>kvs. (\<And>k v. (k, v) \<in> set kvs \<Longrightarrow> ascii k \<and> pr v) \<Longrightarrow> pr (js_object lib kvs)"
    "\<And>js. (\<And>j. j \<in> set js \<Longrightarrow> pr j) \<Longrightarrow> pr (js_array lib js)"
    "\<And>s. ascii s \<Longrightarrow> pr (js_string lib s)" "\<And>n. pr (js_u64 lib n)" "\<And>b. pr (js_bool lib b)"
    "\<And>b. finite_float b \<Longrightarrow> pr (js_float lib b)"
    "\<And>j. pr j \<Longrightarrow> \<exists>s. js_dump lib j = Inr s \<and> js_parse lib s = Inr j \<and> CHR 0x0A \<notin> set s"
  using assms unfolding json_laws_def by blast+

lemma json_inj:
  assumes "json_laws lib pr"
  shows "js_string lib s = js_string lib s' \<longleftrightarrow> s = s'" "js_u64 lib n = js_u64 lib n' \<longleftrightarrow> n = n'"
    "finite_float b \<Longrightarrow> finite_float b' \<Longrightarrow> js_float lib b = js_float lib b' \<longleftrightarrow> b = b'" "js_bool lib c = js_bool lib c' \<longleftrightarrow> c = c'"
    "js_array lib js = js_array lib js' \<longleftrightarrow> js = js'"
  using assms by (metis json_lawsD(3) sum.inject(2), metis json_lawsD(4) sum.inject(2),
    metis json_lawsD(6) sum.inject(2), auto simp: json_laws_def inj_eq)

lemma unat_u8: "unat (c :: u8) < 256"
proof -
  have "unat c < 2 ^ LENGTH(8)" by (rule unsigned_less)
  then show ?thesis by simp
qed

lemma ucast_u8:
  "ucast (ucast (c :: u8) :: u64) = (ucast c :: u32)" "\<not> 255 < (ucast (c :: u8) :: u32)"
  "ucast (ucast (c :: u8) :: u32) = c" "(ucast (c :: u8) :: u64) = ucast d \<longleftrightarrow> c = d"
proof -
  show "ucast (ucast (c :: u8) :: u64) = (ucast c :: u32)"
    by (rule bit_word_eqI) (auto simp: bit_ucast_iff)
  show "ucast (ucast (c :: u8) :: u32) = c"
    by (rule bit_word_eqI) (auto simp: bit_ucast_iff)
  have down: "ucast (ucast (e :: u8) :: u64) = e" for e
    by (rule bit_word_eqI) (auto simp: bit_ucast_iff)
  show "(ucast c :: u64) = ucast d \<longleftrightarrow> c = d" by (metis down)
  have "unat (ucast c :: u32) = unat c"
    using unat_u8[of c] by (simp add: unsigned_ucast_eq take_bit_nat_eq_self)
  then show "\<not> 255 < (ucast (c :: u8) :: u32)"
    using unat_u8[of c] by (simp add: word_less_nat_alt)
qed

subsection \<open>Requests\<close>

text \<open>The JSON object of each request, with the fields that \<^verbatim>\<open>parseClientMessage\<close> reads.\<close>

fun requestFields :: "'j JsonLib \<Rightarrow> ClientMessage \<Rightarrow> (string \<times> 'j) list" where
  "requestFields lib PingRequest = [(''type'', js_string lib ''ping'')]"
| "requestFields lib CreateRoomRequest = [(''type'', js_string lib ''create_room'')]"
| "requestFields lib (JoinRoomRequest room) =
     [(''type'', js_string lib ''join_room''), (''room'', js_u64 lib room)]"
| "requestFields lib (LeaveRoomRequest room) =
     [(''type'', js_string lib ''leave_room''), (''room'', js_u64 lib room)]"
| "requestFields lib (StrokeBeginRequest room col th start) =
     [(''type'', js_string lib ''stroke_begin''), (''room'', js_u64 lib room),
      (''color'', js_u64 lib (ucast col)), (''thickness'', js_u64 lib (ucast th)),
      (''start'', makePointJson lib start)]"
| "requestFields lib (StrokePointRequest room point) =
     [(''type'', js_string lib ''stroke_point''), (''room'', js_u64 lib room), (''point'', makePointJson lib point)]"
| "requestFields lib (StrokeEndRequest room) =
     [(''type'', js_string lib ''stroke_end''), (''room'', js_u64 lib room)]"
| "requestFields lib (CursorMoveRequest room point) =
     [(''type'', js_string lib ''cursor_move''), (''room'', js_u64 lib room), (''point'', makePointJson lib point)]"
| "requestFields lib (ClearRequest room) =
     [(''type'', js_string lib ''clear''), (''room'', js_u64 lib room)]"

definition finite_point :: "PointDto \<Rightarrow> bool" where
  "finite_point p \<longleftrightarrow> finite_float (dto_x p) \<and> finite_float (dto_y p)"

fun finite_request :: "ClientMessage \<Rightarrow> bool" where
  "finite_request (StrokeBeginRequest _ _ _ p) = finite_point p"
| "finite_request (StrokePointRequest _ p) = finite_point p"
| "finite_request (CursorMoveRequest _ p) = finite_point p"
| "finite_request _ = True"

lemma getRequired_object:
  assumes "json_laws lib pr" "distinct (map fst kvs)"
  shows "getRequired lib get (js_object lib kvs) key =
    (case map_of kvs key of
       None \<Rightarrow> Inl (perr_missingField (''missing field: '' @ key))
     | Some j \<Rightarrow> (case get j of Inl _ \<Rightarrow> Inl (invalidFieldType key) | Inr v \<Rightarrow> Inr v))"
  by (simp add: getRequired_def json_lawsD(2)[OF assms])

lemma getRequiredPoint_object:
  assumes "json_laws lib pr" "distinct (map fst kvs)" "map_of kvs key = Some (makePointJson lib p)" "finite_point p"
  shows "getRequiredPoint lib (js_object lib kvs) key = Inr p"
  using json_lawsD[OF assms(1)] assms(2-4)
  by (simp add: finite_point_def getRequiredPoint_def makePointJson_def getRequired_def)

lemma point_printable: "json_laws lib pr \<Longrightarrow> finite_point p \<Longrightarrow> pr (makePointJson lib p)"
  unfolding makePointJson_def
  by (rule json_printD(1)) (auto simp: ascii_def finite_point_def intro: json_printD(6))

lemma request_printable:
  assumes "json_laws lib pr" "finite_request msg"
  shows "pr (js_object lib (requestFields lib msg))"
  by (rule json_printD(1)[OF assms(1)], use assms(2) in \<open>cases msg\<close>)
    (auto simp: ascii_def intro: json_printD(3,4)[OF assms(1)] point_printable[OF assms(1)])

lemma parse_request:
  assumes "json_laws lib pr" "finite_request msg" "js_parse lib line = Inr (js_object lib (requestFields lib msg))"
  shows "parseClientMessage lib line = Inr msg"
  using assms(2,3) json_lawsD[OF assms(1)]
  by (cases msg) (simp_all add: parseClientMessage_def getRequired_object[OF assms(1)]
      getRequiredPoint_object[OF assms(1)] ucast_u8)

text \<open>
  C20: Every request can be sent: the request object of any client message with finite coordinates
  prints as a single line without a newline, and parsing this line gives back exactly the message.
\<close>

theorem request_roundtrip:
  assumes "json_laws lib pr" "finite_request msg"
  shows "\<exists>line. js_dump lib (js_object lib (requestFields lib msg)) = Inr line \<and> CHR 0x0A \<notin> set line \<and>
    parseClientMessage lib line = Inr msg"
  using json_printD(7)[OF assms(1) request_printable[OF assms]] parse_request[OF assms] by blast


subsection \<open>Which lines are accepted\<close>

definition has_field :: "'j JsonLib \<Rightarrow> ('j \<Rightarrow> 'a thrown) \<Rightarrow> 'j \<Rightarrow> string \<Rightarrow> 'a \<Rightarrow> bool" where
  "has_field lib get obj key v \<longleftrightarrow> (\<exists>j. js_find lib obj key = Some j \<and> get j = Inr v)"

definition has_point :: "'j JsonLib \<Rightarrow> 'j \<Rightarrow> string \<Rightarrow> PointDto \<Rightarrow> bool" where
  "has_point lib obj key p \<longleftrightarrow> (\<exists>j. js_find lib obj key = Some j \<and> js_is_object lib j \<and>
     has_field lib (js_get_float lib) j ''x'' (dto_x p) \<and> has_field lib (js_get_float lib) j ''y'' (dto_y p))"

fun request_type :: "ClientMessage \<Rightarrow> string" where
  "request_type PingRequest = ''ping''"
| "request_type CreateRoomRequest = ''create_room''"
| "request_type (JoinRoomRequest _) = ''join_room''"
| "request_type (LeaveRoomRequest _) = ''leave_room''"
| "request_type (StrokeBeginRequest _ _ _ _) = ''stroke_begin''"
| "request_type (StrokePointRequest _ _) = ''stroke_point''"
| "request_type (StrokeEndRequest _) = ''stroke_end''"
| "request_type (CursorMoveRequest _ _) = ''cursor_move''"
| "request_type (ClearRequest _) = ''clear''"

fun request_room :: "ClientMessage \<Rightarrow> RoomId option" where
  "request_room PingRequest = None"
| "request_room CreateRoomRequest = None"
| "request_room (JoinRoomRequest room) = Some room"
| "request_room (LeaveRoomRequest room) = Some room"
| "request_room (StrokeBeginRequest room _ _ _) = Some room"
| "request_room (StrokePointRequest room _) = Some room"
| "request_room (StrokeEndRequest room) = Some room"
| "request_room (CursorMoveRequest room _) = Some room"
| "request_room (ClearRequest room) = Some room"

fun request_args :: "'j JsonLib \<Rightarrow> 'j \<Rightarrow> ClientMessage \<Rightarrow> bool" where
  "request_args lib obj (StrokeBeginRequest _ col th start) \<longleftrightarrow>
     has_field lib (js_get_u32 lib) obj ''color'' (ucast col) \<and>
     has_field lib (js_get_u32 lib) obj ''thickness'' (ucast th) \<and> has_point lib obj ''start'' start"
| "request_args lib obj (StrokePointRequest _ p) \<longleftrightarrow> has_point lib obj ''point'' p"
| "request_args lib obj (CursorMoveRequest _ p) \<longleftrightarrow> has_point lib obj ''point'' p"
| "request_args lib obj _ \<longleftrightarrow> True"

lemma getRequired_Inr: "getRequired lib get obj key = Inr v \<longleftrightarrow> has_field lib get obj key v"
  by (auto simp: getRequired_def has_field_def split: option.splits sum.splits)

lemma getRequiredPoint_Inr: "getRequiredPoint lib obj key = Inr p \<longleftrightarrow> has_point lib obj key p"
  by (cases p) (auto simp: getRequiredPoint_def has_point_def getRequired_Inr expected_simps split: option.splits)

lemma u32_byte:
  assumes "\<not> 255 < (w :: u32)"
  shows "ucast (ucast w :: u8) = w"
proof (rule unsigned_word_eqI)
  have "unat w < 256" using assms by (simp add: word_less_nat_alt)
  then show "unat (ucast (ucast w :: u8) :: u32) = unat w"
    by (simp add: unsigned_ucast_eq unsigned_take_bit_eq take_bit_nat_eq_self)
qed

definition request_matches :: "'j JsonLib \<Rightarrow> 'j \<Rightarrow> ClientMessage \<Rightarrow> bool" where
  "request_matches lib obj msg \<longleftrightarrow>
     has_field lib (js_get_string lib) obj ''type'' (request_type msg) \<and>
     (\<forall>room. request_room msg = Some room \<longrightarrow> has_field lib (js_get_u64 lib) obj ''room'' room) \<and>
     request_args lib obj msg"

lemma matches_parse:
  assumes "js_parse lib line = Inr obj" "js_is_object lib obj" "request_matches lib obj msg"
  shows "parseClientMessage lib line = Inr msg"
proof -
  have "getRequired lib (js_get_string lib) obj ''type'' = Inr (request_type msg)"
    "\<forall>room. request_room msg = Some room \<longrightarrow> getRequired lib (js_get_u64 lib) obj ''room'' = Inr room"
    "request_args lib obj msg"
    using assms(3) by (simp_all add: request_matches_def getRequired_Inr)
  then show ?thesis
    using assms(1,2)
    by (cases msg) (simp_all add: parseClientMessage_def ucast_u8 flip: getRequired_Inr getRequiredPoint_Inr)
qed

lemma parse_matches:
  assumes "parseClientMessage lib line = Inr msg"
  shows "\<exists>obj. js_parse lib line = Inr obj \<and> js_is_object lib obj \<and> request_matches lib obj msg"
proof (cases "js_parse lib line")
  case (Inr obj)
  then obtain t where t: "js_is_object lib obj" "has_field lib (js_get_string lib) obj ''type'' t"
    using assms by (auto simp: parseClientMessage_def expected_simps getRequired_Inr split: if_splits)
  then have "request_type msg = t \<and> (\<forall>room. request_room msg = Some room \<longrightarrow>
      has_field lib (js_get_u64 lib) obj ''room'' room) \<and> request_args lib obj msg"
    using assms Inr t(2)[folded getRequired_Inr]
    by (simp add: parseClientMessage_def expected_simps split: if_splits)
      (auto simp: getRequired_Inr getRequiredPoint_Inr u32_byte)
  then show ?thesis using Inr t by (auto simp: request_matches_def)
qed (use assms in \<open>simp add: parseClientMessage_def\<close>)

text \<open>
  C22: Exactly the well-formed requests are accepted: a line is parsed to a message if and only if it
  is a JSON object whose \<^verbatim>\<open>type\<close> is the name of that message and whose fields convert to the
  message's room, point, and color and thickness, the latter two within a byte.
\<close>

theorem accepted_lines:
  "parseClientMessage lib line = Inr msg \<longleftrightarrow>
     (\<exists>obj. js_parse lib line = Inr obj \<and> js_is_object lib obj \<and> request_matches lib obj msg)"
proof
  assume "parseClientMessage lib line = Inr msg"
  then show "\<exists>obj. js_parse lib line = Inr obj \<and> js_is_object lib obj \<and> request_matches lib obj msg"
    by (rule parse_matches)
next
  assume "\<exists>obj. js_parse lib line = Inr obj \<and> js_is_object lib obj \<and> request_matches lib obj msg"
  then show "parseClientMessage lib line = Inr msg" by (elim exE conjE) (rule matches_parse)
qed

subsection \<open>Why a line is refused\<close>

text \<open>
  The fields a request must have, in the order in which they are looked at, as paths from the root with the kind
  of value each must convert to. \<open>first_bad\<close> is the first of them that is absent or does not convert.
\<close>

datatype FieldKind = FString | FUnsigned64 | FUnsigned32 | FFloat | FObject

fun kind_ok :: "'j JsonLib \<Rightarrow> FieldKind \<Rightarrow> 'j \<Rightarrow> bool" where
  "kind_ok lib FString j \<longleftrightarrow> \<not> isl (js_get_string lib j)"
| "kind_ok lib FUnsigned64 j \<longleftrightarrow> \<not> isl (js_get_u64 lib j)"
| "kind_ok lib FUnsigned32 j \<longleftrightarrow> \<not> isl (js_get_u32 lib j)"
| "kind_ok lib FFloat j \<longleftrightarrow> \<not> isl (js_get_float lib j)"
| "kind_ok lib FObject j \<longleftrightarrow> js_is_object lib j"

fun at_path :: "'j JsonLib \<Rightarrow> 'j \<Rightarrow> string list \<Rightarrow> 'j option" where
  "at_path lib obj [] = Some obj"
| "at_path lib obj (key # path) = (case js_find lib obj key of None \<Rightarrow> None | Some j \<Rightarrow> at_path lib j path)"

definition point_fields :: "string \<Rightarrow> (string list \<times> FieldKind) list" where
  "point_fields key = [([key], FObject), ([key, ''x''], FFloat), ([key, ''y''], FFloat)]"

definition type_fields :: "string \<Rightarrow> (string list \<times> FieldKind) list" where
  "type_fields t =
     (if t \<in> {''join_room'', ''leave_room'', ''stroke_end'', ''clear''} then [([''room''], FUnsigned64)]
      else if t = ''stroke_begin''
      then [([''room''], FUnsigned64), ([''color''], FUnsigned32), ([''thickness''], FUnsigned32)] @ point_fields ''start''
      else if t \<in> {''stroke_point'', ''cursor_move''} then [([''room''], FUnsigned64)] @ point_fields ''point''
      else [])"

definition request_types :: "string set" where
  "request_types = {''ping'', ''create_room'', ''join_room'', ''leave_room'', ''stroke_begin'',
     ''stroke_point'', ''stroke_end'', ''cursor_move'', ''clear''}"

definition bad_field :: "'j JsonLib \<Rightarrow> 'j \<Rightarrow> string list \<times> FieldKind \<Rightarrow> bool" where
  "bad_field lib obj f \<longleftrightarrow> (case at_path lib obj (fst f) of None \<Rightarrow> True | Some j \<Rightarrow> \<not> kind_ok lib (snd f) j)"

definition first_bad :: "'j JsonLib \<Rightarrow> 'j \<Rightarrow> (string list \<times> FieldKind) option" where
  "first_bad lib obj = find (bad_field lib obj) (([''type''], FString) #
     (case js_find lib obj ''type'' of None \<Rightarrow> [] | Some j \<Rightarrow> (case js_get_string lib j of Inl _ \<Rightarrow> [] | Inr t \<Rightarrow> type_fields t)))"

definition field_error :: "'j JsonLib \<Rightarrow> 'j \<Rightarrow> string list \<Rightarrow> ProtocolError" where
  "field_error lib obj path =
     (if at_path lib obj path = None then \<lparr>perr_code = MissingField, perr_message = ''missing field: '' @ last path\<rparr>
      else \<lparr>perr_code = InvalidFieldType, perr_message = ''invalid field type: '' @ last path\<rparr>)"

lemma getRequired_cases:
  assumes "\<And>j. kind_ok lib k j \<longleftrightarrow> \<not> isl (get j)"
  obtains "bad_field lib obj ([key], k)" "getRequired lib get obj key = Inl (field_error lib obj [key])"
  | v where "\<not> bad_field lib obj ([key], k)" "getRequired lib get obj key = Inr v"
proof (cases "js_find lib obj key")
  case None
  then show thesis using that(1)
    by (simp add: bad_field_def getRequired_def field_error_def perr_missingField_def)
next
  case (Some j)
  then show thesis using that assms[of j]
    by (cases "get j") (simp_all add: bad_field_def getRequired_def field_error_def invalidFieldType_def perr_invalidFieldType_def)
qed

lemmas required_cases = getRequired_cases[OF kind_ok.simps(1)] getRequired_cases[OF kind_ok.simps(2)]
  getRequired_cases[OF kind_ok.simps(3)] getRequired_cases[OF kind_ok.simps(4)]

lemma getRequiredPoint_cases:
  obtains path k where "find (bad_field lib obj) (point_fields key) = Some (path, k)"
      "getRequiredPoint lib obj key = Inl (field_error lib obj path)"
  | p where "find (bad_field lib obj) (point_fields key) = None" "getRequiredPoint lib obj key = Inr p"
proof (cases "bad_field lib obj ([key], FObject)")
  case True
  then have "getRequiredPoint lib obj key = Inl (field_error lib obj [key])"
    by (auto simp: getRequiredPoint_def bad_field_def field_error_def perr_missingField_def invalidFieldType_def
        perr_invalidFieldType_def split: option.splits)
  then show thesis using that(1) True by (simp add: point_fields_def)
next
  case False
  then obtain j where j: "js_find lib obj key = Some j" "js_is_object lib j" by (auto simp: bad_field_def split: option.splits)
  then have same: "bad_field lib obj ([key, c], FFloat) = bad_field lib j ([c], FFloat)"
    "field_error lib obj [key, c] = field_error lib j [c]" for c by (simp_all add: bad_field_def field_error_def split: option.split)
  show thesis
  proof (cases rule: required_cases(4)[of lib j "''x''"])
    case 1
    then show thesis using that(1) False j same by (simp add: point_fields_def getRequiredPoint_def)
  next
    case (2 px)
    then show thesis
      by (cases rule: required_cases(4)[of lib j "''y''"]) (use that False j same in \<open>auto simp: point_fields_def getRequiredPoint_def\<close>)
  qed
qed

definition out_of_range :: "'j JsonLib \<Rightarrow> 'j \<Rightarrow> bool" where
  "out_of_range lib obj \<longleftrightarrow> has_field lib (js_get_string lib) obj ''type'' ''stroke_begin'' \<and>
     (\<exists>key\<in>{''color'', ''thickness''}. \<exists>n. has_field lib (js_get_u32 lib) obj key n \<and> 255 < n)"

text \<open>The error that \<^verbatim>\<open>parseClientMessage\<close> answers to an object it refuses.\<close>

definition object_error :: "'j JsonLib \<Rightarrow> 'j \<Rightarrow> ProtocolError \<Rightarrow> bool" where
  "object_error lib obj e \<longleftrightarrow>
     (case first_bad lib obj of
        Some (path, k) \<Rightarrow> e = field_error lib obj path
      | None \<Rightarrow> (\<exists>t. has_field lib (js_get_string lib) obj ''type'' t \<and>
          (if t \<in> request_types then out_of_range lib obj \<and> perr_code e = InvalidFieldType
           else perr_code e = UnknownMessageType)))"

text \<open>An error is explained by the first bad field of a list, or by \<open>R\<close> if there is none.\<close>

definition explained :: "'j JsonLib \<Rightarrow> 'j \<Rightarrow> ProtocolError \<Rightarrow> (string list \<times> FieldKind) list \<Rightarrow> bool \<Rightarrow> bool" where
  "explained lib obj e fs R \<longleftrightarrow> (case find (bad_field lib obj) fs of Some (path, k) \<Rightarrow> e = field_error lib obj path | None \<Rightarrow> R)"

lemma explained_field:
  assumes "\<And>j. kind_ok lib k j \<longleftrightarrow> \<not> isl (get j)" "and_then (getRequired lib get obj key) f = Inl e"
    and "\<And>v. getRequired lib get obj key = Inr v \<Longrightarrow> f v = Inl e \<Longrightarrow> explained lib obj e fs R"
  shows "explained lib obj e (([key], k) # fs) R"
  by (rule getRequired_cases[where lib = lib and k = k and get = get and obj = obj and key = key, OF assms(1)])
    (use assms(2,3) in \<open>auto simp: explained_def\<close>)

lemma explained_point:
  assumes "and_then (getRequiredPoint lib obj key) f = Inl e"
    and "\<And>p. getRequiredPoint lib obj key = Inr p \<Longrightarrow> f p = Inl e \<Longrightarrow> R"
  shows "explained lib obj e (point_fields key) R"
  by (rule getRequiredPoint_cases[of lib obj key]) (use assms in \<open>auto simp: explained_def\<close>)

lemmas explained_intros = explained_field[OF kind_ok.simps(2)] explained_field[OF kind_ok.simps(3)] explained_point

lemma refused_begin:
  assumes "getRequired lib (js_get_string lib) obj ''type'' = Inr ''stroke_begin''"
    and "and_then (getRequired lib (js_get_u64 lib) obj ''room'') (\<lambda>room.
      and_then (getRequired lib (js_get_u32 lib) obj ''color'') (\<lambda>color.
      and_then (getRequired lib (js_get_u32 lib) obj ''thickness'') (\<lambda>thickness.
      and_then (getRequiredPoint lib obj ''start'') (\<lambda>start.
        if 255 < color \<or> 255 < thickness then Inl (perr_invalidFieldType msg) else Inr (g room color thickness start))))) = Inl e"
  shows "explained lib obj e (([''room''], FUnsigned64) # ([''color''], FUnsigned32) # ([''thickness''], FUnsigned32) #
    point_fields ''start'') (out_of_range lib obj \<and> perr_code e = InvalidFieldType)"
proof (rule explained_intros(1)[OF assms(2)], erule explained_intros(2), erule explained_intros(2), erule explained_intros(3), intro conjI)
  fix room color thickness start
  assume c: "getRequired lib (js_get_u32 lib) obj ''color'' = Inr color"
    and t: "getRequired lib (js_get_u32 lib) obj ''thickness'' = Inr thickness"
    and e: "(if 255 < color \<or> 255 < thickness then Inl (perr_invalidFieldType msg) else Inr (g room color thickness start)) = Inl e"
  show "perr_code e = InvalidFieldType" using e by (auto simp: perr_invalidFieldType_def split: if_splits)
  have "255 < color \<or> 255 < thickness" using e by (auto split: if_splits)
  then show "out_of_range lib obj" using assms(1) c t unfolding getRequired_Inr out_of_range_def by blast
qed

lemma has_field_unique: "has_field lib get obj key v \<Longrightarrow> has_field lib get obj key v' \<longleftrightarrow> v' = v"
  by (auto simp: has_field_def)

lemma known_type:
  assumes "has_field lib (js_get_string lib) obj ''type'' t" "first_bad lib obj \<noteq> None"
  shows "t \<in> request_types"
  using assms by (auto simp: first_bad_def has_field_def bad_field_def type_fields_def request_types_def split: if_splits)

lemma refused_object:
  assumes "parseClientMessage lib line = Inl e" "js_parse lib line = Inr obj" "js_is_object lib obj"
  shows "object_error lib obj e"
proof (cases rule: required_cases(1)[of lib obj "''type''"])
  case 1
  then show ?thesis using assms by (simp add: parseClientMessage_def object_error_def first_bad_def)
next
  case (2 t)
  then have t: "has_field lib (js_get_string lib) obj ''type'' t" by (simp flip: getRequired_Inr)
  then have bad: "first_bad lib obj = find (bad_field lib obj) (type_fields t)"
    using 2(1) by (auto simp: first_bad_def has_field_def)
  show ?thesis
  proof (cases "t \<in> request_types")
    case False
    then have "type_fields t = []" by (auto simp: type_fields_def request_types_def)
    moreover have "perr_code e = UnknownMessageType"
      using False[unfolded request_types_def] assms 2(2) by (auto simp: parseClientMessage_def perr_unknownMessageType_def)
    ultimately show ?thesis using t False by (auto simp: object_error_def bad)
  next
    case True
    have room: "explained lib obj e [([''room''], FUnsigned64)] R"
      if "and_then (getRequired lib (js_get_u64 lib) obj ''room'') (\<lambda>room. Inr (g room)) = Inl e" for g R
      using that by (rule explained_intros(1)) simp
    have point: "explained lib obj e (([''room''], FUnsigned64) # point_fields ''point'') R"
      if "and_then (getRequired lib (js_get_u64 lib) obj ''room'') (\<lambda>room.
        and_then (getRequiredPoint lib obj ''point'') (\<lambda>p. Inr (g room p))) = Inl e" for g R
      using that by (rule explained_intros(1)) (erule explained_intros(3), simp)
    have "explained lib obj e (type_fields t) (out_of_range lib obj \<and> perr_code e = InvalidFieldType)"
      using assms 2(2) True[unfolded request_types_def]
      by (elim insertE) (simp_all add: parseClientMessage_def type_fields_def room point refused_begin)
    then show ?thesis using t True by (auto simp: explained_def object_error_def bad split: option.splits)
  qed
qed

text \<open>
  C33: A refused line gets the error of its first defect. \<^verbatim>\<open>InvalidJson\<close> is answered exactly when the line is not a JSON
  object. Otherwise the fields are looked at in the order of \<open>first_bad\<close>, starting with \<^verbatim>\<open>type\<close>: \<^verbatim>\<open>MissingField\<close> with the
  field's name is answered exactly when the first bad one is absent, and \<^verbatim>\<open>InvalidFieldType\<close> exactly when the first bad
  one is there and does not convert (with its name), or all are good but a color or thickness exceeds a byte.
  \<^verbatim>\<open>UnknownMessageType\<close> is answered exactly when \<^verbatim>\<open>type\<close> is a string that names no request, and \<^verbatim>\<open>InvalidMessage\<close> never.
\<close>

theorem refused_lines:
  assumes "parseClientMessage lib line = Inl e"
  shows "(perr_code e = InvalidJson \<longleftrightarrow>
      \<not> (\<exists>obj. js_parse lib line = Inr obj \<and> js_is_object lib obj)) \<and>
    (perr_code e = UnknownMessageType \<longleftrightarrow> (\<exists>obj t. js_parse lib line = Inr obj \<and> js_is_object lib obj \<and>
       has_field lib (js_get_string lib) obj ''type'' t \<and> t \<notin> request_types)) \<and>
    (perr_code e = MissingField \<longleftrightarrow> (\<exists>obj path k. js_parse lib line = Inr obj \<and> js_is_object lib obj \<and>
       first_bad lib obj = Some (path, k) \<and> at_path lib obj path = None \<and>
       perr_message e = ''missing field: '' @ last path)) \<and>
    (perr_code e = InvalidFieldType \<longleftrightarrow> (\<exists>obj. js_parse lib line = Inr obj \<and> js_is_object lib obj \<and>
       ((\<exists>path k j. first_bad lib obj = Some (path, k) \<and> at_path lib obj path = Some j \<and>
           perr_message e = ''invalid field type: '' @ last path) \<or>
        first_bad lib obj = None \<and> out_of_range lib obj))) \<and>
    perr_code e \<noteq> InvalidMessage"
proof (cases "\<exists>obj. js_parse lib line = Inr obj \<and> js_is_object lib obj")
  case False
  then have "perr_code e = InvalidJson"
    using assms by (cases "js_parse lib line") (auto simp: parseClientMessage_def perr_invalidJson_def)
  then show ?thesis using False by auto
next
  case True
  then obtain obj where obj: "js_parse lib line = Inr obj" "js_is_object lib obj" by blast
  show ?thesis
  proof (cases "first_bad lib obj")
    case None
    then obtain t where t: "has_field lib (js_get_string lib) obj ''type'' t"
      "if t \<in> request_types then out_of_range lib obj \<and> perr_code e = InvalidFieldType else perr_code e = UnknownMessageType"
      using refused_object[OF assms obj] by (auto simp: object_error_def)
    then show ?thesis
      using None obj has_field_unique[OF t(1)] by (cases "t \<in> request_types") (auto simp: out_of_range_def request_types_def)
  next
    case (Some f)
    obtain path k where f: "f = (path, k)" by (cases f)
    have e: "e = field_error lib obj path" using refused_object[OF assms obj] Some f by (simp add: object_error_def)
    moreover have "t \<in> request_types" if "has_field lib (js_get_string lib) obj ''type'' t" for t
      using known_type[OF that] Some by auto
    ultimately show ?thesis using obj Some f by (auto simp: field_error_def)
  qed
qed


subsection \<open>Responses and events\<close>

fun finite_message :: "ServerMessage \<Rightarrow> bool" where
  "finite_message (OkResponse request _) = ascii request"
| "finite_message (ErrorResponse code message) \<longleftrightarrow> ascii code \<and> ascii message"
| "finite_message (SnapshotResponse p) \<longleftrightarrow>
     list_all (\<lambda>s. list_all finite_point (dto_points s)) (resp_strokes p) \<and>
     list_all (\<lambda>c. finite_point (cursor_point c)) (resp_cursors p)"
| "finite_message (StrokeBeginEvent _ _ _ _ _ _ _ p) = finite_point p"
| "finite_message (StrokePointEvent _ _ _ _ p) = finite_point p"
| "finite_message (CursorMoveEvent _ _ _ p) = finite_point p"
| "finite_message _ = True"

lemma stroke_printable:
  assumes "json_laws lib pr" "list_all finite_point (dto_points s)"
  shows "pr (makeStrokeJson lib s)"
  unfolding makeStrokeJson_def
  by (rule json_printD(1)[OF assms(1)])
    (use assms(2) in \<open>auto simp: ascii_def list_all_iff intro!: json_printD(2,4,5)[OF assms(1)]
      point_printable[OF assms(1)]\<close>)

lemma cursor_printable:
  assumes "json_laws lib pr" "finite_point (cursor_point c)"
  shows "pr (makeCursorJson lib c)"
  unfolding makeCursorJson_def
  by (rule json_printD(1)[OF assms(1)])
    (use assms(2) in \<open>auto simp: ascii_def intro!: json_printD(4)[OF assms(1)] point_printable[OF assms(1)]\<close>)

lemma message_printable:
  assumes "json_laws lib pr" "finite_message msg"
  shows "pr (js_object lib (messageFields lib msg))"
  by (rule json_printD(1)[OF assms(1)], use assms(2) in \<open>cases msg\<close>)
    (auto simp: ascii_def list_all_iff intro!: json_printD(2,3,4)[OF assms(1)] point_printable[OF assms(1)]
      stroke_printable[OF assms(1)] cursor_printable[OF assms(1)])

lemma object_lookup:
  assumes "json_laws lib pr" "js_object lib kvs = js_object lib kvs'"
    and "distinct (map fst kvs)" "distinct (map fst kvs')"
  shows "map_of kvs k = map_of kvs' k"
  using json_lawsD(2)[OF assms(1)] assms(2-4) by metis

lemma makePointJson_inj:
  "json_laws lib pr \<Longrightarrow> finite_point p \<Longrightarrow> finite_point q \<Longrightarrow> makePointJson lib p = makePointJson lib q \<longleftrightarrow> p = q"
  using object_lookup[of lib pr "[(''x'', js_float lib (dto_x p)), (''y'', js_float lib (dto_y p))]"
      "[(''x'', js_float lib (dto_x q)), (''y'', js_float lib (dto_y q))]" "''x''"]
    object_lookup[of lib pr "[(''x'', js_float lib (dto_x p)), (''y'', js_float lib (dto_y p))]"
      "[(''x'', js_float lib (dto_x q)), (''y'', js_float lib (dto_y q))]" "''y''"]
  by (auto simp: makePointJson_def json_inj finite_point_def)

lemma makeStrokeJson_inj:
  assumes "json_laws lib pr" "makeStrokeJson lib s = makeStrokeJson lib s'"
    and "list_all finite_point (dto_points s)" "list_all finite_point (dto_points s')"
  shows "s = s'"
proof -
  note look = object_lookup[OF assms(1) assms(2)[unfolded makeStrokeJson_def], simplified]
  have "inj_on (makePointJson lib) (set (dto_points s) \<union> set (dto_points s'))"
    by (rule inj_onI) (use assms(3,4) makePointJson_inj[OF assms(1)] in \<open>auto simp: list_all_iff\<close>)
  note pts = inj_on_map_eq_map[OF this]
  show ?thesis
    using look[of "''id''"] look[of "''author''"] look[of "''color''"] look[of "''thickness''"]
      look[of "''stroke_order''"] look[of "''points''"] look[of "''finished''"] json_inj[OF assms(1)]
    pts by (cases s; cases s') (simp add: ucast_u8)
qed

lemma makeCursorJson_inj:
  assumes "json_laws lib pr" "makeCursorJson lib c = makeCursorJson lib c'"
    and "finite_point (cursor_point c)" "finite_point (cursor_point c')"
  shows "c = c'"
proof -
  note look = object_lookup[OF assms(1) assms(2)[unfolded makeCursorJson_def], simplified]
  show ?thesis
    using look[of "''client''"] look[of "''point''"] json_inj[OF assms(1)] makePointJson_inj[OF assms(1,3,4)]
    by (cases c; cases c') simp
qed

fun message_type :: "ServerMessage \<Rightarrow> string" where
  "message_type PongResponse = ''pong''"
| "message_type (RoomCreatedResponse _) = ''room_created''"
| "message_type (OkResponse _ _) = ''ok''"
| "message_type (ErrorResponse _ _) = ''error''"
| "message_type (SnapshotResponse _) = ''room_snapshot''"
| "message_type (StrokeBeginEvent _ _ _ _ _ _ _ _) = ''stroke_begin''"
| "message_type (StrokePointEvent _ _ _ _ _) = ''stroke_point''"
| "message_type (StrokeEndEvent _ _ _ _) = ''stroke_end''"
| "message_type (CursorMoveEvent _ _ _ _) = ''cursor_move''"
| "message_type (ClearEvent _ _ _) = ''clear''"
| "message_type (MemberLeftEvent _ _ _) = ''member_left''"

lemma message_fields_type:
  "map_of (messageFields lib msg) ''type'' = Some (js_string lib (message_type msg))"
  "distinct (map fst (messageFields lib msg))"
  by (cases msg; simp)+

lemma snapshot_response_eq:
  "p = p' \<longleftrightarrow> resp_room p = resp_room p' \<and> resp_lastSeq p = resp_lastSeq p' \<and>
     resp_members p = resp_members p' \<and> resp_strokes p = resp_strokes p' \<and> resp_cursors p = resp_cursors p'"
  for p p' :: RoomSnapshotResponse
  by (cases p; cases p') auto

lemma messageFields_inj:
  assumes "json_laws lib pr" "js_object lib (messageFields lib m) = js_object lib (messageFields lib m')"
    and fin: "finite_message m" "finite_message m'"
  shows "m = m'"
proof -
  note look = object_lookup[OF assms(1,2) message_fields_type(2) message_fields_type(2)]
  note inj = json_inj[OF assms(1)] makePointJson_inj[OF assms(1)] ucast_u8(4)
  have nums: "inj (js_u64 lib)" using json_inj(2)[OF assms(1)] by (auto intro!: injI)
  have maps: "map (makeStrokeJson lib) (resp_strokes p) = map (makeStrokeJson lib) (resp_strokes p') \<longleftrightarrow> resp_strokes p = resp_strokes p'"
    "map (makeCursorJson lib) (resp_cursors p) = map (makeCursorJson lib) (resp_cursors p') \<longleftrightarrow> resp_cursors p = resp_cursors p'"
    if "finite_message (SnapshotResponse p)" "finite_message (SnapshotResponse p')" for p p'
    using that by (auto simp: list_all_iff intro!: inj_on_map_eq_map inj_onI
        dest!: makeStrokeJson_inj[OF assms(1)] makeCursorJson_inj[OF assms(1)])
  note facts = look[of "''room''"] look[of "''seq''"] look[of "''author''"] look[of "''id''"]
    look[of "''stroke_order''"] look[of "''color''"] look[of "''thickness''"] look[of "''start''"]
    look[of "''point''"] look[of "''client''"] look[of "''request''"] look[of "''code''"]
    look[of "''message''"] look[of "''last_seq''"] look[of "''members''"] look[of "''strokes''"]
    look[of "''cursors''"]
  have ty: "message_type m = message_type m'"
    using look[of "''type''"] by (simp add: message_fields_type(1) inj)
  show ?thesis
    by (cases m; cases m'; (use ty in \<open>simp; fail\<close> |
      use facts fin in \<open>simp add: inj maps inj_map_eq_map[OF nums] snapshot_response_eq; fail\<close>))
qed

text \<open>
  C21: What the server sends can be read: every message with finite coordinates and ASCII texts is
  serialized to one line without a newline, and two messages with the same line are equal, so the
  line determines the message.
\<close>

theorem server_lines_faithful:
  assumes "json_laws lib pr" "finite_message m" "finite_message m'"
  shows "(\<exists>line. serializeServerMessage lib m = Inr line \<and> CHR 0x0A \<notin> set line) \<and>
    (serializeServerMessage lib m = serializeServerMessage lib m' \<longleftrightarrow> m = m')"
proof -
  obtain line where line: "serializeServerMessage lib m = Inr line" "CHR 0x0A \<notin> set line"
    "js_parse lib line = Inr (js_object lib (messageFields lib m))"
    using json_printD(7)[OF assms(1) message_printable[OF assms(1,2)]]
    unfolding serializeServerMessage_def by blast
  obtain line' where line': "serializeServerMessage lib m' = Inr line'"
    "js_parse lib line' = Inr (js_object lib (messageFields lib m'))"
    using json_printD(7)[OF assms(1) message_printable[OF assms(1,3)]]
    unfolding serializeServerMessage_def by blast
  have "m = m'" if "line = line'"
    using that line(3) line'(2) messageFields_inj[OF assms(1) _ assms(2,3)] by simp
  then show ?thesis using line line' by auto
qed



subsection \<open>An instance of the library's laws\<close>

datatype JVal = JString "nat list" | JNumber nat | JFloat nat | JBool bool | JArray "JVal list"
  | JObject "(nat list \<times> JVal) list"

instance JVal :: countable
  by countable_datatype

definition codes :: "string \<Rightarrow> nat list" where
  "codes s = map of_char s"

lemma codes_inj [simp]: "map char_of (codes s) = s" "codes s = codes s' \<longleftrightarrow> s = s'"
proof -
  show *: "map char_of (codes s) = s" for s by (simp add: codes_def comp_def)
  show "codes s = codes s' \<longleftrightarrow> s = s'" by (metis *)
qed

definition plain_json :: "JVal JsonLib" where
  "plain_json = \<lparr>
     js_parse = (\<lambda>s. Inr (from_nat (length s))),
     js_dump = (\<lambda>j. Inr (replicate (to_nat j) CHR ''x'')),
     js_is_object = (\<lambda>j. case j of JObject _ \<Rightarrow> True | _ \<Rightarrow> False),
     js_find = (\<lambda>j k. case j of JObject kvs \<Rightarrow> map_of kvs (codes k) | _ \<Rightarrow> None),
     js_get_string = (\<lambda>j. case j of JString s \<Rightarrow> Inr (map char_of s) | _ \<Rightarrow> Inl ''type''),
     js_get_u64 = (\<lambda>j. case j of JNumber n \<Rightarrow> Inr (of_nat n) | _ \<Rightarrow> Inl ''type''),
     js_get_u32 = (\<lambda>j. case j of JNumber n \<Rightarrow> Inr (of_nat n) | _ \<Rightarrow> Inl ''type''),
     js_get_float = (\<lambda>j. case j of JFloat n \<Rightarrow> Inr (of_nat n) | _ \<Rightarrow> Inl ''type''),
     js_string = (\<lambda>s. JString (codes s)),
     js_u64 = (\<lambda>n. JNumber (unat n)),
     js_float = (\<lambda>b. JFloat (unat b)),
     js_bool = JBool,
     js_array = JArray,
     js_object = (\<lambda>kvs. JObject (map (\<lambda>(k, v). (codes k, v)) kvs))\<rparr>"

lemma map_of_codes: "map_of (map (\<lambda>(k, v). (codes k, v)) kvs) (codes k) = map_of kvs k"
  by (induction kvs) auto

lemma plain_json_laws: "json_laws plain_json (\<lambda>_. True)"
proof -
  have cast: "of_nat (unat (n :: u64)) = (ucast n :: u32)" for n
    by (simp add: unsigned_eq_0_iff)
  show ?thesis
    by (simp add: json_laws_def plain_json_def map_of_codes cast inj_def)
qed

lemma plain_parse_dump: "js_parse plain_json (replicate (to_nat j) CHR ''x'') = Inr j"
  by (simp add: plain_json_def)

definition sample_request :: ClientMessage where
  "sample_request = StrokeBeginRequest 1 2 0 \<lparr>dto_x = 0, dto_y = 0\<rparr>"

theorem request_roundtrip_witness:
  "\<exists>line. js_dump plain_json (js_object plain_json (requestFields plain_json sample_request)) = Inr line \<and>
     parseClientMessage plain_json line = Inr sample_request"
  using request_roundtrip[OF plain_json_laws, of sample_request]
  by (auto simp: sample_request_def finite_point_def finite_float_def)

theorem refused_lines_witness:
  "\<exists>line e. parseClientMessage plain_json line = Inl e \<and> perr_code e = MissingField \<and> perr_message e = ''missing field: room''"
proof -
  let ?j = "js_object plain_json [(''type'', js_string plain_json ''join_room'')]"
  let ?line = "replicate (to_nat ?j) CHR ''x''"
  have obj: "js_parse plain_json ?line = Inr ?j" "js_is_object plain_json ?j"
    by (rule plain_parse_dump) (simp add: plain_json_def)
  have bad: "first_bad plain_json ?j = Some ([''room''], FUnsigned64)" "at_path plain_json ?j [''room''] = None"
    by (simp_all add: first_bad_def bad_field_def type_fields_def plain_json_def)
  obtain e where e: "parseClientMessage plain_json ?line = Inl e"
    using obj by (simp add: parseClientMessage_def getRequired_def plain_json_def)
  have "e = field_error plain_json ?j [''room'']"
    using refused_object[OF e obj] bad by (simp add: object_error_def)
  then have "perr_message e = ''missing field: room''" using bad(2) by (simp add: field_error_def)
  moreover have "perr_code e = MissingField" using refused_lines[OF e] obj bad calculation by auto
  ultimately show ?thesis using e by blast
qed

theorem server_lines_faithful_witness:
  "(\<exists>line. serializeServerMessage plain_json (ClearEvent 1 5 7) = Inr line \<and> CHR 0x0A \<notin> set line) \<and>
   serializeServerMessage plain_json (ClearEvent 1 5 7) \<noteq> serializeServerMessage plain_json (ClearEvent 1 6 7)"
  using server_lines_faithful[OF plain_json_laws, of "ClearEvent 1 5 7" "ClearEvent 1 6 7"] by simp


end
