(* ===== verification/CS_Session.thy ===== *)
theory CS_Session
  imports CS_Server_Core CS_Mappers CS_Json "HOL-Library.Sublist"
begin

text \<open>
  The network server: \<^verbatim>\<open>server/src/client_session.cpp\<close>, \<^verbatim>\<open>session_registry.cpp\<close> and \<^verbatim>\<open>tcp_server.cpp\<close>.
  The state \<open>Server\<close> holds the shared core, the live session objects, the registry (the ids with an
  entry; an entry is a \<^verbatim>\<open>weak_ptr\<close> and can be locked while the session object lives) and the id counter.
  \<open>sv_enqueued\<close> lists what was handed to the snapshot sink.

  Of Boost.Asio the model keeps what the code relies on: a session's handlers run one at a time on its
  strand, posted handlers in the order of posting (\<open>s_posted\<close>), and an asynchronous operation
  completes once, by success or by error. A read that has completed but whose handler has not run
  yet is \<open>RReady\<close>; closing the socket does not take it back. \<open>s_writing\<close> holds the line of every
  \<^verbatim>\<open>async_write\<close> that has not completed, in the order of the calls; nothing in the model prevents two of them. The
  handler of a completed write gets the line that was sent, and \<open>s_written\<close> records it.

  An operation is a function on the server state. Its result is \<open>None\<close> for undefined behaviour,
  and otherwise a value or (\<open>Inl\<close>) an exception together with the state at that moment.
\<close>

datatype Posted = PostRead | PostLine string | PostStop

datatype ReadOp = RIdle | RPending | RReady string

record Session =
  s_currentRoom :: "RoomId option"
  s_stopped :: bool
  s_open :: bool
  s_read :: ReadOp
  s_writing :: "string list"
  s_writeQueue :: "string list"
  s_posted :: "Posted list"
  s_written :: "string list"

text \<open>
  The acceptor is a Boost.Asio object: whether it is open, and whether an accept is outstanding. What its
  calls in the constructor of \<^verbatim>\<open>TcpServer\<close> answer is a parameter; \<open>Inl\<close> is the exception they throw.
\<close>

record Acceptor =
  acc_open :: bool
  acc_pending :: bool

record AcceptorEnv =
  ae_open :: "unit thrown"
  ae_reuse_address :: "unit thrown"
  ae_bind :: "u16 \<Rightarrow> unit thrown"
  ae_listen :: "unit thrown"

record Server =
  sv_core :: ServerCore
  sv_sessions :: "ClientId \<rightharpoonup> Session"
  sv_registry :: "ClientId \<Rightarrow> bool"
  sv_nextClientId :: ClientId
  sv_acceptor :: Acceptor
  sv_enqueued :: "PersistedBoardSnapshot list"

definition new_server :: "AcceptorEnv \<Rightarrow> u16 \<Rightarrow> ServerCore \<Rightarrow> Server thrown" where
  "new_server env port core =
     and_then (ae_open env) (\<lambda>_.
     and_then (ae_reuse_address env) (\<lambda>_.
     and_then (ae_bind env port) (\<lambda>_.
     and_then (ae_listen env) (\<lambda>_.
     Inr \<lparr>sv_core = core, sv_sessions = Map.empty, sv_registry = (\<lambda>_. False), sv_nextClientId = 1,
          sv_acceptor = \<lparr>acc_open = True, acc_pending = False\<rparr>, sv_enqueued = []\<rparr>))))"

definition new_session :: Session where
  "new_session = \<lparr>s_currentRoom = None, s_stopped = False, s_open = True, s_read = RIdle,
     s_writing = [], s_writeQueue = [], s_posted = [], s_written = []\<rparr>"

type_synonym 'a act = "Server \<Rightarrow> ('a thrown \<times> Server) option"

definition ret :: "'a \<Rightarrow> 'a act" where
  "ret v sv = Some (Inr v, sv)"

definition seqn :: "'a act \<Rightarrow> ('a \<Rightarrow> 'b act) \<Rightarrow> 'b act" where
  "seqn m f sv = (case m sv of
     None \<Rightarrow> None | Some (Inl e, sv') \<Rightarrow> Some (Inl e, sv') | Some (Inr v, sv') \<Rightarrow> f v sv')"

text \<open>Access to the session object with id \<open>c\<close>, which is alive while one of its handlers runs.\<close>

definition the_session :: "Server \<Rightarrow> ClientId \<Rightarrow> Session" where
  "the_session sv c = (case sv_sessions sv c of Some s \<Rightarrow> s | None \<Rightarrow> new_session)"

definition upd_session :: "ClientId \<Rightarrow> (Session \<Rightarrow> Session) \<Rightarrow> Server \<Rightarrow> Server" where
  "upd_session c f sv = (case sv_sessions sv c of
     Some s \<Rightarrow> sv\<lparr>sv_sessions := (sv_sessions sv)(c \<mapsto> f s)\<rparr> | None \<Rightarrow> sv)"

definition modify :: "ClientId \<Rightarrow> (Session \<Rightarrow> Session) \<Rightarrow> unit act" where
  "modify c f sv = ret () (upd_session c f sv)"

definition post :: "ClientId \<Rightarrow> Posted \<Rightarrow> unit act" where
  "post c h = modify c (\<lambda>s. s\<lparr>s_posted := s_posted s @ [h]\<rparr>)"

subsection \<open>The registry\<close>

definition reg_add :: "ClientId \<Rightarrow> unit act" where
  "reg_add c sv = ret () (sv\<lparr>sv_registry := (sv_registry sv)(c := True)\<rparr>)"

definition reg_remove :: "ClientId \<Rightarrow> unit act" where
  "reg_remove c sv = ret () (sv\<lparr>sv_registry := (sv_registry sv)(c := False)\<rparr>)"

definition reg_find :: "ClientId \<Rightarrow> bool act" where
  "reg_find c sv =
     (if \<not> sv_registry sv c then ret False sv
      else if sv_sessions sv c = None then ret False (sv\<lparr>sv_registry := (sv_registry sv)(c := False)\<rparr>)
      else ret True sv)"

subsection \<open>Sending\<close>

definition deliver :: "'j JsonLib \<Rightarrow> ClientId \<Rightarrow> ServerMessage \<Rightarrow> unit act" where
  "deliver lib c msg sv =
     (case serializeServerMessage lib msg of
        Inl e \<Rightarrow> Some (Inl e, sv)
      | Inr line \<Rightarrow> post c (PostLine (line @ [CHR 0x0A])) sv)"

definition reg_deliver :: "'j JsonLib \<Rightarrow> ClientId \<Rightarrow> ServerMessage \<Rightarrow> unit act" where
  "reg_deliver lib c msg = seqn (reg_find c) (\<lambda>found. if found then deliver lib c msg else ret ())"

fun protocolToCoreError :: "ProtocolError \<Rightarrow> Error" where
  "protocolToCoreError e = (case perr_code e of
     InvalidJson \<Rightarrow> invalidParams (perr_message e)
   | MissingField \<Rightarrow> invalidParams (perr_message e)
   | InvalidFieldType \<Rightarrow> invalidParams (perr_message e)
   | UnknownMessageType \<Rightarrow> invalidParams (perr_message e)
   | InvalidMessage \<Rightarrow> invalidParams (perr_message e))"

definition sendError :: "'j JsonLib \<Rightarrow> ClientId \<Rightarrow> Error \<Rightarrow> unit act" where
  "sendError lib c e = deliver lib c (toErrorMessage e)"

definition sendProtocolError :: "'j JsonLib \<Rightarrow> ClientId \<Rightarrow> ProtocolError \<Rightarrow> unit act" where
  "sendProtocolError lib c e = sendError lib c (protocolToCoreError e)"

fun dispatchOutgoing :: "'j JsonLib \<Rightarrow> OutgoingEvent list \<Rightarrow> unit act" where
  "dispatchOutgoing lib [] = ret ()"
| "dispatchOutgoing lib (ev # evs) =
     seqn (reg_deliver lib (ev_to ev) (toServerMessage ev)) (\<lambda>_. dispatchOutgoing lib evs)"

subsection \<open>Calls into the core\<close>

definition core_createRoom :: "RoomId act" where
  "core_createRoom sv = (let (rid, core) = createRoom (sv_core sv) in ret rid (sv\<lparr>sv_core := core\<rparr>))"

definition core_joinRoom :: "ClientId \<Rightarrow> RoomId \<Rightarrow> RoomSnapshot expected act" where
  "core_joinRoom c room sv = (let (res, core) = joinRoom (sv_core sv) c room in ret res (sv\<lparr>sv_core := core\<rparr>))"

definition core_leaveRoom :: "ClientId \<Rightarrow> RoomId \<Rightarrow> OutgoingEvent list expected act" where
  "core_leaveRoom c room sv = (case leaveRoom (sv_core sv) c room of
     None \<Rightarrow> None
   | Some (res, sn, core) \<Rightarrow> ret res (sv\<lparr>sv_core := core, sv_enqueued := sv_enqueued sv @ sn\<rparr>))"

definition core_handleEvent :: "TimePoint \<Rightarrow> ClientId \<Rightarrow> RoomId \<Rightarrow> EventPayload \<Rightarrow> OutgoingEvent list expected act" where
  "core_handleEvent now c room ev sv = (case handleEvent (sv_core sv) now c room ev of
     None \<Rightarrow> None
   | Some (res, sn, core) \<Rightarrow> ret res (sv\<lparr>sv_core := core, sv_enqueued := sv_enqueued sv @ sn\<rparr>))"

definition getCurrentRoom :: "ClientId \<Rightarrow> RoomId option act" where
  "getCurrentRoom c sv = ret (s_currentRoom (the_session sv c)) sv"

definition setCurrentRoom :: "ClientId \<Rightarrow> RoomId option \<Rightarrow> unit act" where
  "setCurrentRoom c room = modify c (\<lambda>s. s\<lparr>s_currentRoom := room\<rparr>)"

subsection \<open>Handling a request\<close>

definition handleJoin :: "'j JsonLib \<Rightarrow> ClientId \<Rightarrow> RoomId \<Rightarrow> unit act" where
  "handleJoin lib c room = seqn (getCurrentRoom c) (\<lambda>cur.
     if cur \<noteq> None \<and> cur \<noteq> Some room
     then sendError lib c (invalidParams ''session already joined to another room'')
     else seqn (core_joinRoom c room) (\<lambda>res. case res of
         Inl e \<Rightarrow> sendError lib c e
       | Inr snap \<Rightarrow> seqn (setCurrentRoom c (Some room)) (\<lambda>_. deliver lib c (toSnapshotMessage snap))))"

definition handleLeave :: "'j JsonLib \<Rightarrow> ClientId \<Rightarrow> RoomId \<Rightarrow> unit act" where
  "handleLeave lib c room = seqn (getCurrentRoom c) (\<lambda>cur.
     if cur \<noteq> Some room then sendError lib c notInRoom
     else seqn (core_leaveRoom c room) (\<lambda>res. case res of
         Inl e \<Rightarrow> sendError lib c e
       | Inr out \<Rightarrow> seqn (setCurrentRoom c None) (\<lambda>_. seqn (dispatchOutgoing lib out) (\<lambda>_.
           deliver lib c (OkResponse ''leave_room'' room)))))"

definition handleDraw :: "'j JsonLib \<Rightarrow> TimePoint \<Rightarrow> ClientId \<Rightarrow> RoomId \<Rightarrow> EventPayload expected \<Rightarrow> unit act" where
  "handleDraw lib now c room event = seqn (getCurrentRoom c) (\<lambda>cur.
     if cur \<noteq> Some room then sendError lib c notInRoom
     else case event of
         Inl e \<Rightarrow> sendError lib c e
       | Inr ev \<Rightarrow> seqn (core_handleEvent now c room ev) (\<lambda>res. case res of
           Inl e \<Rightarrow> sendError lib c e
         | Inr out \<Rightarrow> dispatchOutgoing lib out))"

definition handleMessage :: "'j JsonLib \<Rightarrow> TimePoint \<Rightarrow> ClientId \<Rightarrow> ClientMessage \<Rightarrow> unit act" where
  "handleMessage lib now c msg =
     (case msg of
        PingRequest \<Rightarrow> deliver lib c PongResponse
      | CreateRoomRequest \<Rightarrow> seqn core_createRoom (\<lambda>room. deliver lib c (RoomCreatedResponse room))
      | JoinRoomRequest room \<Rightarrow> handleJoin lib c room
      | LeaveRoomRequest room \<Rightarrow> handleLeave lib c room
      | _ \<Rightarrow> (case (request_room msg, toCoreEvent msg) of
          (Some room, Some event) \<Rightarrow> handleDraw lib now c room event | _ \<Rightarrow> ret ()))"

definition handleLine :: "'j JsonLib \<Rightarrow> TimePoint \<Rightarrow> ClientId \<Rightarrow> string \<Rightarrow> unit act" where
  "handleLine lib now c line =
     (case parseClientMessage lib line of
        Inl e \<Rightarrow> sendProtocolError lib c e
      | Inr msg \<Rightarrow> handleMessage lib now c msg)"

subsection \<open>The handlers\<close>

definition stopImpl :: "'j JsonLib \<Rightarrow> ClientId \<Rightarrow> unit act" where
  "stopImpl lib c sv =
     (if s_stopped (the_session sv c) then ret () sv
      else seqn (modify c (\<lambda>s. s\<lparr>s_stopped := True\<rparr>)) (\<lambda>_.
           seqn (getCurrentRoom c) (\<lambda>cur.
           seqn (case cur of
                   None \<Rightarrow> ret ()
                 | Some room \<Rightarrow> seqn (core_leaveRoom c room) (\<lambda>res.
                     seqn (case res of Inl _ \<Rightarrow> ret () | Inr out \<Rightarrow> dispatchOutgoing lib out) (\<lambda>_.
                     setCurrentRoom c None))) (\<lambda>_.
           seqn (modify c (\<lambda>s. s\<lparr>s_open := False\<rparr>)) (\<lambda>_.
           reg_remove c)))) sv)"

definition doReadLine :: "ClientId \<Rightarrow> unit act" where
  "doReadLine c sv =
     (if s_stopped (the_session sv c) then ret () sv
      else modify c (\<lambda>s. s\<lparr>s_read := RPending\<rparr>) sv)"

text \<open>\<open>None\<close> is a read that failed. The buffer ends the line at its newline.\<close>

definition onReadLine :: "'j JsonLib \<Rightarrow> TimePoint \<Rightarrow> ClientId \<Rightarrow> string option \<Rightarrow> unit act" where
  "onReadLine lib now c input =
     (case input of
        None \<Rightarrow> stopImpl lib c
      | Some line \<Rightarrow> seqn (handleLine lib now c line) (\<lambda>_ sv.
          if s_stopped (the_session sv c) then ret () sv else doReadLine c sv))"

definition doWrite :: "ClientId \<Rightarrow> unit act" where
  "doWrite c sv =
     (if s_writeQueue (the_session sv c) = [] \<or> s_stopped (the_session sv c) then ret () sv
      else modify c (\<lambda>s. s\<lparr>s_writing := s_writing s @ [hd (s_writeQueue s)]\<rparr>) sv)"

text \<open>
  \<open>None\<close> is a write that failed, \<open>Some w\<close> one that sent the line \<open>w\<close>. \<^verbatim>\<open>pop_front\<close> on an empty queue is
  undefined.
\<close>

definition onWrite :: "'j JsonLib \<Rightarrow> ClientId \<Rightarrow> string option \<Rightarrow> unit act" where
  "onWrite lib c res sv =
     (case res of
        None \<Rightarrow> stopImpl lib c sv
      | Some w \<Rightarrow> (case s_writeQueue (the_session sv c) of
          [] \<Rightarrow> None
        | line # rest \<Rightarrow>
            seqn (modify c (\<lambda>s. s\<lparr>s_writeQueue := rest, s_written := s_written s @ [w]\<rparr>)) (\<lambda>_ sv.
              if s_writeQueue (the_session sv c) \<noteq> [] then doWrite c sv else ret () sv) sv))"

definition runPosted :: "'j JsonLib \<Rightarrow> ClientId \<Rightarrow> Posted \<Rightarrow> unit act" where
  "runPosted lib c h =
     (case h of
        PostRead \<Rightarrow> doReadLine c
      | PostStop \<Rightarrow> stopImpl lib c
      | PostLine line \<Rightarrow> (\<lambda>sv.
          let wasIdle = s_writeQueue (the_session sv c) = []
          in seqn (modify c (\<lambda>s. s\<lparr>s_writeQueue := s_writeQueue s @ [line]\<rparr>)) (\<lambda>_.
               if wasIdle then doWrite c else ret ()) sv))"

definition session_start :: "ClientId \<Rightarrow> unit act" where
  "session_start c = post c PostRead"

definition session_stop :: "ClientId \<Rightarrow> unit act" where
  "session_stop c = post c PostStop"

definition doAccept :: "Server \<Rightarrow> Server" where
  "doAccept sv = sv\<lparr>sv_acceptor := (sv_acceptor sv)\<lparr>acc_pending := True\<rparr>\<rparr>"

definition server_start :: "Server \<Rightarrow> Server" where
  "server_start = doAccept"

definition add_session :: "unit act" where
  "add_session sv =
     (let c = sv_nextClientId sv;
          sv1 = sv\<lparr>sv_nextClientId := c + 1, sv_sessions := (sv_sessions sv)(c \<mapsto> new_session)\<rparr>
      in seqn (reg_add c) (\<lambda>_. session_start c) sv1)"

text \<open>\<open>ec\<close> tells whether the accept failed.\<close>

definition onAccept :: "bool \<Rightarrow> unit act" where
  "onAccept ec = seqn (if \<not> ec then add_session else ret ()) (\<lambda>_ sv.
     ret () (if acc_open (sv_acceptor sv) then doAccept sv else sv))"

text \<open>The server after its constructor and \<^verbatim>\<open>start()\<close>, and the completion of an accept.\<close>

definition started_server :: "ServerCore \<Rightarrow> Server" where
  "started_server core = \<lparr>sv_core = core, sv_sessions = Map.empty, sv_registry = (\<lambda>_. False), sv_nextClientId = 1,
     sv_acceptor = \<lparr>acc_open = True, acc_pending = True\<rparr>, sv_enqueued = []\<rparr>"

definition accept_done :: "unit act" where
  "accept_done sv = ret () (sv\<lparr>sv_acceptor := (sv_acceptor sv)\<lparr>acc_pending := False\<rparr>\<rparr>)"

text \<open>
  What can happen next. \<open>Receive\<close>, \<open>ReadFails\<close> and the outcome of \<open>WriteEnds\<close> are decided by the
  network, \<open>StopCall\<close> by a caller of \<^verbatim>\<open>stop()\<close>, and \<open>Destroy\<close> is the end of a session object that no
  handler holds any more.
\<close>

datatype ServerLabel = Accept | AcceptFails | Receive ClientId string | OnRead TimePoint ClientId | ReadFails ClientId
  | WriteEnds ClientId bool | RunPosted ClientId | StopCall ClientId | Destroy ClientId

definition live :: "Server \<Rightarrow> ClientId \<Rightarrow> bool" where
  "live sv c \<longleftrightarrow> sv_sessions sv c \<noteq> None"

definition enabled :: "Server \<Rightarrow> ServerLabel \<Rightarrow> bool" where
  "enabled sv l \<longleftrightarrow>
     (case l of
        Accept \<Rightarrow> acc_pending (sv_acceptor sv)
      | AcceptFails \<Rightarrow> acc_pending (sv_acceptor sv)
      | Receive c line \<Rightarrow> live sv c \<and> s_open (the_session sv c) \<and> s_read (the_session sv c) = RPending \<and>
          CHR 0x0A \<notin> set line
      | OnRead now c \<Rightarrow> live sv c \<and> (case s_read (the_session sv c) of RReady _ \<Rightarrow> True | _ \<Rightarrow> False)
      | ReadFails c \<Rightarrow> live sv c \<and> s_read (the_session sv c) = RPending
      | WriteEnds c ok \<Rightarrow> live sv c \<and> s_writing (the_session sv c) \<noteq> []
      | RunPosted c \<Rightarrow> live sv c \<and> s_posted (the_session sv c) \<noteq> []
      | StopCall c \<Rightarrow> live sv c
      | Destroy c \<Rightarrow> live sv c \<and> s_read (the_session sv c) = RIdle \<and> s_writing (the_session sv c) = [] \<and>
          s_posted (the_session sv c) = [])"

definition run_label :: "'j JsonLib \<Rightarrow> ServerLabel \<Rightarrow> unit act" where
  "run_label lib l sv =
     (case l of
        Accept \<Rightarrow> seqn accept_done (\<lambda>_. onAccept False) sv
      | AcceptFails \<Rightarrow> seqn accept_done (\<lambda>_. onAccept True) sv
      | Receive c line \<Rightarrow> modify c (\<lambda>s. s\<lparr>s_read := RReady line\<rparr>) sv
      | OnRead now c \<Rightarrow> (case s_read (the_session sv c) of
          RReady line \<Rightarrow> seqn (modify c (\<lambda>s. s\<lparr>s_read := RIdle\<rparr>)) (\<lambda>_. onReadLine lib now c (Some line)) sv
        | _ \<Rightarrow> ret () sv)
      | ReadFails c \<Rightarrow> seqn (modify c (\<lambda>s. s\<lparr>s_read := RIdle\<rparr>)) (\<lambda>_. onReadLine lib 0 c None) sv
      | WriteEnds c ok \<Rightarrow> (case s_writing (the_session sv c) of
          [] \<Rightarrow> ret () sv
        | w # ws \<Rightarrow> seqn (modify c (\<lambda>s. s\<lparr>s_writing := ws\<rparr>)) (\<lambda>_. onWrite lib c (if ok then Some w else None)) sv)
      | RunPosted c \<Rightarrow> (case s_posted (the_session sv c) of
          [] \<Rightarrow> ret () sv
        | h # hs \<Rightarrow> seqn (modify c (\<lambda>s. s\<lparr>s_posted := hs\<rparr>)) (\<lambda>_. runPosted lib c h) sv)
      | StopCall c \<Rightarrow> session_stop c sv
      | Destroy c \<Rightarrow> ret () (sv\<lparr>sv_sessions := (sv_sessions sv)(c := None)\<rparr>))"

inductive server_run :: "'j JsonLib \<Rightarrow> Server \<Rightarrow> ServerLabel list \<Rightarrow> Server \<Rightarrow> bool" for lib sv0 where
  idle: "server_run lib sv0 [] sv0"
| step: "\<lbrakk>server_run lib sv0 tr sv; enabled sv l; run_label lib l sv = Some (Inr (), sv')\<rbrakk> \<Longrightarrow>
    server_run lib sv0 (tr @ [l]) sv'"


subsection \<open>Effects of the operations\<close>

lemma act_simps [simp]:
  "ret v sv = Some (Inr v, sv)" "seqn (ret v) f sv = f v sv"
  "modify c g sv = Some (Inr (), upd_session c g sv)"
  "seqn (modify c g) k sv = k () (upd_session c g sv)"
  by (simp_all add: seqn_def ret_def modify_def)

lemma upd_session_simps [simp]:
  "sv_core (upd_session c f sv) = sv_core sv" "sv_registry (upd_session c f sv) = sv_registry sv"
  "sv_nextClientId (upd_session c f sv) = sv_nextClientId sv" "sv_enqueued (upd_session c f sv) = sv_enqueued sv"
  "sv_acceptor (upd_session c f sv) = sv_acceptor sv"
  "sv_sessions (upd_session c f sv) c' = (if c' = c then map_option f (sv_sessions sv c) else sv_sessions sv c')"
  "live (upd_session c f sv) c' = live sv c'"
  by (auto simp: upd_session_def live_def split: option.split)

lemma the_session_upd [simp]:
  "live sv c \<Longrightarrow> the_session (upd_session c f sv) c = f (the_session sv c)"
  "c' \<noteq> c \<Longrightarrow> the_session (upd_session c f sv) c' = the_session sv c'"
  by (auto simp: the_session_def live_def)

lemma live_the_session: "live sv c \<longleftrightarrow> sv_sessions sv c = Some (the_session sv c)"
  by (auto simp: live_def the_session_def)

text \<open>
  \<open>posts sv sv'\<close>: lines were posted to sessions, in order, and expired registry entries may have
  been dropped; nothing else changed.
\<close>

definition session_posts :: "Session \<Rightarrow> Session \<Rightarrow> bool" where
  "session_posts s s' \<longleftrightarrow> (\<exists>lines. s' = s\<lparr>s_posted := s_posted s @ map PostLine lines\<rparr>)"

definition posts :: "Server \<Rightarrow> Server \<Rightarrow> bool" where
  "posts sv sv' \<longleftrightarrow> sv_core sv' = sv_core sv \<and> sv_nextClientId sv' = sv_nextClientId sv \<and>
     sv_enqueued sv' = sv_enqueued sv \<and> sv_acceptor sv' = sv_acceptor sv \<and>
     (\<forall>c. sv_registry sv' c \<longrightarrow> sv_registry sv c) \<and>
     (\<forall>c. rel_option session_posts (sv_sessions sv c) (sv_sessions sv' c))"

lemma session_posts_refl: "session_posts s s"
  by (simp add: session_posts_def exI[of _ "[]"])

lemma session_posts_trans: "session_posts s s' \<Longrightarrow> session_posts s' s'' \<Longrightarrow> session_posts s s''"
  unfolding session_posts_def by (force simp flip: map_append)

lemma posts_refl [simp]: "posts sv sv"
  by (simp add: posts_def option.rel_refl session_posts_refl)

lemma posts_trans:
  assumes "posts sv sv'" "posts sv' sv''"
  shows "posts sv sv''"
proof -
  have "rel_option session_posts (sv_sessions sv c) (sv_sessions sv'' c)" for c
    using assms unfolding posts_def
    by (metis (no_types, lifting) option.rel_transp session_posts_trans transpE transpI)
  then show ?thesis using assms by (auto simp: posts_def)
qed

lemma posts_live: "posts sv sv' \<Longrightarrow> live sv' c \<longleftrightarrow> live sv c"
  unfolding posts_def live_def by (metis option.rel_sel option.collapse option.discI)

lemma posts_session:
  assumes "posts sv sv'"
  shows "\<exists>lines. the_session sv' c = (the_session sv c)\<lparr>
     s_posted := s_posted (the_session sv c) @ map PostLine lines\<rparr>"
proof (cases "sv_sessions sv c")
  case None
  then have "sv_sessions sv' c = None" using posts_live[OF assms, of c] by (simp add: live_def)
  then show ?thesis using None by (simp add: the_session_def exI[of _ "[]"])
next
  case (Some s)
  then obtain s' where "sv_sessions sv' c = Some s'" "session_posts s s'"
    using assms unfolding posts_def by (metis option_rel_Some1)
  then show ?thesis using Some by (auto simp: the_session_def session_posts_def)
qed

lemma deliver_posts: "\<exists>r sv'. deliver lib c msg sv = Some (r, sv') \<and> posts sv sv'"
proof (cases "serializeServerMessage lib msg")
  case (Inr line)
  let ?f = "\<lambda>s. s\<lparr>s_posted := s_posted s @ [PostLine (line @ [CHR 0x0A])]\<rparr>"
  have "session_posts s (?f s)" for s
    unfolding session_posts_def by (rule exI[of _ "[line @ [CHR 0x0A]]"]) simp
  then have "posts sv (upd_session c ?f sv)"
    by (auto simp: posts_def session_posts_refl option.rel_refl option.rel_map
        intro!: option.rel_refl_strong)
  then show ?thesis using Inr by (simp add: deliver_def post_def)
qed (simp add: deliver_def)

lemma reg_find_posts: "\<exists>found sv'. reg_find c sv = Some (Inr found, sv') \<and> posts sv sv' \<and>
    (found \<longrightarrow> sv_registry sv c \<and> live sv c \<and> sv' = sv)"
  by (auto simp: reg_find_def posts_def live_def option.rel_refl session_posts_refl)

lemma reg_deliver_posts: "\<exists>r sv'. reg_deliver lib c msg sv = Some (r, sv') \<and> posts sv sv'"
proof -
  obtain found sv1 where f: "reg_find c sv = Some (Inr found, sv1)" "posts sv sv1"
    using reg_find_posts by blast
  show ?thesis
    using f deliver_posts[of lib c msg sv1] posts_trans[OF f(2)]
    by (cases found) (auto simp: reg_deliver_def seqn_def)
qed

lemma dispatchOutgoing_posts: "\<exists>r sv'. dispatchOutgoing lib evs sv = Some (r, sv') \<and> posts sv sv'"
proof (induction evs arbitrary: sv)
  case (Cons ev evs)
  obtain r sv1 where d: "reg_deliver lib (ev_to ev) (toServerMessage ev) sv = Some (r, sv1)" "posts sv sv1"
    using reg_deliver_posts by blast
  show ?case
    using d Cons[of sv1] posts_trans[OF d(2)] by (cases r) (auto simp: seqn_def)
qed simp

lemma sendError_posts: "\<exists>r sv'. sendError lib c e sv = Some (r, sv') \<and> posts sv sv'"
  unfolding sendError_def by (rule deliver_posts)


subsection \<open>The invariant of the server\<close>

text \<open>
  \<open>members_inv n\<close>: a live session's \<^verbatim>\<open>currentRoom_\<close> is the room the core has its client in, ids of
  sessions and members have been given out, and no counter can wrap within \<open>n\<close> steps.
\<close>

definition members_inv :: "nat \<Rightarrow> Server \<Rightarrow> bool" where
  "members_inv n sv \<longleftrightarrow> core_ok n (sv_core sv) \<and> unat (sv_nextClientId sv) + n < 2 ^ 64 \<and>
     (\<forall>c. live sv c \<longrightarrow> c < sv_nextClientId sv) \<and>
     (\<forall>room c. in_room (sv_core sv) room c \<longrightarrow> c < sv_nextClientId sv) \<and>
     (\<forall>c room. live sv c \<longrightarrow> in_room (sv_core sv) room c = (s_currentRoom (the_session sv c) = Some room))"

text \<open>The write queue: at most one write is outstanding and its line is at the head of the queue, and an unstopped
  session with queued lines has one outstanding.\<close>

definition writes_front :: "Session \<Rightarrow> bool" where
  "writes_front s \<longleftrightarrow> s_writing s \<noteq> [] \<longrightarrow> s_writing s = take 1 (s_writeQueue s)"

definition queue_ok :: "Session \<Rightarrow> bool" where
  "queue_ok s \<longleftrightarrow> writes_front s \<and> (s_writeQueue s \<noteq> [] \<longrightarrow> s_stopped s \<or> s_writing s \<noteq> [])"

lemma writes_front_upd [simp]:
  "writes_front (s\<lparr>s_posted := hs\<rparr>) = writes_front s" "writes_front (s\<lparr>s_read := rd\<rparr>) = writes_front s"
  "writes_front (s\<lparr>s_currentRoom := cur\<rparr>) = writes_front s" "writes_front (s\<lparr>s_stopped := b\<rparr>) = writes_front s"
  "writes_front (s\<lparr>s_open := b\<rparr>) = writes_front s" "writes_front (s\<lparr>s_written := ls\<rparr>) = writes_front s"
  "writes_front (s\<lparr>s_writing := []\<rparr>)" "writes_front new_session"
  by (simp_all add: writes_front_def new_session_def)

lemma writes_front_push: "writes_front s \<Longrightarrow> writes_front (s\<lparr>s_writeQueue := s_writeQueue s @ [line]\<rparr>)"
  by (cases "s_writeQueue s") (simp_all add: writes_front_def)

lemma writes_frontD: "writes_front s \<Longrightarrow> s_writing s = w # ws \<Longrightarrow> ws = [] \<and> (\<exists>rest. s_writeQueue s = w # rest)"
  by (cases "s_writeQueue s") (simp_all add: writes_front_def)

definition queues_inv :: "Server \<Rightarrow> bool" where
  "queues_inv sv \<longleftrightarrow> (\<forall>c. live sv c \<longrightarrow> queue_ok (the_session sv c))"

text \<open>The members other than \<open>c\<close> are the same.\<close>

definition others_stay :: "ClientId \<Rightarrow> ServerCore \<Rightarrow> ServerCore \<Rightarrow> bool" where
  "others_stay c core core' \<longleftrightarrow> (\<forall>d room. d \<noteq> c \<longrightarrow> in_room core' room d = in_room core room d)"

lemma others_stay_refl [simp]: "others_stay c core core"
  by (simp add: others_stay_def)

text \<open>\<open>acts c sv sv'\<close>: lines were posted and only \<open>c\<close> may have changed its room, here and in the core.\<close>

definition acts :: "ClientId \<Rightarrow> Server \<Rightarrow> Server \<Rightarrow> bool" where
  "acts c sv sv' \<longleftrightarrow> sv_nextClientId sv' = sv_nextClientId sv \<and> (\<forall>d. live sv' d = live sv d) \<and>
     others_stay c (sv_core sv) (sv_core sv') \<and>
     (\<forall>d. \<exists>lines room. the_session sv' d = (the_session sv d)\<lparr>
        s_posted := s_posted (the_session sv d) @ map PostLine lines, s_currentRoom := room\<rparr> \<and>
        (d \<noteq> c \<longrightarrow> room = s_currentRoom (the_session sv d)))"

lemma acts_posts: "posts sv sv' \<Longrightarrow> acts c sv sv'"
  unfolding acts_def
proof (intro conjI allI)
  assume p: "posts sv sv'"
  then show "sv_nextClientId sv' = sv_nextClientId sv" by (simp add: posts_def)
  show "live sv' d = live sv d" for d using posts_live[OF p] .
  show "others_stay c (sv_core sv) (sv_core sv')"
    using p by (simp add: posts_def)
  fix d
  obtain lines where "the_session sv' d = (the_session sv d)\<lparr>
      s_posted := s_posted (the_session sv d) @ map PostLine lines\<rparr>"
    using posts_session[OF p] by blast
  then show "\<exists>lines room. the_session sv' d = (the_session sv d)\<lparr>
        s_posted := s_posted (the_session sv d) @ map PostLine lines, s_currentRoom := room\<rparr> \<and>
        (d \<noteq> c \<longrightarrow> room = s_currentRoom (the_session sv d))"
    by (intro exI[of _ lines] exI[of _ "s_currentRoom (the_session sv d)"]) simp
qed

lemma acts_trans:
  assumes "acts c sv sv'" "acts c sv' sv''"
  shows "acts c sv sv''"
  unfolding acts_def
proof (intro conjI allI)
  show "sv_nextClientId sv'' = sv_nextClientId sv" "others_stay c (sv_core sv) (sv_core sv'')"
    "live sv'' d = live sv d" for d
    using assms by (simp_all add: acts_def others_stay_def)
  fix d
  obtain l1 r1 where 1: "the_session sv' d = (the_session sv d)\<lparr>
        s_posted := s_posted (the_session sv d) @ map PostLine l1, s_currentRoom := r1\<rparr>"
      "d \<noteq> c \<longrightarrow> r1 = s_currentRoom (the_session sv d)"
    using assms(1) unfolding acts_def by blast
  obtain l2 r2 where 2: "the_session sv'' d = (the_session sv' d)\<lparr>
        s_posted := s_posted (the_session sv' d) @ map PostLine l2, s_currentRoom := r2\<rparr>"
      "d \<noteq> c \<longrightarrow> r2 = s_currentRoom (the_session sv' d)"
    using assms(2) unfolding acts_def by blast
  show "\<exists>lines room. the_session sv'' d = (the_session sv d)\<lparr>
        s_posted := s_posted (the_session sv d) @ map PostLine lines, s_currentRoom := room\<rparr> \<and>
        (d \<noteq> c \<longrightarrow> room = s_currentRoom (the_session sv d))"
    using 1 2 by (intro exI[of _ "l1 @ l2"] exI[of _ r2]) auto
qed

lemma queues_acts: "acts c sv sv' \<Longrightarrow> queues_inv sv \<Longrightarrow> queues_inv sv'"
  unfolding queues_inv_def
proof (intro allI impI)
  fix d assume a: "acts c sv sv'" "\<forall>d. live sv d \<longrightarrow> queue_ok (the_session sv d)" "live sv' d"
  obtain lines room where "the_session sv' d = (the_session sv d)\<lparr>
        s_posted := s_posted (the_session sv d) @ map PostLine lines, s_currentRoom := room\<rparr>"
    using a(1) unfolding acts_def by blast
  moreover have "queue_ok (the_session sv d)" using a unfolding acts_def by blast
  ultimately show "queue_ok (the_session sv' d)" by (simp add: queue_ok_def)
qed

lemma members_posts:
  assumes "posts sv sv'" "members_inv n sv"
  shows "members_inv n sv'"
proof -
  have "s_currentRoom (the_session sv' c) = s_currentRoom (the_session sv c)" for c
    using posts_session[OF assms(1), of c] by auto
  then show ?thesis
    using assms posts_live[OF assms(1)] by (simp add: members_inv_def posts_def)
qed

lemma members_mono: "members_inv n sv \<Longrightarrow> m \<le> n \<Longrightarrow> members_inv m sv"
  unfolding members_inv_def using core.ok_mono by fastforce

text \<open>After a call into the core that moved only client \<open>c\<close>, whose session records the move.\<close>

definition set_room :: "ClientId \<Rightarrow> ServerCore \<Rightarrow> PersistedBoardSnapshot list \<Rightarrow> RoomId option \<Rightarrow> Server \<Rightarrow> Server" where
  "set_room c core sn room sv = upd_session c (\<lambda>s. s\<lparr>s_currentRoom := room\<rparr>)
     (sv\<lparr>sv_core := core, sv_enqueued := sv_enqueued sv @ sn\<rparr>)"

lemma live_fields [simp]:
  "live (sv\<lparr>sv_core := core\<rparr>) d = live sv d" "live (sv\<lparr>sv_enqueued := sn\<rparr>) d = live sv d"
  "the_session (sv\<lparr>sv_core := core\<rparr>) d = the_session sv d"
  "the_session (sv\<lparr>sv_enqueued := sn\<rparr>) d = the_session sv d"
  "live (sv\<lparr>sv_registry := reg\<rparr>) d = live sv d"
  "the_session (sv\<lparr>sv_registry := reg\<rparr>) d = the_session sv d"
  by (simp_all add: live_def the_session_def)

lemma acts_set_room:
  assumes "live sv c" "others_stay c (sv_core sv) core"
  shows "acts c sv (set_room c core sn room sv)"
  unfolding acts_def
proof (intro conjI allI)
  fix d
  show "\<exists>lines r. the_session (set_room c core sn room sv) d = (the_session sv d)\<lparr>
        s_posted := s_posted (the_session sv d) @ map PostLine lines, s_currentRoom := r\<rparr> \<and>
        (d \<noteq> c \<longrightarrow> r = s_currentRoom (the_session sv d))"
    using assms(1) by (intro exI[of _ "[]"] exI[of _ "if d = c then room else s_currentRoom (the_session sv d)"])
      (simp add: set_room_def)
qed (simp_all add: set_room_def assms(2))

lemma members_set_room:
  assumes inv: "members_inv (Suc n) sv" and c: "live sv c" and ok: "core_ok n core"
    and others: "others_stay c (sv_core sv) core"
    and mine: "\<And>r. in_room core r c = (room = Some r)"
  shows "members_inv n (set_room c core sn room sv)"
proof -
  have "c < sv_nextClientId sv" using inv c by (simp add: members_inv_def)
  then have "in_room core r d \<Longrightarrow> d < sv_nextClientId sv" for r d
    using inv others by (cases "d = c") (auto simp: members_inv_def others_stay_def)
  moreover have "in_room core r d = (s_currentRoom (the_session (set_room c core sn room sv) d) = Some r)"
    if "live sv d" for r d
    using that inv others mine by (cases "d = c") (auto simp: members_inv_def set_room_def others_stay_def)
  ultimately show ?thesis
    using inv ok by (simp add: members_inv_def set_room_def)
qed


text \<open>\<open>serves n c m sv\<close>: \<open>m\<close> has no undefined behaviour, and keeps the invariant.\<close>

definition serves :: "nat \<Rightarrow> ClientId \<Rightarrow> 'a act \<Rightarrow> Server \<Rightarrow> bool" where
  "serves n c m sv \<longleftrightarrow> (\<exists>r sv'. m sv = Some (r, sv') \<and> acts c sv sv' \<and> members_inv n sv')"

lemma serves_posts:
  assumes "members_inv n sv" "\<And>sv. \<exists>r sv'. m sv = Some (r, sv') \<and> posts sv sv'"
  shows "serves n c m sv"
  using assms members_posts acts_posts unfolding serves_def by metis

lemma serves_set_room:
  assumes "live sv c" "others_stay c (sv_core sv) core"
    and "members_inv n (set_room c core sn room sv)"
    and "\<And>sv. \<exists>r sv'. k sv = Some (r, sv') \<and> posts sv sv'"
    and "m sv = k (set_room c core sn room sv)"
  shows "serves n c m sv"
  using serves_posts[OF assms(3,4)] acts_set_room[OF assms(1,2)] acts_trans assms(5)
  unfolding serves_def by metis

lemma serves_error:
  assumes "members_inv n sv" "m sv = sendError lib c e sv"
  shows "serves n c m sv"
  using serves_posts[OF assms(1) sendError_posts[of lib c e]] assms(2) by (simp add: serves_def)

lemma set_room_same:
  assumes "live sv c" "room = s_currentRoom (the_session sv c)"
  shows "set_room c core sn room sv = sv\<lparr>sv_core := core, sv_enqueued := sv_enqueued sv @ sn\<rparr>"
proof -
  have "sv_sessions sv c = Some (the_session sv c)" using assms(1) by (simp add: live_the_session)
  then show ?thesis using assms(2) by (simp add: set_room_def upd_session_def map_upd_triv)
qed

lemma handleJoin_serves:
  assumes inv: "members_inv (Suc n) sv" and c: "live sv c"
  shows "serves n c (handleJoin lib c room) sv"
proof -
  let ?cur = "s_currentRoom (the_session sv c)"
  have inv': "members_inv n sv" using inv by (rule members_mono) simp
  have ok: "core_ok (Suc n) (sv_core sv)" using inv by (simp add: members_inv_def)
  have err: "serves n c m sv" if "m sv = sendError lib c e sv" for m :: "unit act" and e
    using serves_error[of n sv m lib c e, OF inv' that] .
  show ?thesis
  proof (cases "?cur \<noteq> None \<and> ?cur \<noteq> Some room")
    case True
    then show ?thesis by (intro err) (simp add: handleJoin_def getCurrentRoom_def seqn_def)
  next
    case False
    note cur = False
    show ?thesis
    proof (cases "room_exists (sv_core sv) room")
      case False
      then show ?thesis using cur core.enter_missing[OF False, of c]
        by (intro err[where e = roomNotFound]) (auto simp: handleJoin_def getCurrentRoom_def core_joinRoom_def seqn_def)
    next
      case True
      obtain snap core' where j: "joinRoom (sv_core sv) c room = (Inr snap, core')" "core_ok n core'"
        "in_room core' = (in_room (sv_core sv))(room := (in_room (sv_core sv) room)(c := True))"
        using core.enter_ok[OF ok True] by blast
      then have oth: "others_stay c (sv_core sv) core'" by (simp add: others_stay_def)
      have inv1: "members_inv n (set_room c core' [] (Some room) sv)"
        using cur c inv j(3) by (intro members_set_room[OF inv c j(2) oth]) (auto simp: members_inv_def)
      show ?thesis
        by (rule serves_set_room[OF c oth inv1 deliver_posts[of lib c "toSnapshotMessage snap"]])
          (use cur j(1) in \<open>auto simp: handleJoin_def getCurrentRoom_def core_joinRoom_def seqn_def
            setCurrentRoom_def set_room_def\<close>)
    qed
  qed
qed

lemma seqn_posts:
  assumes "\<And>sv. \<exists>r sv'. m sv = Some (r, sv') \<and> posts sv sv'"
    and "\<And>v sv. \<exists>r sv'. f v sv = Some (r, sv') \<and> posts sv sv'"
  shows "\<exists>r sv'. seqn m f sv = Some (r, sv') \<and> posts sv sv'"
proof -
  obtain r sv1 where m: "m sv = Some (r, sv1)" "posts sv sv1" using assms(1) by blast
  show ?thesis
  proof (cases r)
    case (Inr v)
    then show ?thesis using m assms(2)[of v sv1] posts_trans[OF m(2)] by (auto simp: seqn_def)
  qed (use m in \<open>simp add: seqn_def\<close>)
qed

lemma left_room:
  assumes inv: "members_inv (Suc n) sv" and c: "live sv c" and cur: "s_currentRoom (the_session sv c) = Some room"
  obtains out sn core' where "leaveRoom (sv_core sv) c room = Some (Inr out, sn, core')"
    "others_stay c (sv_core sv) core'" "members_inv n (set_room c core' sn None sv)"
proof -
  have ok: "core_ok (Suc n) (sv_core sv)" and isin: "in_room (sv_core sv) room c"
    using inv c cur by (simp_all add: members_inv_def)
  obtain out sn core' where l: "leaveRoom (sv_core sv) c room = Some (Inr out, sn, core')" "core_ok n core'"
    "in_room core' = (in_room (sv_core sv))(room := (in_room (sv_core sv) room)(c := False))"
    using core.quit_ok[OF ok isin] by blast
  then have oth: "others_stay c (sv_core sv) core'" by (simp add: others_stay_def)
  have "members_inv n (set_room c core' sn None sv)"
    using c cur inv l(3) by (intro members_set_room[OF inv c l(2) oth]) (auto simp: members_inv_def)
  with l(1) oth show thesis by (rule that)
qed

lemma handleLeave_serves:
  assumes inv: "members_inv (Suc n) sv" and c: "live sv c"
  shows "serves n c (handleLeave lib c room) sv"
proof (cases "s_currentRoom (the_session sv c) = Some room")
  case False
  have "members_inv n sv" using inv by (rule members_mono) simp
  then have "serves n c (sendError lib c notInRoom) sv" by (rule serves_posts) (rule sendError_posts)
  then show ?thesis using False by (simp add: serves_def handleLeave_def getCurrentRoom_def seqn_def)
next
  case True
  obtain out sn core' where l: "leaveRoom (sv_core sv) c room = Some (Inr out, sn, core')"
    "others_stay c (sv_core sv) core'" "members_inv n (set_room c core' sn None sv)"
    using left_room[OF inv c True] by blast
  have k: "\<exists>r sv'. seqn (dispatchOutgoing lib out) (\<lambda>_. deliver lib c (OkResponse ''leave_room'' room)) sv = Some (r, sv')
      \<and> posts sv sv'" for sv
    by (intro seqn_posts dispatchOutgoing_posts deliver_posts)
  show ?thesis
    by (rule serves_set_room[OF c l(2,3) k])
      (use True l(1) in \<open>simp add: handleLeave_def getCurrentRoom_def core_leaveRoom_def seqn_def
        setCurrentRoom_def set_room_def\<close>)
qed

lemma handleDraw_serves:
  assumes inv: "members_inv (Suc n) sv" and c: "live sv c"
  shows "serves n c (handleDraw lib now c room event) sv"
proof -
  have inv': "members_inv n sv" using inv by (rule members_mono) simp
  have err: "serves n c m sv" if "m sv = sendError lib c e sv" for m :: "unit act" and e
    using serves_error[of n sv m lib c e, OF inv' that] .
  show ?thesis
  proof (cases "s_currentRoom (the_session sv c) = Some room")
    case False
    then show ?thesis by (intro err) (simp add: handleDraw_def getCurrentRoom_def seqn_def)
  next
    case cur: True
    show ?thesis
    proof (cases event)
      case (Inl e)
      then show ?thesis using cur by (intro err) (simp add: handleDraw_def getCurrentRoom_def seqn_def)
    next
      case (Inr ev)
      have ok: "core_ok (Suc n) (sv_core sv)" and isin: "in_room (sv_core sv) room c"
        using inv c cur by (simp_all add: members_inv_def)
      obtain res sn core' where h: "handleEvent (sv_core sv) now c room ev = Some (res, sn, core')"
        "core_ok n core'" "in_room core' = in_room (sv_core sv)"
        using core.event_ok[OF ok isin] by blast
      then have oth: "others_stay c (sv_core sv) core'" by (simp add: others_stay_def)
      have inv1: "members_inv n (set_room c core' sn (Some room) sv)"
        using c cur inv h(3) by (intro members_set_room[OF inv c h(2) oth]) (auto simp: members_inv_def)
      have same: "set_room c core' sn (Some room) sv = sv\<lparr>sv_core := core', sv_enqueued := sv_enqueued sv @ sn\<rparr>"
        using set_room_same[OF c cur[symmetric]] .
      have k: "\<exists>r sv'. (case res of Inl e \<Rightarrow> sendError lib c e | Inr out \<Rightarrow> dispatchOutgoing lib out) sv = Some (r, sv')
          \<and> posts sv sv'" for sv
        by (cases res) (simp_all add: sendError_posts dispatchOutgoing_posts)
      show ?thesis
        by (rule serves_set_room[OF c oth inv1 k]) (use cur Inr h(1) in \<open>simp add: handleDraw_def getCurrentRoom_def core_handleEvent_def seqn_def same\<close>)
    qed
  qed
qed

lemma handleMessage_serves:
  assumes inv: "members_inv (Suc n) sv" and c: "live sv c"
  shows "serves n c (handleMessage lib now c msg) sv"
proof -
  have inv': "members_inv n sv" using inv by (rule members_mono) simp
  have create: "serves n c (seqn core_createRoom (\<lambda>room. deliver lib c (RoomCreatedResponse room))) sv"
  proof -
    obtain rid core' where cr: "createRoom (sv_core sv) = (rid, core')" by fastforce
    have cr': "core_ok n core'" "in_room core' = in_room (sv_core sv)"
      using core.mk_ok[OF _ cr] inv by (auto simp: members_inv_def)
    let ?room = "s_currentRoom (the_session sv c)"
    have oth: "others_stay c (sv_core sv) core'" using cr'(2) by (simp add: others_stay_def)
    have inv1: "members_inv n (set_room c core' [] ?room sv)"
      using c inv cr' by (intro members_set_room[OF inv c cr'(1) oth]) (auto simp: members_inv_def)
    have same: "set_room c core' [] ?room sv = sv\<lparr>sv_core := core'\<rparr>"
      using set_room_same[OF c refl] by simp
    show ?thesis
      by (rule serves_set_room[OF c oth inv1 deliver_posts[of lib c "RoomCreatedResponse rid"]])
        (use cr cr'(2) in \<open>simp_all add: core_createRoom_def seqn_def same\<close>)
  qed
  show ?thesis
    using create serves_posts[OF inv' deliver_posts] handleJoin_serves[OF assms] handleLeave_serves[OF assms]
      handleDraw_serves[OF assms]
    by (cases msg) (simp_all add: handleMessage_def)
qed

lemma handleLine_serves:
  assumes "members_inv (Suc n) sv" "live sv c"
  shows "serves n c (handleLine lib now c line) sv"
proof -
  have "members_inv n sv" using assms(1) by (rule members_mono) simp
  then have "serves n c (sendProtocolError lib c e) sv" for e
    unfolding sendProtocolError_def by (rule serves_posts) (rule sendError_posts)
  then show ?thesis
    using handleMessage_serves[OF assms] by (cases "parseClientMessage lib line") (simp_all add: handleLine_def)
qed


lemma members_upd [simp]:
  assumes "\<And>s. s_currentRoom (f s) = s_currentRoom s"
  shows "members_inv n (upd_session c f sv) = members_inv n sv"
proof -
  have "s_currentRoom (the_session (upd_session c f sv) d) = s_currentRoom (the_session sv d)" if "live sv d" for d
    using that assms by (cases "d = c") simp_all
  then show ?thesis by (simp add: members_inv_def cong: conj_cong imp_cong)
qed

lemma members_registry [simp]: "members_inv n (sv\<lparr>sv_registry := reg\<rparr>) = members_inv n sv"
  by (simp add: members_inv_def)

lemma posts_upd:
  assumes "posts sv sv'" "\<And>s p. f (s\<lparr>s_posted := p\<rparr>) = (f s)\<lparr>s_posted := p\<rparr>" "\<And>s. s_posted (f s) = s_posted s"
  shows "posts (upd_session c f sv) (upd_session c f sv')"
proof -
  have "session_posts (f s) (f s')" if "session_posts s s'" for s s'
    using that assms(2,3) by (auto simp: session_posts_def)
  then have "rel_option (\<lambda>x y. session_posts (f x) (f y)) (sv_sessions sv d) (sv_sessions sv' d)" for d
    using assms(1) option.rel_mono_strong[of session_posts "sv_sessions sv d" "sv_sessions sv' d"
      "\<lambda>x y. session_posts (f x) (f y)"] by (simp add: posts_def)
  then show ?thesis using assms(1) by (simp add: posts_def option.rel_map)
qed

text \<open>What is left of the session of \<open>c\<close> when \<^verbatim>\<open>stopImpl\<close> has run.\<close>

definition stopped_from :: "ClientId \<Rightarrow> Server \<Rightarrow> Server \<Rightarrow> bool" where
  "stopped_from c sv sv' \<longleftrightarrow> \<not> sv_registry sv' c \<and> (\<forall>d. live sv' d = live sv d) \<and>
     sv_nextClientId sv' = sv_nextClientId sv \<and>
     others_stay c (sv_core sv) (sv_core sv') \<and>
     (\<forall>d. \<exists>lines. the_session sv' d =
        (let s = (the_session sv d)\<lparr>s_posted := s_posted (the_session sv d) @ map PostLine lines\<rparr>
         in if d = c then s\<lparr>s_stopped := True, s_open := False, s_currentRoom := None\<rparr> else s))"

lemma stopped_fromI:
  assumes c: "live sv c" and p: "posts sv0 sv2" and next0: "sv_nextClientId sv0 = sv_nextClientId sv"
    and oth: "others_stay c (sv_core sv) (sv_core sv0)"
    and sess: "sv_sessions sv0 = sv_sessions (upd_session c (\<lambda>s. s\<lparr>s_stopped := True, s_currentRoom := None\<rparr>) sv)"
  shows "stopped_from c sv ((upd_session c (\<lambda>s. s\<lparr>s_open := False\<rparr>) sv2)\<lparr>sv_registry := (sv_registry sv2)(c := False)\<rparr>)"
proof -
  have live2: "live sv2 d = live sv d" for d
    using posts_live[OF p] sess by (simp add: live_def)
  have s0: "the_session sv0 d = (if d = c then (the_session sv c)\<lparr>s_stopped := True, s_currentRoom := None\<rparr>
      else the_session sv d)" for d
    using c sess by (auto simp: the_session_def live_def)
  have "\<exists>lines. the_session (upd_session c (\<lambda>s. s\<lparr>s_open := False\<rparr>) sv2) d =
      (let s = (the_session sv d)\<lparr>s_posted := s_posted (the_session sv d) @ map PostLine lines\<rparr>
       in if d = c then s\<lparr>s_stopped := True, s_open := False, s_currentRoom := None\<rparr> else s)" for d
  proof -
    obtain lines where "the_session sv2 d =
        (the_session sv0 d)\<lparr>s_posted := s_posted (the_session sv0 d) @ map PostLine lines\<rparr>"
      using posts_session[OF p] by blast
    then show ?thesis using c live2 s0[of d] by (intro exI[of _ lines]) (cases "d = c"; simp)
  qed
  moreover have "sv_nextClientId sv2 = sv_nextClientId sv" "sv_core sv2 = sv_core sv0"
    using p next0 by (simp_all add: posts_def)
  ultimately show ?thesis using live2 oth by (simp add: stopped_from_def)
qed

lemma upd_session_twice: "upd_session c g (upd_session c f sv) = upd_session c (g \<circ> f) sv"
  by (auto simp: upd_session_def split: option.split)

lemma stopImpl_run:
  assumes inv: "members_inv (Suc n) sv" and c: "live sv c" and run: "\<not> s_stopped (the_session sv c)"
  shows "\<exists>r sv'. stopImpl lib c sv = Some (r, sv') \<and> (r = Inr () \<longrightarrow> members_inv n sv' \<and> stopped_from c sv sv')"
proof -
  let ?sv1 = "upd_session c (\<lambda>s. s\<lparr>s_stopped := True\<rparr>) sv"
  have inv1: "members_inv (Suc n) ?sv1" "live ?sv1 c" using inv c by simp_all
  show ?thesis
  proof (cases "s_currentRoom (the_session sv c)")
    case None
    have "members_inv n ?sv1" using inv1(1) by (rule members_mono) simp
    moreover have "(the_session sv c)\<lparr>s_stopped := True\<rparr> =
        (the_session sv c)\<lparr>s_stopped := True, s_currentRoom := None\<rparr>"
      using None by (cases "the_session sv c") simp
    then have "sv_sessions ?sv1 = sv_sessions (upd_session c (\<lambda>s. s\<lparr>s_stopped := True, s_currentRoom := None\<rparr>) sv)"
      using c by (simp add: upd_session_def live_the_session)
    ultimately show ?thesis
      using None run c stopped_fromI[OF c posts_refl, of ?sv1]
      by (simp add: stopImpl_def getCurrentRoom_def seqn_def reg_remove_def)
  next
    case (Some room)
    then have cur1: "s_currentRoom (the_session ?sv1 c) = Some room" using c by simp
    obtain out sn core' where l: "leaveRoom (sv_core ?sv1) c room = Some (Inr out, sn, core')"
      "members_inv n (set_room c core' sn None ?sv1)"
      and oth: "others_stay c (sv_core ?sv1) core'"
      using left_room[OF inv1 cur1] by blast
    let ?sv2 = "?sv1\<lparr>sv_core := core', sv_enqueued := sv_enqueued sv @ sn\<rparr>"
    obtain r sv3 where d: "dispatchOutgoing lib out ?sv2 = Some (r, sv3)" "posts ?sv2 sv3"
      using dispatchOutgoing_posts by blast
    let ?clear = "\<lambda>s. s\<lparr>s_currentRoom := None\<rparr>"
    have p: "posts (upd_session c ?clear ?sv2) (upd_session c ?clear sv3)"
      using d(2) by (rule posts_upd) simp_all
    have "upd_session c ?clear ?sv2 = set_room c core' sn None ?sv1" by (simp add: set_room_def)
    then have "members_inv n (upd_session c ?clear sv3)"
      using members_posts[OF p] l(2) by simp
    moreover have "stopped_from c sv ((upd_session c (\<lambda>s. s\<lparr>s_open := False\<rparr>) (upd_session c ?clear sv3))
        \<lparr>sv_registry := (sv_registry sv3)(c := False)\<rparr>)"
      using stopped_fromI[OF c p] oth by (simp add: fun_eq_iff option.map_comp comp_def option.map_ident_strong cong: option.map_cong)
    ultimately show ?thesis
      using Some run c l(1) d(1)
      by (cases r) (simp_all add: stopImpl_def getCurrentRoom_def core_leaveRoom_def seqn_def
          setCurrentRoom_def reg_remove_def)
  qed
qed


subsection \<open>One step\<close>

text \<open>
  The lines for a client, in the order in which they were or will be sent; in a step they are only
  added to, the ids of new sessions are new, and a client without a session stays where it is.
\<close>

fun posted_line :: "Posted \<Rightarrow> string list" where
  "posted_line (PostLine line) = [line]" | "posted_line _ = []"

definition outbox :: "Session \<Rightarrow> string list" where
  "outbox s = s_written s @ s_writeQueue s @ concat (map posted_line (s_posted s))"

definition progress :: "Server \<Rightarrow> Server \<Rightarrow> bool" where
  "progress sv sv' \<longleftrightarrow> sv_nextClientId sv \<le> sv_nextClientId sv' \<and>
     (\<forall>c. live sv' c \<and> c < sv_nextClientId sv \<longrightarrow>
        live sv c \<and> prefix (outbox (the_session sv c)) (outbox (the_session sv' c))) \<and>
     (\<forall>c room. \<not> live sv c \<and> c < sv_nextClientId sv \<longrightarrow>
        in_room (sv_core sv') room c = in_room (sv_core sv) room c)"

definition fine :: "nat \<Rightarrow> Server \<Rightarrow> Server \<Rightarrow> bool" where
  "fine n sv sv' \<longleftrightarrow> members_inv n sv' \<and> queues_inv sv' \<and> progress sv sv'"

lemma posted_lines [simp]: "concat (map posted_line (map PostLine lines)) = lines"
  by (induction lines) simp_all

lemma upd_session_same:
  assumes "live sv c \<Longrightarrow> f (the_session sv c) = the_session sv c"
  shows "upd_session c f sv = sv"
proof (cases "sv_sessions sv c")
  case (Some s)
  then have "f s = s" using assms by (simp add: live_def the_session_def)
  then show ?thesis using Some by (cases sv) (simp add: upd_session_def fun_upd_idem)
qed (simp add: upd_session_def)

lemma same_core: "sv\<lparr>sv_core := sv_core sv\<rparr> = sv"
  by (cases sv) simp

lemma enqueued_same: "sv\<lparr>sv_core := core, sv_enqueued := sv_enqueued sv\<rparr> = sv\<lparr>sv_core := core\<rparr>"
  by (cases sv) simp

lemma queues_upd: "queues_inv sv \<Longrightarrow> (live sv c \<Longrightarrow> queue_ok (f (the_session sv c))) \<Longrightarrow> queues_inv (upd_session c f sv)"
  unfolding queues_inv_def
proof (intro allI impI)
  fix d assume "\<forall>c. live sv c \<longrightarrow> queue_ok (the_session sv c)" "live sv c \<Longrightarrow> queue_ok (f (the_session sv c))"
    "live (upd_session c f sv) d"
  then show "queue_ok (the_session (upd_session c f sv) d)" by (cases "d = c") simp_all
qed

lemma progress_upd:
  "(live sv c \<Longrightarrow> prefix (outbox (the_session sv c)) (outbox (f (the_session sv c)))) \<Longrightarrow> progress sv (upd_session c f sv)"
  unfolding progress_def
proof (intro conjI allI impI)
  fix d assume "live sv c \<Longrightarrow> prefix (outbox (the_session sv c)) (outbox (f (the_session sv c)))"
    "live (upd_session c f sv) d \<and> d < sv_nextClientId sv"
  then show "live sv d" "prefix (outbox (the_session sv d)) (outbox (the_session (upd_session c f sv) d))"
    by (cases "d = c"; simp)+
qed simp_all

lemma progress_trans:
  assumes "progress sv sv'" "progress sv' sv''"
  shows "progress sv sv''"
proof -
  have less: "c < sv_nextClientId sv \<Longrightarrow> c < sv_nextClientId sv'" for c
    using assms(1) by (auto simp: progress_def intro: order.strict_trans2)
  have "live sv c \<and> prefix (outbox (the_session sv c)) (outbox (the_session sv'' c))"
    if "live sv'' c" "c < sv_nextClientId sv" for c
    using that less[OF that(2)] assms unfolding progress_def by (meson prefix_order.trans)
  moreover have "in_room (sv_core sv'') room c = in_room (sv_core sv) room c"
    if "\<not> live sv c" "c < sv_nextClientId sv" for c room
    using that less[OF that(2)] assms unfolding progress_def by blast
  moreover have "sv_nextClientId sv \<le> sv_nextClientId sv''"
    using assms unfolding progress_def by (meson order.trans)
  ultimately show ?thesis by (simp add: progress_def)
qed

lemma fine_upd:
  assumes "members_inv n sv" "queues_inv sv" "\<And>s. s_currentRoom (f s) = s_currentRoom s"
    and "live sv c \<Longrightarrow> queue_ok (f (the_session sv c))"
    and "live sv c \<Longrightarrow> prefix (outbox (the_session sv c)) (outbox (f (the_session sv c)))"
  shows "fine n sv (upd_session c f sv)"
  using assms queues_upd[of sv c f] progress_upd[of sv c f] by (simp add: fine_def)

lemma progress_acts:
  assumes a: "acts c sv sv'" and c: "live sv c"
  shows "progress sv sv'"
  unfolding progress_def
proof (intro conjI allI impI)
  show "sv_nextClientId sv \<le> sv_nextClientId sv'" using a by (simp add: acts_def)
  show "in_room (sv_core sv') room d = in_room (sv_core sv) room d"
    if "\<not> live sv d \<and> d < sv_nextClientId sv" for d room
  proof -
    have "d \<noteq> c" using that c by auto
    then show ?thesis using a by (simp add: acts_def others_stay_def)
  qed
  fix d assume "live sv' d \<and> d < sv_nextClientId sv"
  with a show "live sv d" by (simp add: acts_def)
  obtain lines room where "the_session sv' d = (the_session sv d)\<lparr>
      s_posted := s_posted (the_session sv d) @ map PostLine lines, s_currentRoom := room\<rparr>"
    using a unfolding acts_def by blast
  then show "prefix (outbox (the_session sv d)) (outbox (the_session sv' d))"
    by (simp add: outbox_def)
qed

lemma fine_stopped:
  assumes "stopped_from c sv sv'" "members_inv n sv'" "live sv c"
    and "\<And>d. live sv d \<Longrightarrow> d \<noteq> c \<Longrightarrow> queue_ok (the_session sv d)"
    and "writes_front (the_session sv c)"
  shows "fine n sv sv'"
proof -
  have "queue_ok (the_session sv' d) \<and> prefix (outbox (the_session sv d)) (outbox (the_session sv' d))"
    if "live sv' d" for d
  proof -
    obtain lines where "the_session sv' d =
        (let s = (the_session sv d)\<lparr>s_posted := s_posted (the_session sv d) @ map PostLine lines\<rparr>
         in if d = c then s\<lparr>s_stopped := True, s_open := False, s_currentRoom := None\<rparr> else s)"
      using assms(1) unfolding stopped_from_def by blast
    moreover have "live sv d" using that assms(1) by (simp add: stopped_from_def)
    ultimately show ?thesis
      using assms(4)[of d] assms(5) by (cases "d = c") (simp_all add: queue_ok_def outbox_def Let_def)
  qed
  then show ?thesis
    using assms(1-3) by (simp add: fine_def queues_inv_def progress_def stopped_from_def others_stay_def) metis
qed

lemma fine_trans:
  assumes "fine n sv sv'" "fine m sv' sv''"
  shows "fine m sv sv''"
  using assms progress_trans unfolding fine_def by blast

lemma fine_refl: "members_inv n sv \<Longrightarrow> queues_inv sv \<Longrightarrow> fine n sv sv"
  by (simp add: fine_def progress_def)

lemma stopImpl_fine:
  assumes "members_inv (Suc n) sv" "queues_inv sv" "live sv c"
  shows "\<exists>r sv'. stopImpl lib c sv = Some (r, sv') \<and> (r = Inr () \<longrightarrow> fine n sv sv')"
proof (cases "s_stopped (the_session sv c)")
  case True
  then show ?thesis
    using fine_refl[OF members_mono[OF assms(1)] assms(2)] by (simp add: stopImpl_def)
next
  case False
  have "fine n sv sv'" if "stopped_from c sv sv'" "members_inv n sv'" for sv'
    using assms(2,3) by (intro fine_stopped[OF that assms(3)]) (simp_all add: queues_inv_def queue_ok_def)
  then show ?thesis using stopImpl_run[OF assms(1,3) False] by blast
qed

lemma onReadLine_fine:
  assumes "members_inv (Suc n) sv" "queues_inv sv" "live sv c"
  shows "\<exists>r sv'. onReadLine lib now c input sv = Some (r, sv') \<and> (r = Inr () \<longrightarrow> fine n sv sv')"
proof (cases input)
  case None
  then show ?thesis using stopImpl_fine[OF assms] by (simp add: onReadLine_def)
next
  case (Some line)
  obtain r sv1 where h: "handleLine lib now c line sv = Some (r, sv1)" "acts c sv sv1" "members_inv n sv1"
    using handleLine_serves[OF assms(1,3)] unfolding serves_def by blast
  have q: "queues_inv sv1" using queues_acts[OF h(2) assms(2)] .
  have f1: "fine n sv sv1" using h(3) q progress_acts[OF h(2) assms(3)] by (simp add: fine_def)
  let ?f = "\<lambda>s. s\<lparr>s_read := RPending\<rparr>"
  have "fine n sv1 (upd_session c ?f sv1)"
    using q by (intro fine_upd[OF h(3) q]) (simp_all add: queues_inv_def queue_ok_def outbox_def)
  then have "fine n sv (upd_session c ?f sv1)"
    by (rule fine_trans[OF f1])
  then show ?thesis
    using h(1) f1 Some by (cases r) (auto simp: onReadLine_def doReadLine_def seqn_def)
qed


lemma onWrite_fails_fine:
  assumes inv: "members_inv (Suc n) sv" and q: "queues_inv sv" and c: "live sv c"
  shows "\<exists>r sv'. onWrite lib c None (upd_session c (\<lambda>s. s\<lparr>s_writing := []\<rparr>) sv) = Some (r, sv') \<and>
    (r = Inr () \<longrightarrow> fine n sv sv')"
proof (cases "s_stopped (the_session sv c)")
  case True
  let ?sv1 = "upd_session c (\<lambda>s. s\<lparr>s_writing := []\<rparr>) sv"
  have "fine n sv ?sv1"
    using True by (intro fine_upd[OF members_mono[OF inv] q]) (simp_all add: queue_ok_def outbox_def)
  then show ?thesis using True c by (simp add: onWrite_def stopImpl_def)
next
  case False
  let ?sv1 = "upd_session c (\<lambda>s. s\<lparr>s_writing := []\<rparr>) sv"
  obtain r sv' where st: "stopImpl lib c ?sv1 = Some (r, sv')"
    "r = Inr () \<longrightarrow> members_inv n sv' \<and> stopped_from c ?sv1 sv'"
    using stopImpl_run[of n ?sv1 c lib] inv c False by auto
  have "fine n sv sv'" if "members_inv n sv'" "stopped_from c ?sv1 sv'"
  proof -
    have "fine n ?sv1 sv'"
      using q c by (intro fine_stopped[OF that(2,1)]) (simp_all add: queues_inv_def)
    moreover have "progress sv ?sv1" by (rule progress_upd) (simp add: outbox_def)
    ultimately show ?thesis using progress_trans by (auto simp: fine_def)
  qed
  then show ?thesis using st by (auto simp: onWrite_def)
qed

lemma onWrite_fine:
  assumes inv: "members_inv (Suc n) sv" and q: "queues_inv sv" and c: "live sv c"
    and w: "s_writing (the_session sv c) = w # ws"
  shows "\<exists>r sv'. onWrite lib c (if ok then Some w else None) (upd_session c (\<lambda>s. s\<lparr>s_writing := ws\<rparr>) sv) = Some (r, sv') \<and>
    (r = Inr () \<longrightarrow> fine n sv sv')"
proof -
  have "writes_front (the_session sv c)" using q c by (simp add: queues_inv_def queue_ok_def)
  then obtain rest where lr: "s_writeQueue (the_session sv c) = w # rest" "ws = []"
    using writes_frontD[OF _ w] by blast
  let ?sv1 = "upd_session c (\<lambda>s. s\<lparr>s_writing := []\<rparr>) sv"
  show ?thesis
  proof (cases ok)
    case True
    let ?pop = "\<lambda>s. s\<lparr>s_writing := [], s_writeQueue := rest, s_written := s_written s @ [w]\<rparr>"
    let ?again = "\<lambda>s. s\<lparr>s_writeQueue := rest, s_written := s_written s @ [w], s_writing := [hd rest]\<rparr>"
    have "onWrite lib c (Some w) ?sv1 = Some (Inr (),
        upd_session c (if rest = [] \<or> s_stopped (the_session sv c) then ?pop else ?again) sv)"
      using lr c by (simp add: onWrite_def doWrite_def upd_session_twice comp_def)
    moreover have "fine n sv (upd_session c (if rest = [] \<or> s_stopped (the_session sv c) then ?pop else ?again) sv)"
      using lr by (intro fine_upd[OF members_mono[OF inv] q])
        (auto simp: queue_ok_def writes_front_def outbox_def take_Suc)
    ultimately show ?thesis unfolding lr(2) using True by simp
  next
    case False
    then show ?thesis using onWrite_fails_fine[OF inv q c, of lib] lr by simp
  qed
qed


lemma runPosted_fine:
  assumes inv: "members_inv (Suc n) sv" and q: "queues_inv sv" and c: "live sv c"
    and p: "s_posted (the_session sv c) = h # hs"
  shows "\<exists>r sv'. runPosted lib c h (upd_session c (\<lambda>s. s\<lparr>s_posted := hs\<rparr>) sv) = Some (r, sv') \<and>
    (r = Inr () \<longrightarrow> fine n sv sv')"
proof -
  let ?sv1 = "upd_session c (\<lambda>s. s\<lparr>s_posted := hs\<rparr>) sv"
  have inv': "members_inv n sv" using inv by (rule members_mono) simp
  have qc: "queue_ok (the_session sv c)" using q c by (simp add: queues_inv_def)
  have q1: "queues_inv ?sv1" using q by (rule queues_upd) (use qc in \<open>simp add: queue_ok_def\<close>)
  show ?thesis
  proof (cases h)
    case PostRead
    have "fine n sv (upd_session c (if s_stopped (the_session sv c) then (\<lambda>s. s\<lparr>s_posted := hs\<rparr>)
        else (\<lambda>s. s\<lparr>s_posted := hs, s_read := RPending\<rparr>)) sv)"
      using PostRead p qc by (intro fine_upd[OF inv' q]) (auto simp: queue_ok_def outbox_def)
    moreover have "runPosted lib c h ?sv1 = Some (Inr (), upd_session c (if s_stopped (the_session sv c)
        then (\<lambda>s. s\<lparr>s_posted := hs\<rparr>) else (\<lambda>s. s\<lparr>s_posted := hs, s_read := RPending\<rparr>)) sv)"
      using PostRead c by (simp add: runPosted_def doReadLine_def upd_session_twice comp_def)
    ultimately show ?thesis by (intro exI conjI impI)
  next
    case PostStop
    obtain r sv' where st: "stopImpl lib c ?sv1 = Some (r, sv')" "r = Inr () \<longrightarrow> fine n ?sv1 sv'"
      using stopImpl_fine[of n ?sv1 c lib] inv q1 c by auto
    have "progress sv ?sv1" using PostStop p by (intro progress_upd) (simp add: outbox_def)
    then have "fine n sv sv'" if "fine n ?sv1 sv'"
      using that progress_trans by (auto simp: fine_def)
    then show ?thesis using st PostStop by (auto simp: runPosted_def)
  next
    case (PostLine line)
    let ?wait = "\<lambda>s. s\<lparr>s_posted := hs, s_writeQueue := s_writeQueue s @ [line]\<rparr>"
    let ?send = "\<lambda>s. s\<lparr>s_posted := hs, s_writeQueue := s_writeQueue s @ [line],
      s_writing := s_writing s @ [hd (s_writeQueue s @ [line])]\<rparr>"
    let ?f = "if s_writeQueue (the_session sv c) = [] \<and> \<not> s_stopped (the_session sv c) then ?send else ?wait"
    have "fine n sv (upd_session c ?f sv)"
      using PostLine p qc by (intro fine_upd[OF inv' q]) (auto simp: queue_ok_def writes_front_def outbox_def Suc_le_eq)
    moreover have "runPosted lib c h ?sv1 = Some (Inr (), upd_session c ?f sv)"
      using PostLine c by (simp add: runPosted_def doWrite_def upd_session_twice comp_def Let_def)
    ultimately show ?thesis by (intro exI conjI impI)
  qed
qed

lemma add_session_fine:
  assumes inv: "members_inv (Suc n) sv" and q: "queues_inv sv"
  shows "\<exists>sv'. add_session sv = Some (Inr (), sv') \<and> fine n sv sv' \<and> sv_acceptor sv' = sv_acceptor sv"
proof -
  let ?c = "sv_nextClientId sv"
  let ?new = "new_session\<lparr>s_posted := [PostRead]\<rparr>"
  define sv' where "sv' = sv\<lparr>sv_nextClientId := ?c + 1, sv_sessions := (sv_sessions sv)(?c \<mapsto> ?new),
    sv_registry := (sv_registry sv)(?c := True)\<rparr>"
  have run: "add_session sv = Some (Inr (), sv')"
    by (simp add: add_session_def seqn_def reg_add_def session_start_def post_def Let_def upd_session_def
        sv'_def new_session_def)
  have old: "d < ?c" if "live sv d \<or> in_room (sv_core sv) room d" for d room
    using that inv by (auto simp: members_inv_def)
  have bound: "unat ?c + 1 < 2 ^ 64" using inv by (simp add: members_inv_def)
  have live': "live sv' d \<longleftrightarrow> d = ?c \<or> live sv d" for d by (auto simp: live_def sv'_def)
  have ses': "the_session sv' d = (if d = ?c then ?new else the_session sv d)" for d
    by (simp add: the_session_def sv'_def)
  have fields: "sv_nextClientId sv' = ?c + 1" "sv_core sv' = sv_core sv" by (simp_all add: sv'_def)
  have less: "d < ?c + 1" if "d = ?c \<or> d < ?c" for d
    using that less_succ[OF bound] less_succ_trans[OF _ bound] by blast
  have "members_inv n sv'"
    unfolding members_inv_def
  proof (intro conjI allI impI)
    show "core_ok n (sv_core sv')" using inv core_ok_mono by (auto simp: members_inv_def fields)
    show "unat (sv_nextClientId sv') + n < 2 ^ 64"
      using inv unat_succ[OF bound] by (simp add: members_inv_def fields)
    show "d < sv_nextClientId sv'" if "live sv' d" for d
      using that less old by (auto simp: live' fields)
    show "d < sv_nextClientId sv'" if "in_room (sv_core sv') room d" for room d
      using that less old by (auto simp: fields)
    show "in_room (sv_core sv') room d = (s_currentRoom (the_session sv' d) = Some room)" if "live sv' d" for d room
      using that inv old[of ?c room] by (auto simp: live' ses' members_inv_def fields new_session_def)
  qed
  moreover have "queues_inv sv'"
    using q by (auto simp: queues_inv_def live' ses' queue_ok_def writes_front_def new_session_def)
  moreover have "progress sv sv'"
    using less[of ?c] by (auto simp: progress_def ses' live' fields)
  moreover have "sv_acceptor sv' = sv_acceptor sv" by (simp add: sv'_def)
  ultimately show ?thesis using run by (simp add: fine_def)
qed

lemma acceptor_fields [simp]:
  "members_inv n (sv\<lparr>sv_acceptor := a\<rparr>) = members_inv n sv" "queues_inv (sv\<lparr>sv_acceptor := a\<rparr>) = queues_inv sv"
  "progress (sv\<lparr>sv_acceptor := a\<rparr>) sv' = progress sv sv'" "progress sv' (sv\<lparr>sv_acceptor := a\<rparr>) = progress sv' sv"
  "enabled (sv\<lparr>sv_acceptor := a\<rparr>) (OnRead now c) = enabled sv (OnRead now c)"
  by (simp_all add: members_inv_def queues_inv_def progress_def live_def the_session_def enabled_def)

lemma fine_acceptor [simp]:
  "fine n (sv\<lparr>sv_acceptor := a\<rparr>) sv' = fine n sv sv'" "fine n sv (sv'\<lparr>sv_acceptor := a\<rparr>) = fine n sv sv'"
  by (simp_all add: fine_def)

lemma onAccept_fine:
  assumes "members_inv (Suc n) sv" "queues_inv sv"
  shows "\<exists>sv'. seqn accept_done (\<lambda>_. onAccept ec) sv = Some (Inr (), sv') \<and> fine n sv sv'"
proof (cases ec)
  case True
  then show ?thesis using fine_refl[OF members_mono[OF assms(1)] assms(2)]
    by (auto simp: seqn_def accept_done_def onAccept_def doAccept_def)
next
  case False
  let ?sv = "sv\<lparr>sv_acceptor := (sv_acceptor sv)\<lparr>acc_pending := False\<rparr>\<rparr>"
  obtain sv' where "add_session ?sv = Some (Inr (), sv')" "fine n ?sv sv'"
    using add_session_fine[of n ?sv] assms by auto
  then show ?thesis using False by (auto simp: seqn_def accept_done_def onAccept_def doAccept_def)
qed

text \<open>A change of a session that touches neither its room nor its lines, and the two ways a read ends.\<close>

lemma fine_session:
  assumes "members_inv (Suc n) sv" "queues_inv sv"
    and "\<And>s. s_currentRoom (f s) = s_currentRoom s" "\<And>s. queue_ok (f s) = queue_ok s" "\<And>s. outbox (f s) = outbox s"
  shows "fine n sv (upd_session c f sv)"
proof -
  have "members_inv n sv" using assms(1) by (rule members_mono) simp
  then show ?thesis using assms(2-5) by (intro fine_upd) (simp_all add: queues_inv_def)
qed

lemma read_end_fine:
  assumes "members_inv (Suc n) sv" "queues_inv sv" "live sv c"
  shows "\<exists>r sv'. onReadLine lib now c input (upd_session c (\<lambda>s. s\<lparr>s_read := RIdle\<rparr>) sv) = Some (r, sv') \<and>
    (r = Inr () \<longrightarrow> fine n sv sv')"
proof -
  let ?sv1 = "upd_session c (\<lambda>s. s\<lparr>s_read := RIdle\<rparr>) sv"
  have f1: "fine n sv ?sv1" by (rule fine_session[OF assms(1,2)]) (simp_all add: queue_ok_def outbox_def)
  obtain r sv' where "onReadLine lib now c input ?sv1 = Some (r, sv')" "r = Inr () \<longrightarrow> fine n ?sv1 sv'"
    using onReadLine_fine[of n ?sv1 c lib now input] assms(1,3) f1[unfolded fine_def] by auto
  then show ?thesis using fine_trans[OF f1] by auto
qed

lemma destroy_fine:
  assumes "members_inv n sv" "queues_inv sv"
  shows "fine n sv (sv\<lparr>sv_sessions := (sv_sessions sv)(c := None)\<rparr>)"
proof -
  let ?sv' = "sv\<lparr>sv_sessions := (sv_sessions sv)(c := None)\<rparr>"
  have "live ?sv' d \<longleftrightarrow> d \<noteq> c \<and> live sv d" "d \<noteq> c \<Longrightarrow> the_session ?sv' d = the_session sv d" for d
    by (auto simp: live_def the_session_def)
  then show ?thesis using assms by (auto simp: fine_def members_inv_def queues_inv_def progress_def)
qed

lemma step_fine:
  assumes inv: "members_inv (Suc n) sv" and q: "queues_inv sv" and en: "enabled sv l"
  shows "\<exists>r sv'. run_label lib l sv = Some (r, sv') \<and> (r = Inr () \<longrightarrow> fine n sv sv')"
proof -
  have inv': "members_inv n sv" using inv by (rule members_mono) simp
  note simple = fine_session[OF inv q] and read = read_end_fine[OF inv q]
  show ?thesis
  proof (cases l)
    case Accept
    then show ?thesis using onAccept_fine[OF inv q, of False] by (auto simp: run_label_def)
  next
    case AcceptFails
    then show ?thesis using onAccept_fine[OF inv q, of True] by (auto simp: run_label_def)
  next
    case (Receive c line)
    then show ?thesis using simple[of "\<lambda>s. s\<lparr>s_read := RReady line\<rparr>" c]
      by (simp add: run_label_def queue_ok_def outbox_def)
  next
    case (OnRead now c)
    then obtain line where "s_read (the_session sv c) = RReady line"
      using en by (auto simp: enabled_def split: ReadOp.splits)
    then show ?thesis using OnRead en read[of c lib now "Some line"] by (simp add: run_label_def enabled_def)
  next
    case (ReadFails c)
    then show ?thesis using en read[of c lib 0 None] by (simp add: run_label_def enabled_def)
  next
    case (WriteEnds c ok)
    then obtain w ws where "s_writing (the_session sv c) = w # ws" using en by (auto simp: enabled_def neq_Nil_conv)
    then show ?thesis using WriteEnds en onWrite_fine[OF inv q, of c w ws lib ok] by (simp add: run_label_def enabled_def)
  next
    case (RunPosted c)
    then obtain h hs where "s_posted (the_session sv c) = h # hs"
      using en by (auto simp: enabled_def neq_Nil_conv)
    then show ?thesis using RunPosted en runPosted_fine[OF inv q, of c h hs lib] by (simp add: run_label_def enabled_def)
  next
    case (StopCall c)
    then show ?thesis using simple[of "\<lambda>s. s\<lparr>s_posted := s_posted s @ [PostStop]\<rparr>" c]
      by (simp add: run_label_def session_stop_def post_def queue_ok_def outbox_def)
  next
    case (Destroy c)
    then show ?thesis using destroy_fine[OF inv' q, of c] by (simp add: run_label_def)
  qed
qed

end
