(* ===== verification/CS_Session_Run.thy ===== *)
theory CS_Session_Run
  imports CS_Session
begin

text \<open>
  Whole runs of the network server: the theorems about \<open>server_run\<close>, for every interleaving of
  accepted connections, received lines, finished writes, failures and stops.
\<close>

lemma started_server_inv:
  assumes "2 * n + 3 < 2 ^ 64"
  shows "members_inv n (started_server (new_core sink))" "queues_inv (started_server (new_core sink))"
proof -
  have "core_ok n (new_core sink)" using assms by (intro new_core_ok) simp
  moreover have "\<not> in_room (new_core sink) room c" for room c
    by (simp add: in_room_def new_core_def new_manager_def getRoom_def)
  ultimately show "members_inv n (started_server (new_core sink))" "queues_inv (started_server (new_core sink))"
    using assms by (simp_all add: members_inv_def queues_inv_def started_server_def live_def)
qed

lemma server_run_inv:
  assumes "server_run lib sv0 tr sv" "members_inv (length tr + n) sv0" "queues_inv sv0"
  shows "members_inv n sv \<and> queues_inv sv \<and> progress sv0 sv"
  using assms
proof (induction arbitrary: n rule: server_run.induct)
  case idle
  then show ?case by (simp add: progress_def)
next
  case (step tr sv l sv')
  then have ih: "members_inv (Suc n) sv" "queues_inv sv" "progress sv0 sv"
    using step.IH[of "Suc n"] by simp_all
  then have "fine n sv sv'"
    using step_fine[OF ih(1,2) step.hyps(2), of lib] step.hyps(3) by auto
  then show ?case using progress_trans[OF ih(3)] by (simp add: fine_def)
qed

text \<open>
  Sessions and rooms agree. In every run of the server a live session's \<^verbatim>\<open>currentRoom_\<close> is exactly
  the room that has its client as a member; a session that is not stopped and has lines queued has a
  write outstanding, and a write outstanding has its line at the head of the queue; and no handler
  that can run next has undefined behaviour (an index outside the stroke vector, \<^verbatim>\<open>pop_front\<close> on an
  empty queue).
\<close>

theorem server_runs_consistent:
  assumes "server_run lib (started_server (new_core sink)) tr sv" "2 * length tr + 5 < 2 ^ 64"
  shows "(\<forall>c room. live sv c \<longrightarrow>
       in_room (sv_core sv) room c = (s_currentRoom (the_session sv c) = Some room)) \<and>
    (\<forall>c. live sv c \<longrightarrow> queue_ok (the_session sv c)) \<and>
    (\<forall>l. enabled sv l \<longrightarrow> run_label lib l sv \<noteq> None)"
proof -
  have inv: "members_inv (Suc 0) sv" "queues_inv sv"
    using server_run_inv[OF assms(1), of "Suc 0"] started_server_inv[of "length tr + Suc 0" sink] assms(2) by auto
  have "run_label lib l sv \<noteq> None" if "enabled sv l" for l
    using step_fine[OF inv that, of lib] by auto
  then show ?thesis using inv by (auto simp: members_inv_def queues_inv_def)
qed

text \<open>
  Messages to a client are neither lost, reordered nor repeated: the lines already sent, queued
  and posted to a session are at any later time the first lines of that session, in this order.
\<close>

theorem lines_keep_order:
  assumes "server_run lib (started_server (new_core sink)) tr sv" "server_run lib sv tr' sv'"
    and "2 * (length tr + length tr') + 3 < 2 ^ 64" "live sv c" "live sv' c"
  shows "prefix (s_written (the_session sv c) @ s_writeQueue (the_session sv c) @
      concat (map posted_line (s_posted (the_session sv c)))) (outbox (the_session sv' c))"
proof -
  have "members_inv (length tr + length tr') (started_server (new_core sink))" "queues_inv (started_server (new_core sink))"
    using started_server_inv[OF assms(3)] by simp_all
  then have inv: "members_inv (length tr') sv" "queues_inv sv"
    using server_run_inv[OF assms(1)] by blast+
  then have "progress sv sv'" "c < sv_nextClientId sv"
    using server_run_inv[OF assms(2), of 0] assms(4) by (auto simp: members_inv_def)
  then show ?thesis using assms(5) by (simp add: progress_def outbox_def)
qed


subsection \<open>Evaluating runs\<close>

fun run_labels :: "'j JsonLib \<Rightarrow> ServerLabel list \<Rightarrow> Server \<Rightarrow> Server option" where
  "run_labels lib [] sv = Some sv"
| "run_labels lib (l # ls) sv =
     (if enabled sv l then case run_label lib l sv of Some (Inr _, sv') \<Rightarrow> run_labels lib ls sv' | _ \<Rightarrow> None
      else None)"

lemma server_run_prepend:
  assumes "server_run lib sv1 tr sv'" "enabled sv l" "run_label lib l sv = Some (Inr (), sv1)"
  shows "server_run lib sv (l # tr) sv'"
  using assms
proof (induction rule: server_run.induct)
  case idle
  then show ?case using server_run.step[OF server_run.idle] by fastforce
next
  case (step tr v m v')
  then show ?case using server_run.step[of lib sv "l # tr" v m v'] by simp
qed

lemma run_labels_run: "run_labels lib tr sv = Some sv' \<Longrightarrow> server_run lib sv tr sv'"
proof (induction tr arbitrary: sv)
  case (Cons l tr)
  then obtain sv1 where "enabled sv l" "run_label lib l sv = Some (Inr (), sv1)" "run_labels lib tr sv1 = Some sv'"
    by (auto split: if_splits option.splits prod.splits sum.splits)
  then show ?case using Cons.IH server_run_prepend by blast
qed (simp add: server_run.idle)

lemmas server_eval = core_eval enabled_def run_label_def live_def the_session_def upd_session_def onAccept_def add_session_def
  accept_done_def doAccept_def
  reg_add_def session_start_def post_def new_session_def started_server_def runPosted_def doReadLine_def
  onReadLine_def handleLine_def handleMessage_def core_createRoom_def deliver_def seqn_def doWrite_def
  onWrite_def stopImpl_def getCurrentRoom_def reg_remove_def handleJoin_def core_joinRoom_def
  setCurrentRoom_def ret_def modify_def Let_def

definition late_read :: "string \<Rightarrow> string \<Rightarrow> ServerLabel list" where
  "late_read l1 l2 = [Accept, RunPosted 1, Receive 1 l1, OnRead 0 1, RunPosted 1, Receive 1 l2,
     WriteEnds 1 False, OnRead 0 1, RunPosted 1, Destroy 1]"

lemma late_read_run:
  assumes "parseClientMessage lib l1 = Inr CreateRoomRequest" "parseClientMessage lib l2 = Inr (JoinRoomRequest 1)"
    and "CHR 0x0A \<notin> set l1" "CHR 0x0A \<notin> set l2" "\<And>m. finite_message m \<Longrightarrow> serializeServerMessage lib m = Inr (ser m)"
  shows "\<exists>sv. run_labels lib (late_read l1 l2) (started_server (new_core sink)) = Some sv \<and>
    \<not> live sv 1 \<and> \<not> sv_registry sv 1 \<and> in_room (sv_core sv) 1 1 \<and> 1 < sv_nextClientId sv"
  using assms by (simp add: late_read_def server_eval in_room_def toSnapshotMessage_def)

text \<open>What the laws of the library give: every request with finite coordinates has a line, every finite message is printed.\<close>

lemma request_line:
  assumes "json_laws lib pr" "finite_request msg"
  obtains line where "CHR 0x0A \<notin> set line" "parseClientMessage lib line = Inr msg"
  using json_printD(7)[OF assms(1) request_printable[OF assms]] parse_request[OF assms] by blast

lemma finite_serialize:
  assumes "json_laws lib pr"
  obtains ser where "\<And>m. finite_message m \<Longrightarrow> serializeServerMessage lib m = Inr (ser m)"
proof -
  have "\<forall>m. \<exists>line. finite_message m \<longrightarrow> serializeServerMessage lib m = Inr line"
    using json_printD(7)[OF assms message_printable[OF assms]] unfolding serializeServerMessage_def by blast
  then show thesis using that by (metis choice)
qed

text \<open>
  C37: A read that completes just before a session stops is still handled. For every JSON library with the documented
  behaviour there are two lines, a request to create a room and one to join it, with which this happens: a write fails while
  the read of the second waits for its turn, \<^verbatim>\<open>stopImpl\<close> runs first, and the join request after it is served all
  the same. The client becomes a member of the room after its session was stopped, removed from the
  registry and destroyed, and it stays a member in every continuation, so the room is never empty
  again.
\<close>

theorem late_read_leaves_ghost:
  assumes "json_laws lib pr"
  shows "\<exists>l1 l2 sv. parseClientMessage lib l1 = Inr CreateRoomRequest \<and> parseClientMessage lib l2 = Inr (JoinRoomRequest 1) \<and>
    server_run lib (started_server (new_core sink)) (late_read l1 l2) sv \<and> \<not> live sv 1 \<and> \<not> sv_registry sv 1 \<and>
    (\<forall>tr sv'. server_run lib sv tr sv' \<and> 2 * (length tr + 10) + 3 < 2 ^ 64 \<longrightarrow> in_room (sv_core sv') 1 1)"
proof -
  obtain l1 where l1: "CHR 0x0A \<notin> set l1" "parseClientMessage lib l1 = Inr CreateRoomRequest"
    by (rule request_line[OF assms, of CreateRoomRequest]) simp_all
  obtain l2 where l2: "CHR 0x0A \<notin> set l2" "parseClientMessage lib l2 = Inr (JoinRoomRequest 1)"
    by (rule request_line[OF assms, of "JoinRoomRequest 1"]) simp_all
  obtain ser where ser: "\<And>m. finite_message m \<Longrightarrow> serializeServerMessage lib m = Inr (ser m)"
    by (rule finite_serialize[OF assms]) blast
  obtain sv where sv: "run_labels lib (late_read l1 l2) (started_server (new_core sink)) = Some sv"
    "\<not> live sv 1" "\<not> sv_registry sv 1" "in_room (sv_core sv) 1 1" "1 < sv_nextClientId sv"
    using late_read_run[OF l1(2) l2(2) l1(1) l2(1) ser] by blast
  have run: "server_run lib (started_server (new_core sink)) (late_read l1 l2) sv"
    by (rule run_labels_run[OF sv(1)])
  have "in_room (sv_core sv') 1 1" if r: "server_run lib sv tr sv'" "2 * (length tr + 10) + 3 < 2 ^ 64" for tr sv'
  proof -
    have "members_inv (length (late_read l1 l2) + length tr) (started_server (new_core sink))"
      "queues_inv (started_server (new_core sink))"
      using r(2) started_server_inv[of "length (late_read l1 l2) + length tr" sink] by (simp_all add: late_read_def)
    then have "members_inv (length tr + 0) sv" "queues_inv sv" using server_run_inv[OF run] by auto
    then have "progress sv sv'" using server_run_inv[OF r(1)] by blast
    then show ?thesis using sv(2,4,5) by (simp add: progress_def)
  qed
  then show ?thesis using l1(2) l2(2) run sv(2,3) by blast
qed

lemmas plain_request = request_line[OF plain_json_laws]

lemma plain_serialize: "\<exists>ser. \<forall>m. serializeServerMessage plain_json m = Inr (ser m)"
proof -
  have "\<forall>m. \<exists>line. serializeServerMessage plain_json m = Inr line"
    by (simp add: serializeServerMessage_def plain_json_def)
  then show ?thesis by (rule choice)
qed

theorem late_read_leaves_ghost_witness:
  "\<exists>l1 l2 sv. server_run plain_json (started_server (new_core True)) (late_read l1 l2) sv \<and> \<not> live sv 1 \<and>
     in_room (sv_core sv) 1 1"
proof -
  obtain l1 l2 sv where sv: "server_run plain_json (started_server (new_core True)) (late_read l1 l2) sv" "\<not> live sv 1"
    "\<forall>tr sv'. server_run plain_json sv tr sv' \<and> 2 * (length tr + 10) + 3 < 2 ^ 64 \<longrightarrow> in_room (sv_core sv') 1 1"
    using late_read_leaves_ghost[OF plain_json_laws, of True] by blast
  have "in_room (sv_core sv) 1 1"
    using sv(3)[THEN spec, of "[]", THEN spec, of sv] server_run.idle[of plain_json sv] by simp
  then show ?thesis using sv by blast
qed

text \<open>
  C27: Stopping cleans up, once. After a completed \<^verbatim>\<open>stopImpl\<close> of a session in any run the client is in no
  room, the session is marked stopped with its socket closed and no current room, its registry entry
  is gone, and a second \<^verbatim>\<open>stopImpl\<close> changes nothing.
\<close>

theorem stop_cleans_up:
  assumes "server_run lib (started_server (new_core sink)) tr sv" "2 * length tr + 5 < 2 ^ 64" "live sv c"
    and "\<not> s_stopped (the_session sv c)" "stopImpl lib c sv = Some (Inr (), sv')"
  shows "(\<forall>room. \<not> in_room (sv_core sv') room c) \<and> \<not> sv_registry sv' c \<and>
    s_stopped (the_session sv' c) \<and> \<not> s_open (the_session sv' c) \<and> s_currentRoom (the_session sv' c) = None \<and>
    stopImpl lib c sv' = Some (Inr (), sv')"
proof -
  have inv: "members_inv (Suc 0) sv"
    using server_run_inv[OF assms(1), of "Suc 0"] started_server_inv[of "length tr + Suc 0" sink] assms(2) by auto
  have st: "members_inv 0 sv'" "stopped_from c sv sv'"
    using stopImpl_run[OF inv assms(3,4), of lib] assms(5) by auto
  obtain lines where "the_session sv' c = (the_session sv c)\<lparr>
      s_posted := s_posted (the_session sv c) @ map PostLine lines,
      s_stopped := True, s_open := False, s_currentRoom := None\<rparr>"
    using st(2) unfolding stopped_from_def Let_def by metis
  moreover have "live sv' c" using st(2) assms(3) by (simp add: stopped_from_def)
  ultimately show ?thesis
    using st by (simp add: members_inv_def stopped_from_def stopImpl_def)
qed

definition join_run :: "string \<Rightarrow> string \<Rightarrow> ServerLabel list" where
  "join_run l1 l2 = [Accept, RunPosted 1, Receive 1 l1, OnRead 0 1, Receive 1 l2, OnRead 0 1]"

lemma join_run_exec:
  assumes "parseClientMessage lib l1 = Inr CreateRoomRequest" "parseClientMessage lib l2 = Inr (JoinRoomRequest 1)"
    and "CHR 0x0A \<notin> set l1" "CHR 0x0A \<notin> set l2" "\<And>m. serializeServerMessage lib m = Inr (ser m)"
  shows "\<exists>sv. run_labels lib (join_run l1 l2) (started_server (new_core sink)) = Some sv \<and> live sv 1 \<and>
    s_currentRoom (the_session sv 1) = Some 1 \<and> \<not> s_stopped (the_session sv 1) \<and>
    (\<exists>a b. outbox (the_session sv 1) = [a, b]) \<and>
    (\<exists>sv'. stopImpl lib 1 sv = Some (Inr (), sv')) \<and>
    (\<exists>sv'. run_labels lib [RunPosted 1, WriteEnds 1 True] sv = Some sv' \<and> live sv' 1)"
  using assms by (simp add: join_run_def server_eval outbox_def core_leaveRoom_def)

lemma join_run_short: "2 * length (join_run l1 l2) + 5 < 2 ^ 64"
  by (simp add: join_run_def)

lemma plain_join_run:
  obtains l1 l2 sv a b sv1 sv2 where "server_run plain_json (started_server (new_core True)) (join_run l1 l2) sv" "live sv 1"
    "s_currentRoom (the_session sv 1) = Some 1" "\<not> s_stopped (the_session sv 1)"
    "outbox (the_session sv 1) = [a, b]" "stopImpl plain_json 1 sv = Some (Inr (), sv1)"
    "server_run plain_json sv [RunPosted 1, WriteEnds 1 True] sv2" "live sv2 1"
proof -
  obtain l1 where l1: "CHR 0x0A \<notin> set l1" "parseClientMessage plain_json l1 = Inr CreateRoomRequest"
    by (rule plain_request[of CreateRoomRequest]) simp_all
  obtain l2 where l2: "CHR 0x0A \<notin> set l2" "parseClientMessage plain_json l2 = Inr (JoinRoomRequest 1)"
    by (rule plain_request[of "JoinRoomRequest 1"]) simp_all
  obtain ser where ser: "\<And>m. serializeServerMessage plain_json m = Inr (ser m)" using plain_serialize by blast
  obtain sv a b sv1 sv2 where
    "run_labels plain_json (join_run l1 l2) (started_server (new_core True)) = Some sv" "live sv 1"
    "s_currentRoom (the_session sv 1) = Some 1" "\<not> s_stopped (the_session sv 1)"
    "outbox (the_session sv 1) = [a, b]" "stopImpl plain_json 1 sv = Some (Inr (), sv1)"
    "run_labels plain_json [RunPosted 1, WriteEnds 1 True] sv = Some sv2" "live sv2 1"
    using join_run_exec[OF l1(2) l2(2) l1(1) l2(1) ser, of True] by (elim exE conjE)
  then show thesis by (intro that[of l1 l2 sv a b sv1 sv2] run_labels_run)
qed

theorem stop_cleans_up_witness:
  "\<exists>l1 l2 sv sv'. server_run plain_json (started_server (new_core True)) (join_run l1 l2) sv \<and>
     stopImpl plain_json 1 sv = Some (Inr (), sv') \<and> \<not> in_room (sv_core sv') 1 1 \<and> \<not> sv_registry sv' 1"
proof -
  obtain l1 l2 sv a b sv1 sv2 where sv: "server_run plain_json (started_server (new_core True)) (join_run l1 l2) sv" "live sv 1"
    "s_currentRoom (the_session sv 1) = Some 1" "\<not> s_stopped (the_session sv 1)"
    "outbox (the_session sv 1) = [a, b]" "stopImpl plain_json 1 sv = Some (Inr (), sv1)"
    "server_run plain_json sv [RunPosted 1, WriteEnds 1 True] sv2" "live sv2 1"
    by (rule plain_join_run)
  have "\<not> in_room (sv_core sv1) 1 1" "\<not> sv_registry sv1 1"
    using stop_cleans_up[OF sv(1) join_run_short sv(2,4,6)] by simp_all
  with sv(1,6) show ?thesis by (intro exI conjI)
qed

end
