(* ===== verification/CS_Snapshot_Api.thy ===== *)
theory CS_Snapshot_Api
  imports CS_Types
begin

text \<open>
  The interface \<^verbatim>\<open>ISnapshotStore\<close> of \<^verbatim>\<open>persistence/include/clearspace/persistence/snapshot_store.hpp\<close>:
  its data, its virtual functions as a record of operations on a store state \<open>'s\<close> under an
  environment \<open>'e\<close> (clock, faults), and the contract its client, the snapshot writer, relies on.
\<close>

record SnapshotMeta =
  meta_id :: int
  meta_room :: RoomId
  meta_savedAtMs :: int
  meta_lastSeq :: Seq

record StoredSnapshot =
  stored_meta :: SnapshotMeta
  stored_strokes :: "Stroke list"

text \<open>
  \<open>Inl\<close> is a thrown exception; the outer \<open>None\<close> of \<open>iss_save\<close> is undefined behaviour.
\<close>

record ('e, 's) ISnapshotStore =
  iss_init :: "'e \<Rightarrow> 's \<Rightarrow> unit thrown \<times> 's"
  iss_save :: "'e \<Rightarrow> 's \<Rightarrow> RoomId \<Rightarrow> Seq \<Rightarrow> Stroke list \<Rightarrow> (unit thrown \<times> 's) option"
  iss_list :: "'e \<Rightarrow> 's \<Rightarrow> RoomId \<Rightarrow> SnapshotMeta list thrown \<times> 's"
  iss_loadById :: "'e \<Rightarrow> 's \<Rightarrow> int \<Rightarrow> StoredSnapshot option thrown \<times> 's"
  iss_loadLatest :: "'e \<Rightarrow> 's \<Rightarrow> RoomId \<Rightarrow> StoredSnapshot option thrown \<times> 's"
  iss_pruneKeepLatest :: "'e \<Rightarrow> 's \<Rightarrow> RoomId \<Rightarrow> u64 \<Rightarrow> unit thrown \<times> 's"

definition stored_board :: "StoredSnapshot \<Rightarrow> Seq \<times> Stroke list" where
  "stored_board sn = (meta_lastSeq (stored_meta sn), stored_strokes sn)"

text \<open>
  The contract: \<open>able\<close> environments let every call succeed, and \<open>before s t\<close> says that every snapshot
  in \<open>s\<close> was saved before time \<open>t\<close>. Then a saved board is the room's newest one, pruning bounds the
  number of a room's snapshots and keeps the newest, and loading returns the newest.
\<close>

locale snapshot_store =
  fixes ops :: "('e, 's) ISnapshotStore"
    and valid :: "'s \<Rightarrow> bool"
    and able :: "'e \<Rightarrow> bool"
    and clock :: "'e \<Rightarrow> int"
    and before :: "'s \<Rightarrow> int \<Rightarrow> bool"
    and storable :: "Stroke list \<Rightarrow> bool"
    and newest :: "'s \<Rightarrow> RoomId \<Rightarrow> (Seq \<times> Stroke list) option"
    and count :: "'s \<Rightarrow> RoomId \<Rightarrow> nat"
  assumes save_law: "\<lbrakk>valid s; able e; before s (clock e); storable ss\<rbrakk> \<Longrightarrow>
      \<exists>s'. iss_save ops e s room n ss = Some (Inr (), s') \<and> valid s' \<and>
        (\<forall>t. clock e < t \<longrightarrow> before s' t) \<and>
        newest s' = (newest s)(room \<mapsto> (n, ss)) \<and> count s' = (count s)(room := count s room + 1)"
    and prune_law: "\<lbrakk>valid s; able e; 0 < unat keep; unat keep < 2 ^ 63\<rbrakk> \<Longrightarrow>
      \<exists>s'. iss_pruneKeepLatest ops e s room keep = (Inr (), s') \<and> valid s' \<and>
        (\<forall>t. before s t \<longrightarrow> before s' t) \<and>
        newest s' = newest s \<and> count s' = (count s)(room := min (unat keep) (count s room))"
    and load_law: "\<lbrakk>valid s; able e\<rbrakk> \<Longrightarrow>
      \<exists>found. fst (iss_loadLatest ops e s room) = Inr found \<and> map_option stored_board found = newest s room"

end
