(* ===== verification/CS_Codec.thy ===== *)
theory CS_Codec
  imports CS_Types "HOL-Library.Sublist"
begin

text \<open>
  The snapshot blob: \<^verbatim>\<open>appendLE\<close>, \<^verbatim>\<open>readLE\<close>, \<^verbatim>\<open>serializeStrokes\<close> and \<^verbatim>\<open>deserializeStrokes\<close> of
  \<^verbatim>\<open>persistence/src/sqlite_snapshot_store.cpp\<close>. A blob is a list of bytes, the read pointer is the list
  of bytes still to read, and a thrown \<^verbatim>\<open>std::runtime_error\<close> is \<open>Inl\<close> of its message.
  \<^verbatim>\<open>appendLE\<close> copies the object representation of a value, so the byte order of the host is a
  parameter. \<^verbatim>\<open>reserve\<close> has no effect on the value of a vector; running out of memory is not
  modelled.

  \<open>decodes\<close> is the contract between an encoding and its decoder (it reads back the value, leaves
  what follows, and throws on every proper prefix), the locale \<open>codec\<close> packages it, and the
  encodings of the code are interpretations.
\<close>

datatype byte_order = LittleEndian | BigEndian


fun le_bytes :: "nat \<Rightarrow> nat \<Rightarrow> u8 list" where
  "le_bytes 0 n = []"
| "le_bytes (Suc k) n = of_nat n # le_bytes k (n div 256)"

fun le_value :: "u8 list \<Rightarrow> nat" where
  "le_value [] = 0"
| "le_value (b # bs) = unat b + 256 * le_value bs"

text \<open>\<^verbatim>\<open>sizeof(T)\<close> for the integer types and for \<^verbatim>\<open>float\<close>.\<close>

definition size_of :: "'a::len word itself \<Rightarrow> nat" where
  "size_of t = LENGTH('a) div 8"

definition object_bytes :: "byte_order \<Rightarrow> 'a::len word \<Rightarrow> u8 list" where
  "object_bytes bo v =
     (let bs = le_bytes (size_of TYPE('a word)) (unat v)
      in case bo of LittleEndian \<Rightarrow> bs | BigEndian \<Rightarrow> rev bs)"

definition object_value :: "byte_order \<Rightarrow> u8 list \<Rightarrow> 'a::len word" where
  "object_value bo bs =
     of_nat (le_value (case bo of LittleEndian \<Rightarrow> bs | BigEndian \<Rightarrow> rev bs))"

definition appendLE :: "byte_order \<Rightarrow> u8 list \<Rightarrow> 'a::len word \<Rightarrow> u8 list" where
  "appendLE bo buf v = buf @ object_bytes bo v"

definition readLE :: "byte_order \<Rightarrow> u8 list \<Rightarrow> ('a::len word \<times> u8 list) thrown" where
  "readLE bo p =
     (let n = size_of TYPE('a word)
      in if length p < n then Inl ''corrupted snapshot blob''
         else Inr (object_value bo (take n p), drop n p))"

text \<open>The loops over points and strokes, writing and reading.\<close>

definition append_point :: "byte_order \<Rightarrow> u8 list \<Rightarrow> Point \<Rightarrow> u8 list" where
  "append_point bo buf pt = appendLE bo (appendLE bo buf (pt_x pt)) (pt_y pt)"

definition append_stroke :: "byte_order \<Rightarrow> u8 list \<Rightarrow> Stroke \<Rightarrow> u8 list" where
  "append_stroke bo buf s =
     (let buf = appendLE bo buf (stroke_id s);
          buf = appendLE bo buf (author s);
          buf = appendLE bo buf (color_code (color s));
          buf = appendLE bo buf (thickness_code (thickness s));
          buf = appendLE bo buf (strokeOrder s);
          buf = appendLE bo buf (if finished s then 1 else 0 :: u8);
          buf = appendLE bo buf (of_nat (length (points s)) :: u32)
      in foldl (append_point bo) buf (points s))"

definition serializeStrokes :: "byte_order \<Rightarrow> Stroke list \<Rightarrow> u8 list" where
  "serializeStrokes bo ss =
     (let buf = appendLE bo [] (1 :: u32);
          buf = appendLE bo buf (of_nat (length ss) :: u32)
      in foldl (append_stroke bo) buf ss)"

text \<open>A \<^verbatim>\<open>for\<close> loop that reads \<open>n\<close> elements and pushes them back in order.\<close>

fun read_many :: "nat \<Rightarrow> (u8 list \<Rightarrow> ('a \<times> u8 list) thrown) \<Rightarrow> u8 list \<Rightarrow> ('a list \<times> u8 list) thrown" where
  "read_many 0 dec p = Inr ([], p)"
| "read_many (Suc n) dec p =
     and_then (dec p) (\<lambda>(v, p). and_then (read_many n dec p) (\<lambda>(vs, p). Inr (v # vs, p)))"

definition read_point :: "byte_order \<Rightarrow> u8 list \<Rightarrow> (Point \<times> u8 list) thrown" where
  "read_point bo p =
     and_then (readLE bo p) (\<lambda>(fx, p).
     and_then (readLE bo p) (\<lambda>(fy, p).
     Inr (\<lparr>pt_x = fx, pt_y = fy\<rparr>, p)))"

definition read_stroke :: "byte_order \<Rightarrow> u8 list \<Rightarrow> (Stroke \<times> u8 list) thrown" where
  "read_stroke bo p =
     and_then (readLE bo p) (\<lambda>(sid :: u64, p).
     and_then (readLE bo p) (\<lambda>(auth :: u64, p).
     and_then (readLE bo p) (\<lambda>(col :: u8, p).
     and_then (readLE bo p) (\<lambda>(th :: u8, p).
     and_then (readLE bo p) (\<lambda>(ord :: u64, p).
     and_then (readLE bo p) (\<lambda>(fin :: u8, p).
     and_then (readLE bo p) (\<lambda>(pointsCount :: u32, p).
     and_then (read_many (unat pointsCount) (read_point bo) p) (\<lambda>(pts, p).
     Inr (\<lparr>stroke_id = sid, author = auth, color = Color col, thickness = Thickness th,
           strokeOrder = ord, points = pts, finished = (fin \<noteq> 0)\<rparr>, p)))))))))"

definition deserializeStrokes :: "byte_order \<Rightarrow> u8 list \<Rightarrow> Stroke list thrown" where
  "deserializeStrokes bo p =
     and_then (readLE bo p) (\<lambda>(version :: u32, p).
     if version \<noteq> 1 then Inl ''unsupported snapshot version'' else
     and_then (readLE bo p) (\<lambda>(strokesCount :: u32, p).
     and_then (read_many (unat strokesCount) (read_stroke bo) p) (\<lambda>(ss, p).
     if p \<noteq> [] then Inl ''corrupted snapshot blob (trailing bytes)'' else Inr ss)))"

subsection \<open>The contract of an encoding\<close>

definition decodes :: "(u8 list \<Rightarrow> ('a \<times> u8 list) thrown) \<Rightarrow> u8 list \<Rightarrow> 'a \<Rightarrow> bool" where
  "decodes dec bs v \<longleftrightarrow>
     (\<forall>rest. dec (bs @ rest) = Inr (v, rest)) \<and> (\<forall>p. strict_prefix p bs \<longrightarrow> (\<exists>e. dec p = Inl e))"

locale codec =
  fixes enc :: "'a \<Rightarrow> u8 list"
    and dec :: "u8 list \<Rightarrow> ('a \<times> u8 list) thrown"
    and wf :: "'a \<Rightarrow> bool"
  assumes decodes_enc: "wf v \<Longrightarrow> decodes dec (enc v) v"

lemma decodes_return: "decodes (\<lambda>p. Inr (v, p)) [] v"
  by (simp add: decodes_def)

lemma decodes_then:
  assumes d1: "decodes d1 b1 v1" and d2: "decodes (d2 v1) b2 v2"
  shows "decodes (\<lambda>p. and_then (d1 p) (\<lambda>(v, p). d2 v p)) (b1 @ b2) v2"
  unfolding decodes_def
proof (intro conjI allI impI)
  show "and_then (d1 ((b1 @ b2) @ rest)) (\<lambda>(v, p). d2 v p) = Inr (v2, rest)" for rest
    using d1 d2 by (simp add: decodes_def)
  fix p assume p: "strict_prefix p (b1 @ b2)"
  show "\<exists>e. and_then (d1 p) (\<lambda>(v, p). d2 v p) = Inl e"
  proof (cases "strict_prefix p b1")
    case True
    with d1 show ?thesis by (auto simp: decodes_def)
  next
    case False
    with p obtain q where "p = b1 @ q"
      by (metis append_Nil2 prefix_append strict_prefixI strict_prefix_def)
    with p have q: "p = b1 @ q" "strict_prefix q b2"
      by (simp_all add: strict_prefix_def)
    with d1 d2 show ?thesis by (simp add: decodes_def)
  qed
qed

context codec
begin

lemma many: "list_all wf vs \<Longrightarrow> decodes (read_many (length vs) dec) (concat (map enc vs)) vs"
proof (induction vs)
  case (Cons v vs)
  have "decodes (\<lambda>p. and_then (read_many (length vs) dec p) (\<lambda>(us, p). Inr (v # us, p)))
      (concat (map enc vs) @ []) (v # vs)"
    using Cons by (intro decodes_then) (auto simp: decodes_return)
  then have "decodes (\<lambda>p. and_then (dec p)
        (\<lambda>(v, p). and_then (read_many (length vs) dec p) (\<lambda>(vs, p). Inr (v # vs, p))))
      (enc v @ concat (map enc vs) @ []) (v # vs)"
    using Cons.prems decodes_enc by (intro decodes_then) auto
  then show ?case by simp
qed (simp add: decodes_def)

end

subsection \<open>Words\<close>

lemma length_le_bytes [simp]: "length (le_bytes k n) = k"
  by (induction k arbitrary: n) simp_all

lemma le_value_bytes: "le_value (le_bytes k n) = n mod 256 ^ k"
proof (induction k arbitrary: n)
  case (Suc k)
  have "unat (of_nat n :: u8) + 256 * (n div 256 mod 256 ^ k) = n mod (256 * 256 ^ k)"
    by (simp add: unat_of_nat mod_mult2_eq)
  with Suc show ?case by simp
qed simp

lemma length_object_bytes [simp]: "length (object_bytes bo (v :: 'a::len word)) = size_of TYPE('a word)"
  by (simp add: object_bytes_def Let_def split: byte_order.split)

lemma object_value_bytes:
  assumes "8 dvd LENGTH('a::len)"
  shows "object_value bo (object_bytes bo v) = (v :: 'a word)"
proof -
  have "256 ^ size_of TYPE('a word) = (2 :: nat) ^ LENGTH('a)"
    using assms by (auto simp: size_of_def power_mult[of 2 8, simplified] elim!: dvdE)
  then have "le_value (le_bytes (size_of TYPE('a word)) (unat v)) = unat v"
    by (simp add: le_value_bytes unsigned_less)
  then show ?thesis
    by (simp add: object_value_def object_bytes_def Let_def split: byte_order.split)
qed

lemma readLE_decodes:
  assumes "8 dvd LENGTH('a::len)"
  shows "decodes (readLE bo) (object_bytes bo v) (v :: 'a word)"
  unfolding decodes_def
proof (intro conjI allI impI)
  show "readLE bo (object_bytes bo v @ rest) = Inr (v, rest)" for rest
    by (simp add: readLE_def Let_def object_value_bytes[OF assms])
  fix p assume "strict_prefix p (object_bytes bo v)"
  then have "length p < size_of TYPE('a word)"
    using prefix_length_less by fastforce
  then show "\<exists>e. readLE bo p = (Inl e :: ('a word \<times> u8 list) thrown)"
    by (simp add: readLE_def)
qed


interpretation u8_codec: codec "object_bytes bo :: u8 \<Rightarrow> u8 list" "readLE bo" "\<lambda>_. True" for bo
  by unfold_locales (rule readLE_decodes, simp)

interpretation u32_codec: codec "object_bytes bo :: u32 \<Rightarrow> u8 list" "readLE bo" "\<lambda>_. True" for bo
  by unfold_locales (rule readLE_decodes, simp)

interpretation u64_codec: codec "object_bytes bo :: u64 \<Rightarrow> u8 list" "readLE bo" "\<lambda>_. True" for bo
  by unfold_locales (rule readLE_decodes, simp)

lemmas word_decodes = u8_codec.decodes_enc[OF TrueI] u32_codec.decodes_enc[OF TrueI]
  u64_codec.decodes_enc[OF TrueI]

subsection \<open>Points, strokes and blobs\<close>

definition point_bytes :: "byte_order \<Rightarrow> Point \<Rightarrow> u8 list" where
  "point_bytes bo pt = object_bytes bo (pt_x pt) @ object_bytes bo (pt_y pt)"

definition stroke_bytes :: "byte_order \<Rightarrow> Stroke \<Rightarrow> u8 list" where
  "stroke_bytes bo s =
     object_bytes bo (stroke_id s) @ object_bytes bo (author s) @
     object_bytes bo (color_code (color s)) @ object_bytes bo (thickness_code (thickness s)) @
     object_bytes bo (strokeOrder s) @ object_bytes bo (if finished s then 1 else 0 :: u8) @
     object_bytes bo (of_nat (length (points s)) :: u32) @ concat (map (point_bytes bo) (points s))"

text \<open>The element counts are stored in 32 bits.\<close>

definition stroke_fits :: "Stroke \<Rightarrow> bool" where
  "stroke_fits s \<longleftrightarrow> length (points s) < 2 ^ 32"

definition strokes_fit :: "Stroke list \<Rightarrow> bool" where
  "strokes_fit ss \<longleftrightarrow> length ss < 2 ^ 32 \<and> list_all stroke_fits ss"

lemma foldl_append: "(\<And>buf v. f buf v = buf @ g v) \<Longrightarrow> foldl f buf vs = buf @ concat (map g vs)"
  by (induction vs arbitrary: buf) simp_all

lemma append_point_eq: "append_point bo buf pt = buf @ point_bytes bo pt"
  by (simp add: append_point_def point_bytes_def appendLE_def)

lemma append_stroke_eq: "append_stroke bo buf s = buf @ stroke_bytes bo s"
  by (simp add: append_stroke_def stroke_bytes_def appendLE_def Let_def
      foldl_append[OF append_point_eq])

lemma serializeStrokes_eq:
  "serializeStrokes bo ss =
     object_bytes bo (1 :: u32) @ object_bytes bo (of_nat (length ss) :: u32) @
     concat (map (stroke_bytes bo) ss)"
  by (simp add: serializeStrokes_def appendLE_def Let_def foldl_append[OF append_stroke_eq])

interpretation point_codec: codec "point_bytes bo" "read_point bo" "\<lambda>_. True" for bo
proof
  fix pt :: Point
  have "decodes (read_point bo) (object_bytes bo (pt_x pt) @ object_bytes bo (pt_y pt) @ []) pt"
    unfolding read_point_def
    by (intro decodes_then[OF word_decodes(2)]) (simp add: decodes_def)
  then show "decodes (read_point bo) (point_bytes bo pt) pt"
    by (simp add: point_bytes_def)
qed

lemma read_points_decodes:
  assumes "stroke_fits s"
  shows "decodes (read_many (unat (of_nat (length (points s)) :: u32)) (read_point bo))
    (concat (map (point_bytes bo) (points s))) (points s)"
proof -
  have "unat (of_nat (length (points s)) :: u32) = length (points s)"
    using assms by (simp add: stroke_fits_def unat_of_nat)
  then show ?thesis using point_codec.many by (simp add: list_all_iff)
qed

interpretation stroke_codec: codec "stroke_bytes bo" "read_stroke bo" stroke_fits for bo
proof
  fix s assume fits: "stroke_fits s"
  have "decodes (read_stroke bo) (object_bytes bo (stroke_id s) @ object_bytes bo (author s) @
     object_bytes bo (color_code (color s)) @ object_bytes bo (thickness_code (thickness s)) @
     object_bytes bo (strokeOrder s) @ object_bytes bo (if finished s then 1 else 0 :: u8) @
     object_bytes bo (of_nat (length (points s)) :: u32) @
     concat (map (point_bytes bo) (points s)) @ []) s"
    unfolding read_stroke_def
    by (intro decodes_then[OF word_decodes(3)] decodes_then[OF word_decodes(2)]
        decodes_then[OF word_decodes(1)] decodes_then[OF read_points_decodes[OF fits]])
      (simp add: decodes_def)
  then show "decodes (read_stroke bo) (stroke_bytes bo s) s"
    by (simp add: stroke_bytes_def)
qed

text \<open>The header and the strokes of a blob, before the check for trailing bytes.\<close>

definition read_blob :: "byte_order \<Rightarrow> u8 list \<Rightarrow> (Stroke list \<times> u8 list) thrown" where
  "read_blob bo p =
     and_then (readLE bo p) (\<lambda>(version :: u32, p).
     if version \<noteq> 1 then Inl ''unsupported snapshot version'' else
     and_then (readLE bo p) (\<lambda>(strokesCount :: u32, p).
     read_many (unat strokesCount) (read_stroke bo) p))"

lemma deserializeStrokes_eq:
  "deserializeStrokes bo p = and_then (read_blob bo p) (\<lambda>(ss, p).
     if p \<noteq> [] then Inl ''corrupted snapshot blob (trailing bytes)'' else Inr ss)"
proof -
  have "and_then (and_then m f) g = and_then m (\<lambda>v. and_then (f v) g)" for m f g
    by (cases m) simp_all
  then show ?thesis
    by (auto simp: deserializeStrokes_def read_blob_def and_then_def split: sum.split prod.split)
qed

lemma read_blob_decodes:
  assumes "strokes_fit ss"
  shows "decodes (read_blob bo) (serializeStrokes bo ss) ss"
proof -
  have "unat (of_nat (length ss) :: u32) = length ss"
    using assms by (simp add: strokes_fit_def unat_of_nat)
  then have ss: "decodes (read_many (unat (of_nat (length ss) :: u32)) (read_stroke bo))
      (concat (map (stroke_bytes bo) ss)) ss"
    using stroke_codec.many[of ss bo] assms by (simp add: strokes_fit_def)
  have body: "decodes (\<lambda>p. and_then (readLE bo p) (\<lambda>(n :: u32, p). read_many (unat n) (read_stroke bo) p))
      (object_bytes bo (of_nat (length ss) :: u32) @ concat (map (stroke_bytes bo) ss)) ss"
    by (intro decodes_then[OF word_decodes(2)] ss)
  show ?thesis
    unfolding read_blob_def serializeStrokes_eq
    by (intro decodes_then[OF word_decodes(2)]) (simp add: body)
qed

lemma deserialize_serialize:
  assumes "strokes_fit ss"
  shows "deserializeStrokes bo (serializeStrokes bo ss) = Inr ss"
proof -
  have "read_blob bo (serializeStrokes bo ss @ []) = Inr (ss, [])"
    using read_blob_decodes[OF assms] unfolding decodes_def by blast
  then show ?thesis by (simp add: deserializeStrokes_eq)
qed

text \<open>
  C19: Saving and loading strokes is the identity, on either byte order, for boards whose stroke
  count and point counts fit the 32-bit fields of the format.
\<close>

theorem strokes_roundtrip:
  assumes "strokes_fit ss"
  shows "deserializeStrokes bo (serializeStrokes bo ss) = Inr ss"
  using assms by (rule deserialize_serialize)

theorem strokes_roundtrip_witness:
  "deserializeStrokes LittleEndian (serializeStrokes LittleEndian
     [\<lparr>stroke_id = 1, author = 7, color = Red, thickness = Medium, strokeOrder = 1,
       points = [\<lparr>pt_x = 1, pt_y = 2\<rparr>], finished = True\<rparr>]) =
   Inr [\<lparr>stroke_id = 1, author = 7, color = Red, thickness = Medium, strokeOrder = 1,
       points = [\<lparr>pt_x = 1, pt_y = 2\<rparr>], finished = True\<rparr>]"
  by (rule strokes_roundtrip) (simp add: strokes_fit_def stroke_fits_def)

text \<open>
  C30: A damaged blob is refused: loading throws on every truncation of a saved blob and on every
  saved blob with bytes appended.
\<close>

theorem damaged_blob_rejected:
  assumes "strokes_fit ss"
  shows "(strict_prefix p (serializeStrokes bo ss) \<longrightarrow> (\<exists>e. deserializeStrokes bo p = Inl e)) \<and>
    (b \<noteq> [] \<longrightarrow> deserializeStrokes bo (serializeStrokes bo ss @ b) =
       Inl ''corrupted snapshot blob (trailing bytes)'')"
proof (intro conjI impI)
  note d = read_blob_decodes[OF assms, of bo, unfolded decodes_def]
  show "\<exists>e. deserializeStrokes bo p = Inl e" if "strict_prefix p (serializeStrokes bo ss)"
  proof -
    from d that obtain e where "read_blob bo p = Inl e" by blast
    then show ?thesis by (simp add: deserializeStrokes_eq)
  qed
  show "deserializeStrokes bo (serializeStrokes bo ss @ b) =
      Inl ''corrupted snapshot blob (trailing bytes)''" if "b \<noteq> []"
  proof -
    from d have "read_blob bo (serializeStrokes bo ss @ b) = Inr (ss, b)" by blast
    with that show ?thesis by (simp add: deserializeStrokes_eq)
  qed
qed

lemma le_bytes_4: "le_bytes 4 n = [of_nat n, of_nat (n div 256), of_nat (n div 256 div 256),
    of_nat (n div 256 div 256 div 256)]"
proof -
  have "(4 :: nat) = Suc (Suc (Suc (Suc 0)))" by simp
  then show ?thesis by (simp only: le_bytes.simps)
qed

theorem damaged_blob_rejected_witness:
  "deserializeStrokes LittleEndian (serializeStrokes LittleEndian [] @ [0]) =
     Inl ''corrupted snapshot blob (trailing bytes)'' \<and>
   (\<exists>e. deserializeStrokes LittleEndian [1, 0, 0] = Inl e)"
proof -
  have fit: "strokes_fit []" by (simp add: strokes_fit_def)
  have "serializeStrokes LittleEndian [] = [1, 0, 0, 0, 0, 0, 0, 0]"
    by (simp add: serializeStrokes_eq object_bytes_def size_of_def Let_def le_bytes_4)
  then have "strict_prefix [1, 0, 0] (serializeStrokes LittleEndian [])"
    by (simp add: strict_prefix_def)
  with damaged_blob_rejected[OF fit, of "[1, 0, 0]" LittleEndian "[0]"] show ?thesis by simp
qed


lemma read_many_Inr:
  assumes "read_many n dec p = Inr (vs, p')" and "\<And>q v q'. dec q = Inr (v, q') \<Longrightarrow> P v"
  shows "length vs = n \<and> list_all P vs"
  using assms(1)
proof (induction n arbitrary: p vs)
  case (Suc n)
  then obtain v q us where "dec p = Inr (v, q)" "read_many n dec q = Inr (us, p')" "vs = v # us"
    by (auto simp: expected_simps)
  with Suc.IH[of q us] assms(2) show ?case by simp
qed simp

lemma read_stroke_fits: "read_stroke bo p = Inr (s, p') \<Longrightarrow> stroke_fits s"
  by (auto simp: read_stroke_def expected_simps stroke_fits_def unat_u32_less
      dest!: read_many_Inr[where P = "\<lambda>_. True"])

text \<open>
  Whatever bytes are loaded, a board that loads can be saved back and loads again as the same
  board: the decoder only produces boards within the limits of the format.
\<close>

theorem loaded_board_resaves:
  assumes "deserializeStrokes bo p = Inr ss"
  shows "strokes_fit ss \<and> deserializeStrokes bo' (serializeStrokes bo' ss) = Inr ss"
proof -
  obtain n q q' where "read_many (unat (n :: u32)) (read_stroke bo) q = Inr (ss, q')"
    using assms by (auto simp: deserializeStrokes_def expected_simps split: if_splits)
  then have fit: "strokes_fit ss"
    using read_many_Inr[where P = stroke_fits] read_stroke_fits
    by (auto simp: strokes_fit_def unat_u32_less)
  have "read_blob bo' (serializeStrokes bo' ss @ []) = Inr (ss, [])"
    using read_blob_decodes[OF fit] unfolding decodes_def by blast
  with fit show ?thesis by (simp add: deserializeStrokes_eq)
qed

theorem loaded_board_resaves_witness:
  "strokes_fit [] \<and> deserializeStrokes BigEndian (serializeStrokes BigEndian []) = Inr []"
proof -
  have "deserializeStrokes LittleEndian [1, 0, 0, 0, 0, 0, 0, 0] = Inr []"
    by (simp add: deserializeStrokes_def readLE_def size_of_def object_value_def)
  from loaded_board_resaves[OF this, of BigEndian] show ?thesis .
qed

end
