(* ===== verification/CS_Store.thy ===== *)
theory CS_Store
  imports CS_Codec CS_Snapshot_Api "HOL-Library.Multiset"
begin

text \<open>
  The SQLite store: class \<^verbatim>\<open>SqliteSnapshotStore\<close> of \<^verbatim>\<open>persistence/src/sqlite_snapshot_store.cpp\<close>. The
  SQL statements of the source are functions on the table \<open>snapshots\<close>, a list of rows. What the
  source does not determine is a parameter, the environment of a call: which \<^verbatim>\<open>sqlite3_*\<close> functions
  return an error code (\<open>env_fault\<close>; all error codes lead to the same exception), the wall clock,
  the byte order, and
  the order in which \<^verbatim>\<open>ORDER BY saved_at_ms DESC\<close> lists rows with equal times (\<open>env_order\<close>, of which
  \<open>good_order\<close> states what SQL promises).

  A thrown exception is \<open>Inl\<close>. The outer \<open>None\<close> is undefined behaviour: a blob whose size
  becomes negative in \<^verbatim>\<open>static_cast<int>\<close> is passed to \<^verbatim>\<open>sqlite3_bind_blob\<close>.
\<close>

record Row =
  row_id :: int
  row_room :: int
  row_savedAt :: int
  row_lastSeq :: int
  row_data :: "u8 list"

datatype SqlCall = Open | ExecPragma | ExecDdl | Prepare | Bind nat | Step nat

record SqliteEnv =
  env_fault :: "SqlCall \<Rightarrow> bool"
  env_errmsg :: string
  env_nowMs :: int
  env_host :: byte_order
  env_order :: "Row list \<Rightarrow> Row list"

text \<open>
  \<open>db_open\<close> is \<^verbatim>\<open>db_ != nullptr\<close>; \<open>snapshots\<close> is the table in the database file, \<open>None\<close> while
  it does not exist; \<open>autoinc\<close> is the largest id ever given out by \<^verbatim>\<open>AUTOINCREMENT\<close>.
\<close>

record Store =
  db_open :: bool
  snapshots :: "Row list option"
  autoinc :: int

type_synonym 'a store_result = "('a thrown \<times> Store) option"

definition SQLITE_OK :: int where "SQLITE_OK = 0"
definition SQLITE_ERROR :: int where "SQLITE_ERROR = 1"
definition SQLITE_ROW :: int where "SQLITE_ROW = 100"
definition SQLITE_DONE :: int where "SQLITE_DONE = 101"

definition throwIf :: "SqliteEnv \<Rightarrow> int \<Rightarrow> unit thrown" where
  "throwIf env rc =
     (if rc = SQLITE_OK \<or> rc = SQLITE_DONE \<or> rc = SQLITE_ROW then Inr () else Inl (env_errmsg env))"

definition call_rc :: "SqliteEnv \<Rightarrow> SqlCall \<Rightarrow> int \<Rightarrow> int" where
  "call_rc env c good = (if env_fault env c then SQLITE_ERROR else good)"

definition new_store :: "Row list option \<Rightarrow> int \<Rightarrow> Store" where
  "new_store disk n = \<lparr>db_open = False, snapshots = disk, autoinc = n\<rparr>"

text \<open>The destructor closes the handle; the database file keeps its rows and its counter.\<close>

definition close_store :: "Store \<Rightarrow> Store" where
  "close_store st = (if db_open st then st\<lparr>db_open := False\<rparr> else st)"

text \<open>
  \<^verbatim>\<open>sqlite3_open\<close> stores a handle in \<^verbatim>\<open>db_\<close> even when it fails. The DDL creates the table if it is
  missing. \<open>init_store\<close> and the statements below run until the first exception.
\<close>

definition init_store :: "SqliteEnv \<Rightarrow> Store \<Rightarrow> unit thrown \<times> Store" where
  "init_store env st =
     (if db_open st then (Inr (), st)
      else
        let st1 = st\<lparr>db_open := True\<rparr>
        in case throwIf env (call_rc env Open SQLITE_OK) of
             Inl e \<Rightarrow> (Inl e, st1)
           | Inr _ \<Rightarrow> (case throwIf env (call_rc env ExecPragma SQLITE_OK) of
               Inl e \<Rightarrow> (Inl e, st1)
             | Inr _ \<Rightarrow> (case throwIf env (call_rc env ExecDdl SQLITE_OK) of
                 Inl e \<Rightarrow> (Inl e, st1)
               | Inr _ \<Rightarrow> (Inr (), st1\<lparr>snapshots :=
                   Some (case snapshots st1 of None \<Rightarrow> [] | Some rows \<Rightarrow> rows)\<rparr>))))"

text \<open>Preparing a statement on a table that does not exist is an error.\<close>

definition prepare :: "SqliteEnv \<Rightarrow> Store \<Rightarrow> Row list thrown" where
  "prepare env st =
     (case snapshots st of
        None \<Rightarrow> Inl (env_errmsg env)
      | Some rows \<Rightarrow> and_then (throwIf env (call_rc env Prepare SQLITE_OK)) (\<lambda>_. Inr rows))"

definition bind_param :: "SqliteEnv \<Rightarrow> nat \<Rightarrow> unit thrown" where
  "bind_param env i = throwIf env (call_rc env (Bind i) SQLITE_OK)"

definition save :: "SqliteEnv \<Rightarrow> Store \<Rightarrow> RoomId \<Rightarrow> Seq \<Rightarrow> Stroke list \<Rightarrow> unit store_result" where
  "save env st room lastSeq ss =
     (case init_store env st of
        (Inl e, st1) \<Rightarrow> Some (Inl e, st1)
      | (Inr _, st1) \<Rightarrow>
          let blob = serializeStrokes (env_host env) ss;
              n = sint (of_nat (length blob) :: u32)
          in case and_then (prepare env st1) (\<lambda>rows.
                  and_then (bind_param env 1) (\<lambda>_.
                  and_then (bind_param env 2) (\<lambda>_.
                  and_then (bind_param env 3) (\<lambda>_. Inr rows)))) of
               Inl e \<Rightarrow> Some (Inl e, st1)
             | Inr rows \<Rightarrow>
                 if n < 0 then None
                 else case and_then (bind_param env 4) (\<lambda>_.
                     throwIf env (call_rc env (Step 0) SQLITE_DONE)) of
                     Inl e \<Rightarrow> Some (Inl e, st1)
                   | Inr _ \<Rightarrow>
                       let row = \<lparr>row_id = autoinc st1 + 1, row_room = sint room,
                             row_savedAt = env_nowMs env, row_lastSeq = sint lastSeq,
                             row_data = take (nat n) blob\<rparr>
                       in Some (Inr (), st1\<lparr>snapshots := Some (rows @ [row]),
                            autoinc := autoinc st1 + 1\<rparr>))"

definition row_meta :: "Row \<Rightarrow> SnapshotMeta" where
  "row_meta row = \<lparr>meta_id = row_id row, meta_room = word_of_int (row_room row),
     meta_savedAtMs = row_savedAt row, meta_lastSeq = word_of_int (row_lastSeq row)\<rparr>"

text \<open>\<^verbatim>\<open>SELECT ... WHERE room_id=? ORDER BY saved_at_ms DESC\<close>.\<close>

definition select_room :: "SqliteEnv \<Rightarrow> RoomId \<Rightarrow> Row list \<Rightarrow> Row list" where
  "select_room env room rows = env_order env (filter (\<lambda>row. row_room row = sint room) rows)"

text \<open>The loop of \<^verbatim>\<open>list\<close>: one \<^verbatim>\<open>sqlite3_step\<close> per row and a last one that reports the end.\<close>

fun step_rows :: "SqliteEnv \<Rightarrow> nat \<Rightarrow> Row list \<Rightarrow> SnapshotMeta list thrown" where
  "step_rows env i [] =
     (if call_rc env (Step i) SQLITE_DONE = SQLITE_DONE then Inr []
      else and_then (throwIf env (call_rc env (Step i) SQLITE_DONE)) (\<lambda>_. Inr []))"
| "step_rows env i (row # rows) =
     (if call_rc env (Step i) SQLITE_ROW = SQLITE_DONE then Inr []
      else and_then (throwIf env (call_rc env (Step i) SQLITE_ROW)) (\<lambda>_.
           and_then (step_rows env (Suc i) rows) (\<lambda>ms. Inr (row_meta row # ms))))"

definition list_snapshots :: "SqliteEnv \<Rightarrow> Store \<Rightarrow> RoomId \<Rightarrow> SnapshotMeta list thrown \<times> Store" where
  "list_snapshots env st room =
     (case init_store env st of
        (Inl e, st1) \<Rightarrow> (Inl e, st1)
      | (Inr _, st1) \<Rightarrow>
          (and_then (prepare env st1) (\<lambda>rows.
           and_then (bind_param env 1) (\<lambda>_.
           step_rows env 0 (select_room env room rows))), st1))"

text \<open>The single row that \<^verbatim>\<open>loadById\<close> and \<^verbatim>\<open>loadLatest\<close> read.\<close>

definition load_row :: "SqliteEnv \<Rightarrow> Row option \<Rightarrow> StoredSnapshot option thrown" where
  "load_row env found =
     (case found of
        None \<Rightarrow> (if call_rc env (Step 0) SQLITE_DONE = SQLITE_DONE then Inr None
                 else and_then (throwIf env (call_rc env (Step 0) SQLITE_DONE)) (\<lambda>_. Inr None))
      | Some row \<Rightarrow>
          if call_rc env (Step 0) SQLITE_ROW = SQLITE_DONE then Inr None
          else and_then (throwIf env (call_rc env (Step 0) SQLITE_ROW)) (\<lambda>_.
            if row_data row = [] then Inl ''empty snapshot blob''
            else and_then (deserializeStrokes (env_host env) (row_data row)) (\<lambda>ss.
              Inr (Some \<lparr>stored_meta = row_meta row, stored_strokes = ss\<rparr>))))"

definition loadById :: "SqliteEnv \<Rightarrow> Store \<Rightarrow> int \<Rightarrow> StoredSnapshot option thrown \<times> Store" where
  "loadById env st i =
     (case init_store env st of
        (Inl e, st1) \<Rightarrow> (Inl e, st1)
      | (Inr _, st1) \<Rightarrow>
          (and_then (prepare env st1) (\<lambda>rows.
           and_then (bind_param env 1) (\<lambda>_.
           load_row env (find (\<lambda>row. row_id row = i) rows))), st1))"

definition loadLatest :: "SqliteEnv \<Rightarrow> Store \<Rightarrow> RoomId \<Rightarrow> StoredSnapshot option thrown \<times> Store" where
  "loadLatest env st room =
     (case init_store env st of
        (Inl e, st1) \<Rightarrow> (Inl e, st1)
      | (Inr _, st1) \<Rightarrow>
          (and_then (prepare env st1) (\<lambda>rows.
           and_then (bind_param env 1) (\<lambda>_.
           load_row env (case take 1 (select_room env room rows) of
             [] \<Rightarrow> None | row # _ \<Rightarrow> Some row))), st1))"

text \<open>\<^verbatim>\<open>LIMIT n\<close>: a negative limit is no limit.\<close>

definition sql_limit :: "int \<Rightarrow> 'a list \<Rightarrow> 'a list" where
  "sql_limit n xs = (if n < 0 then xs else take (nat n) xs)"

definition pruneKeepLatest :: "SqliteEnv \<Rightarrow> Store \<Rightarrow> RoomId \<Rightarrow> u64 \<Rightarrow> unit thrown \<times> Store" where
  "pruneKeepLatest env st room keep =
     (case init_store env st of
        (Inl e, st1) \<Rightarrow> (Inl e, st1)
      | (Inr _, st1) \<Rightarrow>
          if keep = 0 then
            (case and_then (prepare env st1) (\<lambda>rows.
                  and_then (bind_param env 1) (\<lambda>_.
                  and_then (throwIf env (call_rc env (Step 0) SQLITE_DONE)) (\<lambda>_. Inr rows))) of
               Inl e \<Rightarrow> (Inl e, st1)
             | Inr rows \<Rightarrow> (Inr (), st1\<lparr>snapshots := Some (filter (\<lambda>row. row_room row \<noteq> sint room) rows)\<rparr>))
          else
            (case and_then (prepare env st1) (\<lambda>rows.
                  and_then (bind_param env 1) (\<lambda>_.
                  and_then (bind_param env 2) (\<lambda>_.
                  and_then (bind_param env 3) (\<lambda>_.
                  and_then (throwIf env (call_rc env (Step 0) SQLITE_DONE)) (\<lambda>_. Inr rows))))) of
               Inl e \<Rightarrow> (Inl e, st1)
             | Inr rows \<Rightarrow>
                 let kept = map row_id (sql_limit (sint keep) (select_room env room rows))
                 in (Inr (), st1\<lparr>snapshots := Some (filter
                      (\<lambda>row. \<not> (row_room row = sint room \<and> row_id row \<notin> set kept)) rows)\<rparr>)))"


subsection \<open>Environments and well-formed stores\<close>

definition quiet :: "SqliteEnv \<Rightarrow> bool" where
  "quiet env \<longleftrightarrow> (\<forall>c. \<not> env_fault env c)"

text \<open>What SQL promises of \<^verbatim>\<open>ORDER BY saved_at_ms DESC\<close>.\<close>

definition good_order :: "SqliteEnv \<Rightarrow> bool" where
  "good_order env \<longleftrightarrow> (\<forall>rows. mset (env_order env rows) = mset rows \<and>
     sorted_wrt (\<lambda>a b. row_savedAt b \<le> row_savedAt a) (env_order env rows))"

definition rows_of :: "Store \<Rightarrow> Row list" where
  "rows_of st = (case snapshots st of None \<Rightarrow> [] | Some rows \<Rightarrow> rows)"

definition room_rows :: "Store \<Rightarrow> RoomId \<Rightarrow> Row list" where
  "room_rows st room = filter (\<lambda>row. row_room row = sint room) (rows_of st)"

text \<open>An open database has its table; ids are unique and below the counter.\<close>

definition store_inv :: "Store \<Rightarrow> bool" where
  "store_inv st \<longleftrightarrow> (db_open st \<longrightarrow> snapshots st \<noteq> None) \<and>
     distinct (map row_id (rows_of st)) \<and> (\<forall>row\<in>set (rows_of st). row_id row \<le> autoinc st)"

definition ready :: "Store \<Rightarrow> Store" where
  "ready st = st\<lparr>db_open := True, snapshots := Some (rows_of st)\<rparr>"

definition sort_desc :: "Row list \<Rightarrow> Row list" where
  "sort_desc rows = sort_key (\<lambda>row. - row_savedAt row) rows"

definition plain_env :: "int \<Rightarrow> SqliteEnv" where
  "plain_env now = \<lparr>env_fault = (\<lambda>_. False), env_errmsg = '''', env_nowMs = now,
     env_host = LittleEndian, env_order = sort_desc\<rparr>"

lemma plain_env_ok: "quiet (plain_env now)" "good_order (plain_env now)"
proof -
  have "sorted_wrt (\<lambda>a b. row_savedAt b \<le> row_savedAt a) (sort_desc rows)" for rows
    using sorted_sort_key[of "\<lambda>row. - row_savedAt row" rows]
    by (simp add: sort_desc_def sorted_wrt_map)
  then show "quiet (plain_env now)" "good_order (plain_env now)"
    by (simp_all add: quiet_def good_order_def plain_env_def sort_desc_def)
qed

lemma throwIf_simps [simp]:
  "throwIf env SQLITE_OK = Inr ()" "throwIf env SQLITE_DONE = Inr ()" "throwIf env SQLITE_ROW = Inr ()"
  "throwIf env SQLITE_ERROR = Inl (env_errmsg env)"
  by (simp_all add: throwIf_def SQLITE_OK_def SQLITE_ERROR_def SQLITE_ROW_def SQLITE_DONE_def)

lemma quiet_call [simp]: "quiet env \<Longrightarrow> call_rc env c good = good"
  by (simp add: quiet_def call_rc_def)

lemma quiet_bind [simp]: "quiet env \<Longrightarrow> bind_param env i = Inr ()"
  by (simp add: bind_param_def)

lemma quiet_init:
  assumes "quiet env" "store_inv st"
  shows "init_store env st = (Inr (), ready st)"
  using assms by (auto simp: init_store_def ready_def rows_of_def store_inv_def split: option.split)

lemma quiet_prepare: "quiet env \<Longrightarrow> prepare env (ready st) = Inr (rows_of st)"
  by (simp add: prepare_def ready_def)

lemma ready_fields [simp]:
  "rows_of (ready st) = rows_of st" "autoinc (ready st) = autoinc st" "db_open (ready st)"
  by (simp_all add: ready_def rows_of_def)

lemma row_not_DONE [simp]: "SQLITE_ROW \<noteq> SQLITE_DONE"
  by (simp add: SQLITE_ROW_def SQLITE_DONE_def)

lemma length_serializeStrokes:
  "length (serializeStrokes bo ss) = 8 + (\<Sum>s\<leftarrow>ss. 31 + 8 * length (points s))"
proof -
  have pt: "length (point_bytes bo p) = 8" for p
    by (simp add: point_bytes_def size_of_def)
  then have "length (concat (map (point_bytes bo) ps)) = 8 * length ps" for ps
    by (induction ps) simp_all
  then have "length (stroke_bytes bo s) = 31 + 8 * length (points s)" for s
    by (simp add: stroke_bytes_def size_of_def)
  then have "length (concat (map (stroke_bytes bo) ss)) = (\<Sum>s\<leftarrow>ss. 31 + 8 * length (points s))"
    by (induction ss) simp_all
  then show ?thesis by (simp add: serializeStrokes_eq size_of_def)
qed

text \<open>The size cast keeps blobs below 2 GiB whole.\<close>

lemma sint_blob_size: "n < 2 ^ 31 \<Longrightarrow> sint (of_nat n :: u32) = int n"
  by (simp add: sint_uint signed_take_bit_int_eq_self uint_nat unat_of_nat)

lemma save_eq:
  assumes "quiet env" "store_inv st" "length (serializeStrokes (env_host env) ss) < 2 ^ 31"
  shows "save env st room lastSeq ss = Some (Inr (), (ready st)\<lparr>
     snapshots := Some (rows_of st @ [\<lparr>row_id = autoinc st + 1, row_room = sint room,
        row_savedAt = env_nowMs env, row_lastSeq = sint lastSeq,
        row_data = serializeStrokes (env_host env) ss\<rparr>]),
     autoinc := autoinc st + 1\<rparr>)"
  using assms by (simp add: save_def quiet_init quiet_prepare sint_blob_size Let_def)


text \<open>A blob that can be saved whole can be read back: its counts fit their 32-bit fields.\<close>

lemma strokes_fit_blob:
  assumes "length (serializeStrokes bo ss) < 2 ^ 31"
  shows "strokes_fit ss"
proof -
  have bound: "8 + (\<Sum>s\<leftarrow>ss. 31 + 8 * length (points s)) < 2 ^ 31"
    using assms by (simp add: length_serializeStrokes)
  have "length ss \<le> (\<Sum>s\<leftarrow>ss. 31 + 8 * length (points s))"
    by (induction ss) simp_all
  moreover have "length (points s) \<le> (\<Sum>s\<leftarrow>ss. 31 + 8 * length (points s))" if "s \<in> set ss" for s
    using member_le_sum_list[of "31 + 8 * length (points s)" "map (\<lambda>s. 31 + 8 * length (points s)) ss"]
      that by auto
  ultimately have "length ss < 2 ^ 31" "\<forall>s\<in>set ss. length (points s) < 2 ^ 31"
    using bound by (force, fastforce)
  then show ?thesis by (fastforce simp: strokes_fit_def stroke_fits_def list_all_iff)
qed

lemma blob_not_empty [simp]: "serializeStrokes bo ss \<noteq> []"
  using length_serializeStrokes[of bo ss] by auto

lemma store_inv_append:
  assumes "store_inv st" "row_id row = autoinc st + 1"
  shows "store_inv ((ready st)\<lparr>snapshots := Some (rows_of st @ [row]), autoinc := autoinc st + 1\<rparr>)"
  using assms by (fastforce simp: store_inv_def rows_of_def)

lemma store_inv_filter:
  assumes "store_inv st"
  shows "store_inv ((ready st)\<lparr>snapshots := Some (filter P (rows_of st))\<rparr>)"
proof -
  have "distinct (map row_id (filter P (rows_of st)))"
    using assms by (simp add: store_inv_def distinct_map inj_on_def)
  moreover have "\<forall>row\<in>set (rows_of st). row_id row \<le> autoinc st"
    using assms by (simp add: store_inv_def)
  ultimately show ?thesis by (simp add: store_inv_def rows_of_def)
qed

lemma find_row_id:
  assumes "distinct (map row_id rows)" "row \<in> set rows"
  shows "find (\<lambda>r. row_id r = row_id row) rows = Some row"
  using assms
proof (induction rows)
  case (Cons a rows)
  then show ?case by (cases "a = row") (auto simp: image_iff)
qed simp

lemma quiet_load_row:
  assumes "quiet env" "deserializeStrokes (env_host env) (row_data row) = Inr ss" "row_data row \<noteq> []"
  shows "load_row env (Some row) = Inr (Some \<lparr>stored_meta = row_meta row, stored_strokes = ss\<rparr>)"
  using assms by (simp add: load_row_def)

lemma quiet_load_none: "quiet env \<Longrightarrow> load_row env None = Inr None"
  by (simp add: load_row_def)

lemma quiet_step_rows: "quiet env \<Longrightarrow> step_rows env i rows = Inr (map row_meta rows)"
  by (induction rows arbitrary: i) simp_all

lemma quiet_loadById:
  assumes "quiet env" "store_inv st"
  shows "loadById env st i = (load_row env (find (\<lambda>row. row_id row = i) (rows_of st)), ready st)"
  using assms by (simp add: loadById_def quiet_init quiet_prepare)

lemma quiet_list:
  assumes "quiet env" "store_inv st"
  shows "list_snapshots env st room =
     (Inr (map row_meta (select_room env room (rows_of st))), ready st)"
  using assms by (simp add: list_snapshots_def quiet_init quiet_prepare quiet_step_rows)

lemma quiet_loadLatest:
  assumes "quiet env" "store_inv st"
  shows "loadLatest env st room = (load_row env (case select_room env room (rows_of st) of
     [] \<Rightarrow> None | row # _ \<Rightarrow> Some row), ready st)"
  using assms by (cases "select_room env room (rows_of st)")
    (simp_all add: loadLatest_def quiet_init quiet_prepare)

lemma select_room_set:
  assumes "good_order env"
  shows "set (select_room env room (rows_of st)) = set (room_rows st room)"
    "length (select_room env room (rows_of st)) = length (room_rows st room)"
    "mset (select_room env room (rows_of st)) = mset (room_rows st room)"
    "sorted_wrt (\<lambda>a b. row_savedAt b \<le> row_savedAt a) (select_room env room (rows_of st))"
proof -
  have eq: "mset (env_order env rows) = mset rows" for rows
    using assms by (simp add: good_order_def)
  show "mset (select_room env room (rows_of st)) = mset (room_rows st room)"
    by (simp add: eq select_room_def room_rows_def)
  then show "set (select_room env room (rows_of st)) = set (room_rows st room)"
    "length (select_room env room (rows_of st)) = length (room_rows st room)"
    by (metis set_mset_mset, metis size_mset)
  show "sorted_wrt (\<lambda>a b. row_savedAt b \<le> row_savedAt a) (select_room env room (rows_of st))"
    using assms by (simp add: good_order_def select_room_def)
qed


subsection \<open>The store behaves as a table of snapshots\<close>

lemma row_meta_saved:
  "row_meta \<lparr>row_id = i, row_room = sint (room :: RoomId), row_savedAt = t, row_lastSeq = sint (n :: Seq),
     row_data = d\<rparr> = \<lparr>meta_id = i, meta_room = room, meta_savedAtMs = t, meta_lastSeq = n\<rparr>"
  by (simp add: row_meta_def)

text \<open>
  C23: What is saved can be loaded. When SQLite reports no errors and the blob is below 2 GiB,
  \<^verbatim>\<open>save\<close> adds exactly one row with a fresh id, and loading this id later, under any clock and row
  order, returns the room, the sequence number and the strokes that were saved.
\<close>

theorem save_then_load:
  assumes "quiet env" "store_inv st" "length (serializeStrokes (env_host env) ss) < 2 ^ 31"
    and "quiet env'" "env_host env' = env_host env"
  shows "\<exists>st'. save env st room lastSeq ss = Some (Inr (), st') \<and> store_inv st' \<and>
    map row_id (rows_of st') = map row_id (rows_of st) @ [autoinc st + 1] \<and>
    autoinc st + 1 \<notin> row_id ` set (rows_of st) \<and>
    fst (loadById env' st' (autoinc st + 1)) = Inr (Some \<lparr>
      stored_meta = \<lparr>meta_id = autoinc st + 1, meta_room = room, meta_savedAtMs = env_nowMs env,
        meta_lastSeq = lastSeq\<rparr>, stored_strokes = ss\<rparr>)"
proof -
  define row where "row = \<lparr>row_id = autoinc st + 1, row_room = sint room,
    row_savedAt = env_nowMs env, row_lastSeq = sint lastSeq,
    row_data = serializeStrokes (env_host env) ss\<rparr>"
  define st' where "st' = (ready st)\<lparr>snapshots := Some (rows_of st @ [row]), autoinc := autoinc st + 1\<rparr>"
  have sv: "save env st room lastSeq ss = Some (Inr (), st')"
    using save_eq[OF assms(1-3)] by (simp add: st'_def row_def)
  have inv: "store_inv st'"
    unfolding st'_def by (rule store_inv_append[OF assms(2)]) (simp add: row_def)
  have rows: "rows_of st' = rows_of st @ [row]" by (simp add: st'_def rows_of_def)
  have fresh: "autoinc st + 1 \<notin> row_id ` set (rows_of st)"
    using assms(2) by (fastforce simp: store_inv_def)
  have "find (\<lambda>r. row_id r = row_id row) (rows_of st') = Some row"
    using inv rows by (intro find_row_id) (auto simp: store_inv_def)
  moreover have "load_row env' (Some row) = Inr (Some \<lparr>stored_meta = row_meta row, stored_strokes = ss\<rparr>)"
    using assms(3-5) by (intro quiet_load_row)
      (simp_all add: row_def deserialize_serialize strokes_fit_blob)
  ultimately have "fst (loadById env' st' (autoinc st + 1)) =
      Inr (Some \<lparr>stored_meta = row_meta row, stored_strokes = ss\<rparr>)"
    using quiet_loadById[OF assms(4) inv] by (simp add: row_def)
  then show ?thesis
    using sv inv rows fresh by (simp add: row_def row_meta_saved)
qed

definition sample_stroke :: Stroke where
  "sample_stroke = \<lparr>stroke_id = 1, author = 7, color = Red, thickness = Medium, strokeOrder = 1,
     points = [\<lparr>pt_x = 1, pt_y = 2\<rparr>], finished = True\<rparr>"

lemma new_store_inv: "store_inv (new_store None n)"
  by (simp add: store_inv_def new_store_def rows_of_def)

theorem save_then_load_witness:
  "\<exists>st'. save (plain_env 100) (new_store None 0) 5 9 [sample_stroke] = Some (Inr (), st') \<and> store_inv st' \<and>
    map row_id (rows_of st') = map row_id (rows_of (new_store None 0)) @ [autoinc (new_store None 0) + 1] \<and>
    autoinc (new_store None 0) + 1 \<notin> row_id ` set (rows_of (new_store None 0)) \<and>
    fst (loadById (plain_env 200) st' (autoinc (new_store None 0) + 1)) = Inr (Some \<lparr>
      stored_meta = \<lparr>meta_id = autoinc (new_store None 0) + 1, meta_room = 5,
        meta_savedAtMs = env_nowMs (plain_env 100), meta_lastSeq = 9\<rparr>, stored_strokes = [sample_stroke]\<rparr>)"
  by (rule save_then_load)
    (simp_all add: plain_env_ok new_store_inv length_serializeStrokes sample_stroke_def, simp add: plain_env_def)

text \<open>
  C29: \<^verbatim>\<open>list\<close> reports exactly the room's snapshots, newest first, and \<^verbatim>\<open>loadLatest\<close> returns one
  that no other snapshot of the room is newer than, or nothing when the room has none.
\<close>

theorem list_and_latest:
  assumes "quiet env" "good_order env" "store_inv st"
  shows "(\<exists>ms. fst (list_snapshots env st room) = Inr ms \<and>
      mset ms = image_mset row_meta (mset (room_rows st room)) \<and>
      sorted_wrt (\<lambda>a b. meta_savedAtMs b \<le> meta_savedAtMs a) ms) \<and>
      (room_rows st room = [] \<longrightarrow> fst (loadLatest env st room) = Inr None) \<and>
      (room_rows st room \<noteq> [] \<longrightarrow> (\<exists>row\<in>set (room_rows st room).
         (\<forall>other\<in>set (room_rows st room). row_savedAt other \<le> row_savedAt row) \<and>
         loadLatest env st room = loadById env st (row_id row)))"
proof (rule conjI)
  let ?sel = "select_room env room (rows_of st)"
  note sel = select_room_set[OF assms(2), where st = st and room = room]
  have meta: "meta_savedAtMs (row_meta r) = row_savedAt r" for r by (simp add: row_meta_def)
  show "\<exists>ms. fst (list_snapshots env st room) = Inr ms \<and>
      mset ms = image_mset row_meta (mset (room_rows st room)) \<and>
      sorted_wrt (\<lambda>a b. meta_savedAtMs b \<le> meta_savedAtMs a) ms"
    using quiet_list[OF assms(1,3)] sel(3,4) by (simp add: sorted_wrt_map meta)
  show "(room_rows st room = [] \<longrightarrow> fst (loadLatest env st room) = Inr None) \<and>
      (room_rows st room \<noteq> [] \<longrightarrow> (\<exists>row\<in>set (room_rows st room).
         (\<forall>other\<in>set (room_rows st room). row_savedAt other \<le> row_savedAt row) \<and>
         loadLatest env st room = loadById env st (row_id row)))"
  proof (cases ?sel)
    case Nil
    then show ?thesis
      using sel(2) quiet_loadLatest[OF assms(1,3)] quiet_load_none[OF assms(1)] by simp
  next
    case (Cons row rest)
    then have row: "row \<in> set (room_rows st room)"
      "\<forall>other\<in>set (room_rows st room). row_savedAt other \<le> row_savedAt row"
      using sel(1,4) by auto
    then have "find (\<lambda>r. row_id r = row_id row) (rows_of st) = Some row"
      using assms(3) by (intro find_row_id) (auto simp: store_inv_def room_rows_def)
    then have "loadLatest env st room = loadById env st (row_id row)"
      using quiet_loadLatest[OF assms(1,3)] quiet_loadById[OF assms(1,3)] Cons by simp
    with row show ?thesis by auto
  qed
qed


text \<open>A database with three snapshots of room 5 and one of room 6.\<close>

definition sample_row :: "int \<Rightarrow> RoomId \<Rightarrow> int \<Rightarrow> Row" where
  "sample_row i room t = \<lparr>row_id = i, row_room = sint room, row_savedAt = t, row_lastSeq = i,
     row_data = serializeStrokes LittleEndian []\<rparr>"

definition sample_store :: Store where
  "sample_store = new_store (Some [sample_row 1 5 100, sample_row 2 6 110, sample_row 3 5 90,
     sample_row 4 5 120]) 4"

lemma sample_store_inv: "store_inv sample_store"
  by (simp add: store_inv_def sample_store_def new_store_def rows_of_def sample_row_def)

lemma sample_store_room: "room_rows sample_store 5 = [sample_row 1 5 100, sample_row 3 5 90, sample_row 4 5 120]"
  by (simp add: room_rows_def sample_store_def new_store_def rows_of_def sample_row_def)

theorem list_and_latest_witness:
  "(\<exists>ms. fst (list_snapshots (plain_env 0) sample_store 5) = Inr ms \<and>
      mset ms = image_mset row_meta (mset (room_rows sample_store 5)) \<and>
      sorted_wrt (\<lambda>a b. meta_savedAtMs b \<le> meta_savedAtMs a) ms) \<and>
   (\<exists>row\<in>set (room_rows sample_store 5).
      (\<forall>other\<in>set (room_rows sample_store 5). row_savedAt other \<le> row_savedAt row) \<and>
      loadLatest (plain_env 0) sample_store 5 = loadById (plain_env 0) sample_store (row_id row))"
  using list_and_latest[OF plain_env_ok sample_store_inv, where room = 5] sample_store_room by simp

lemma quiet_prune:
  assumes "quiet env" "store_inv st" "keep \<noteq> 0"
  shows "pruneKeepLatest env st room keep = (Inr (), (ready st)\<lparr>snapshots := Some (filter
     (\<lambda>row. \<not> (row_room row = sint room \<and>
        row_id row \<notin> row_id ` set (sql_limit (sint keep) (select_room env room (rows_of st)))))
     (rows_of st))\<rparr>)"
  using assms by (simp add: pruneKeepLatest_def quiet_init quiet_prepare Let_def)

lemma quiet_prune_all:
  assumes "quiet env" "store_inv st"
  shows "pruneKeepLatest env st room 0 = (Inr (), (ready st)\<lparr>snapshots := Some (filter
     (\<lambda>row. row_room row \<noteq> sint room) (rows_of st))\<rparr>)"
  using assms by (simp add: pruneKeepLatest_def quiet_init quiet_prepare)

lemma inj_on_filter_image:
  assumes "inj_on f (set xs)" "set ys \<subseteq> set xs" "distinct xs" "distinct ys"
  shows "set (filter (\<lambda>r. f r \<in> f ` set ys) xs) = set ys"
    "length (filter (\<lambda>r. f r \<in> f ` set ys) xs) = length ys"
proof -
  show eq: "set (filter (\<lambda>r. f r \<in> f ` set ys) xs) = set ys"
    using assms(1,2) by (auto simp: inj_on_def)
  show "length (filter (\<lambda>r. f r \<in> f ` set ys) xs) = length ys"
    using arg_cong[OF eq, of card] assms(3,4) distinct_card distinct_filter by metis
qed

lemma prune_run:
  assumes "quiet env" "store_inv st" "unat keep < 2 ^ 63"
  shows "pruneKeepLatest env st room keep = (Inr (), (ready st)\<lparr>snapshots := Some (filter (\<lambda>row. \<not> (row_room row = sint room \<and>
    row_id row \<notin> row_id ` set (take (unat keep) (select_room env room (rows_of st))))) (rows_of st))\<rparr>)"
proof -
  let ?sel = "select_room env room (rows_of st)"
  have "int (unat keep) < int (2 ^ 63)" using assms(3) by (simp only: of_nat_less_iff)
  moreover have "- (2 ^ 63) \<le> uint keep"
    by (rule order_trans[OF _ uint_ge_0]) simp
  ultimately have "sint keep = int (unat keep)"
    by (simp add: sint_uint signed_take_bit_int_eq_self)
  then have "sql_limit (sint keep) ?sel = take (unat keep) ?sel"
    by (simp add: sql_limit_def)
  then show ?thesis
    using quiet_prune[OF assms(1,2), of keep room] quiet_prune_all[OF assms(1,2), of room]
    by (cases "keep = 0") simp_all
qed

text \<open>
  What is left of a room after pruning: the first \<open>keep\<close> rows of its listing.
\<close>

lemma prune_room:
  assumes "quiet env" "good_order env" "store_inv st" "unat keep < 2 ^ 63"
    and "pruneKeepLatest env st room keep = (r, st')"
  shows "r = Inr ()" "store_inv st'"
    "filter (\<lambda>row. row_room row \<noteq> sint room) (rows_of st') =
       filter (\<lambda>row. row_room row \<noteq> sint room) (rows_of st)"
    "set (room_rows st' room) = set (take (unat keep) (select_room env room (rows_of st)))"
    "length (room_rows st' room) = min (unat keep) (length (room_rows st room))"
    "\<exists>P. rows_of st' = filter P (rows_of st)" "autoinc st' = autoinc st"
proof -
  let ?sel = "select_room env room (rows_of st)"
  define P where "P = (\<lambda>row :: Row. \<not> (row_room row = sint room \<and> row_id row \<notin> row_id ` set (take (unat keep) ?sel)))"
  note run = prune_run[OF assms(1,3,4), of room, folded P_def]
  show "r = Inr ()" "store_inv st'"
    using run assms(5) store_inv_filter[OF assms(3), of P] by simp_all
  have rows: "rows_of st' = filter P (rows_of st)"
    using run assms(5) by (auto simp: rows_of_def)
  then show "\<exists>P. rows_of st' = filter P (rows_of st)" "autoinc st' = autoinc st"
    using run assms(5) by auto
  show "filter (\<lambda>row. row_room row \<noteq> sint room) (rows_of st') =
       filter (\<lambda>row. row_room row \<noteq> sint room) (rows_of st)"
    by (simp add: rows) (rule filter_cong, auto simp: P_def)
  have room: "room_rows st' room =
      filter (\<lambda>row. row_id row \<in> row_id ` set (take (unat keep) ?sel)) (room_rows st room)"
    by (simp add: room_rows_def rows) (rule filter_cong, auto simp: P_def)
  note sel = select_room_set[OF assms(2), where st = st and room = room]
  have inj: "inj_on row_id (set (rows_of st))" "distinct (rows_of st)"
    using assms(3) by (simp_all add: store_inv_def distinct_map)
  then have inj': "inj_on row_id (set (room_rows st room))" "distinct (room_rows st room)"
    by (auto simp: room_rows_def inj_on_def)
  have "distinct ?sel" using inj'(2) sel(3) mset_eq_imp_distinct_iff by blast
  then have "distinct (take (unat keep) ?sel)" "set (take (unat keep) ?sel) \<subseteq> set (room_rows st room)"
    using sel(1) set_take_subset[of "unat keep" ?sel] by auto
  from inj_on_filter_image[OF inj'(1) this(2) inj'(2) this(1)]
  show "set (room_rows st' room) = set (take (unat keep) ?sel)"
    "length (room_rows st' room) = min (unat keep) (length (room_rows st room))"
    using room sel(2) by simp_all
qed

lemma sorted_take_drop:
  assumes "sorted_wrt R xs" "a \<in> set (take n xs)" "b \<in> set xs" "b \<notin> set (take n xs)"
  shows "R a b"
proof -
  have "b \<in> set (drop n xs)" using assms(3,4) by (metis Un_iff append_take_drop_id set_append)
  moreover have "sorted_wrt R (take n xs @ drop n xs)" using assms(1) by simp
  ultimately show ?thesis using assms(2) unfolding sorted_wrt_append by blast
qed

lemma room_rows_other:
  assumes "filter (\<lambda>row. row_room row \<noteq> sint room) (rows_of st') =
      filter (\<lambda>row. row_room row \<noteq> sint room) (rows_of st)" "other \<noteq> room"
  shows "room_rows st' other = room_rows st other"
proof -
  have "room_rows s other = filter (\<lambda>row. row_room row = sint other)
      (filter (\<lambda>row. row_room row \<noteq> sint room) (rows_of s))" for s
    using assms(2) by (auto simp: room_rows_def intro!: filter_cong dest: signed_word_eqI)
  then show ?thesis by (simp only: assms(1))
qed

lemma prune_order:
  assumes "quiet env" "good_order env" "store_inv st" "unat keep < 2 ^ 63"
    and "pruneKeepLatest env st room keep = (r, st')"
  shows "set (rows_of st') \<subseteq> set (rows_of st)" "set (room_rows st' room) \<subseteq> set (room_rows st room)"
    "\<And>kept gone. \<lbrakk>kept \<in> set (room_rows st' room); gone \<in> set (room_rows st room);
       gone \<notin> set (room_rows st' room)\<rbrakk> \<Longrightarrow> row_savedAt gone \<le> row_savedAt kept"
proof -
  note res = prune_room[OF assms]
  note sel = select_room_set[OF assms(2), where st = st and room = room]
  show sub: "set (room_rows st' room) \<subseteq> set (room_rows st room)"
    using res(4) sel(1) set_take_subset[of "unat keep" "select_room env room (rows_of st)"] by simp
  have split: "set (rows_of s) = set (room_rows s room) \<union>
      set (filter (\<lambda>row. row_room row \<noteq> sint room) (rows_of s))" for s
    by (auto simp: room_rows_def)
  show "set (rows_of st') \<subseteq> set (rows_of st)"
    unfolding split[of st] split[of st'] res(3) by (rule Un_mono[OF sub order_refl])
  show "row_savedAt gone \<le> row_savedAt kept"
    if "kept \<in> set (room_rows st' room)" "gone \<in> set (room_rows st room)"
      "gone \<notin> set (room_rows st' room)" for kept gone
    using that res(4) sel(1) by (auto intro: sorted_take_drop[OF sel(4)])
qed

text \<open>
  C24: Pruning keeps the newest snapshots and nothing else. After \<^verbatim>\<open>pruneKeepLatest(room, keep)\<close>
  the room has \<open>min keep n\<close> of its \<open>n\<close> snapshots, no deleted snapshot is newer than a kept one, and
  the snapshots of all other rooms are untouched.
\<close>

theorem prune_keeps_newest:
  assumes "quiet env" "good_order env" "store_inv st" "unat keep < 2 ^ 63"
    and "pruneKeepLatest env st room keep = (r, st')"
  shows "r = Inr () \<and> store_inv st' \<and>
    length (room_rows st' room) = min (unat keep) (length (room_rows st room)) \<and>
    set (room_rows st' room) \<subseteq> set (room_rows st room) \<and>
    (\<forall>kept\<in>set (room_rows st' room). \<forall>gone\<in>set (room_rows st room) - set (room_rows st' room).
       row_savedAt gone \<le> row_savedAt kept) \<and>
    (\<forall>other. other \<noteq> room \<longrightarrow> room_rows st' other = room_rows st other)"
proof -
  note res = prune_room[OF assms]
  then show ?thesis using room_rows_other[OF res(3)] prune_order[OF assms] by blast
qed

lemma sample_prune: "pruneKeepLatest (plain_env 0) sample_store 5 2 =
  (Inr (), (ready sample_store)\<lparr>snapshots := Some [sample_row 1 5 100, sample_row 2 6 110, sample_row 4 5 120]\<rparr>)"
  by (simp add: quiet_prune plain_env_ok sample_store_inv)
    (simp add: sql_limit_def select_room_def plain_env_def sort_desc_def sample_store_def new_store_def
      rows_of_def sample_row_def ready_def insort_key_def)

theorem prune_keeps_newest_witness:
  "\<exists>r st'. pruneKeepLatest (plain_env 0) sample_store 5 2 = (r, st') \<and> r = Inr () \<and> store_inv st' \<and>
    length (room_rows st' 5) = 2 \<and>
    (\<forall>kept\<in>set (room_rows st' 5). \<forall>gone\<in>set (room_rows sample_store 5) - set (room_rows st' 5).
       row_savedAt gone \<le> row_savedAt kept)"
proof -
  obtain r st' where run: "pruneKeepLatest (plain_env 0) sample_store 5 2 = (r, st')"
    by (cases "pruneKeepLatest (plain_env 0) sample_store 5 2")
  show ?thesis
    using run prune_keeps_newest[OF plain_env_ok sample_store_inv _ run] by (simp add: sample_store_room)
qed

text \<open>
  A failing call loses nothing: whatever SQLite calls fail, a \<^verbatim>\<open>save\<close> or \<^verbatim>\<open>pruneKeepLatest\<close> that
  throws leaves the stored rows as they were, and the reading operations never change them.
\<close>

theorem failed_call_keeps_rows:
  "(save env st room lastSeq ss = Some (Inl e, st') \<longrightarrow> rows_of st' = rows_of st) \<and>
   (pruneKeepLatest env st room keep = (Inl e, st') \<longrightarrow> rows_of st' = rows_of st) \<and>
   rows_of (snd (list_snapshots env st room)) = rows_of st \<and>
   rows_of (snd (loadById env st i)) = rows_of st \<and>
   rows_of (snd (loadLatest env st room)) = rows_of st"
proof -
  have keep: "rows_of st1 = rows_of st" if "init_store env st = (r, st1)" for r st1
    using that by (auto simp: init_store_def Let_def rows_of_def split: if_splits sum.splits option.splits)
  obtain r st1 where init: "init_store env st = (r, st1)" by (cases "init_store env st")
  have "rows_of st' = rows_of st" if "save env st room lastSeq ss = Some (Inl e, st')"
    using that keep[OF init] init by (auto simp: save_def Let_def split: sum.splits if_splits)
  moreover have "rows_of st' = rows_of st" if "pruneKeepLatest env st room keep = (Inl e, st')"
    using that keep[OF init] init by (auto simp: pruneKeepLatest_def Let_def split: sum.splits if_splits)
  ultimately show ?thesis
    using keep[OF init] init
    by (auto simp: list_snapshots_def loadById_def loadLatest_def split: sum.splits)
qed


definition full_disk_env :: SqliteEnv where
  "full_disk_env = (plain_env 0)\<lparr>env_fault := (\<lambda>c. c = Step 0), env_errmsg := ''disk full''\<rparr>"

lemma full_disk_save: "save full_disk_env sample_store 5 9 [] = Some (Inl ''disk full'', ready sample_store)"
  by (simp add: save_def init_store_def prepare_def bind_param_def call_rc_def full_disk_env_def
      plain_env_def sample_store_def new_store_def ready_def rows_of_def throwIf_def SQLITE_OK_def
      SQLITE_ERROR_def SQLITE_DONE_def SQLITE_ROW_def Let_def length_serializeStrokes)

theorem failed_call_keeps_rows_witness:
  "save full_disk_env sample_store 5 9 [] = Some (Inl ''disk full'', ready sample_store) \<and>
   rows_of (ready sample_store) = rows_of sample_store"
  using failed_call_keeps_rows[of full_disk_env sample_store 5 9 "[]" "''disk full''" "ready sample_store"]
    full_disk_save by blast

text \<open>
  An initialisation that fails on a new database is never repeated: \<^verbatim>\<open>db_\<close> stays set, so the
  next \<^verbatim>\<open>init\<close> returns at once without creating the table, and every later save throws even when
  SQLite works again.
\<close>

theorem failed_init_is_final:
  assumes "init_store env st = (Inl e, st1)" "snapshots st = None" "quiet env'"
  shows "init_store env' st1 = (Inr (), st1) \<and>
    save env' st1 room lastSeq ss = Some (Inl (env_errmsg env'), st1)"
proof -
  have st1: "db_open st1" "snapshots st1 = None"
    using assms(1,2) by (auto simp: init_store_def Let_def split: if_splits sum.splits)
  then have "init_store env' st1 = (Inr (), st1)" by (simp add: init_store_def)
  then show ?thesis using st1 by (simp add: save_def prepare_def Let_def)
qed

theorem failed_init_is_final_witness:
  "init_store ((plain_env 0)\<lparr>env_fault := (\<lambda>c. c = ExecDdl)\<rparr>) (new_store None 0) =
     (Inl '''', (new_store None 0)\<lparr>db_open := True\<rparr>) \<and>
   save (plain_env 1) ((new_store None 0)\<lparr>db_open := True\<rparr>) 5 9 [] =
     Some (Inl '''', (new_store None 0)\<lparr>db_open := True\<rparr>)"
proof -
  have init: "init_store ((plain_env 0)\<lparr>env_fault := (\<lambda>c. c = ExecDdl)\<rparr>) (new_store None 0) =
     (Inl '''', (new_store None 0)\<lparr>db_open := True\<rparr>)"
    by (simp add: init_store_def new_store_def plain_env_def call_rc_def throwIf_def SQLITE_OK_def
        SQLITE_ERROR_def SQLITE_DONE_def SQLITE_ROW_def)
  show ?thesis
    using init failed_init_is_final[OF init _ plain_env_ok(1), where room = 5 and lastSeq = 9 and ss = "[]"]
    by (simp add: new_store_def plain_env_def)
qed

text \<open>
  C38: Snapshots are ordered by the wall clock and not by sequence number. A snapshot saved while
  the clock is behind the room's stored snapshots is deleted by the pruning that follows its own
  save, when the room already holds \<open>keep\<close> snapshots: the newest board state is lost.
\<close>

theorem clock_behind_loses_newest:
  assumes "quiet env" "good_order env" "store_inv st"
    and "length (serializeStrokes (env_host env) ss) < 2 ^ 31" "unat keep < 2 ^ 63"
    and "save env st room lastSeq ss = Some (r, st1)" "pruneKeepLatest env st1 room keep = (r', st2)"
    and "\<forall>row\<in>set (room_rows st room). env_nowMs env < row_savedAt row"
    and "unat keep \<le> length (room_rows st room)"
  shows "r = Inr () \<and> r' = Inr () \<and> autoinc st + 1 \<notin> row_id ` set (rows_of st2)"
proof -
  define row where "row = \<lparr>row_id = autoinc st + 1, row_room = sint room,
    row_savedAt = env_nowMs env, row_lastSeq = sint lastSeq,
    row_data = serializeStrokes (env_host env) ss\<rparr>"
  have st1: "r = Inr ()" "st1 = (ready st)\<lparr>snapshots := Some (rows_of st @ [row]), autoinc := autoinc st + 1\<rparr>"
    using save_eq[OF assms(1,3,4), of room lastSeq] assms(6) by (simp_all add: row_def)
  have inv1: "store_inv st1"
    unfolding st1(2) by (rule store_inv_append[OF assms(3)]) (simp add: row_def)
  have rows1: "rows_of st1 = rows_of st @ [row]" by (simp add: st1(2) rows_of_def)
  then have room1: "room_rows st1 room = room_rows st room @ [row]"
    by (simp add: room_rows_def row_def)
  note res = prune_room[OF assms(1,2) inv1 assms(5,7)]
  note order = prune_order[OF assms(1,2) inv1 assms(5,7)]
  have "row \<notin> set (room_rows st2 room)"
  proof
    assume kept: "row \<in> set (room_rows st2 room)"
    have "a \<in> set (room_rows st2 room)" if "a \<in> set (room_rows st room)" for a
      using order(3)[OF kept, of a] that assms(8) room1 by (force simp: row_def)
    then have "set (room_rows st1 room) \<subseteq> set (room_rows st2 room)"
      using kept room1 by auto
    moreover have "distinct (room_rows st1 room)"
      using inv1 by (simp add: store_inv_def room_rows_def distinct_map)
    ultimately have "length (room_rows st1 room) \<le> length (room_rows st2 room)"
      by (metis card_length card_mono distinct_card finite_set le_trans)
    then show False using assms(9) room1 res(5) by simp
  qed
  moreover have "a = row" if "a \<in> set (rows_of st1)" "row_id a = autoinc st + 1" for a
    using that rows1 assms(3) by (fastforce simp: store_inv_def)
  ultimately have "autoinc st + 1 \<notin> row_id ` set (rows_of st2)"
    using order(1) by (auto simp: room_rows_def row_def)
  then show ?thesis using st1(1) res(1) by simp
qed


definition behind_store :: Store where
  "behind_store = new_store (Some [sample_row 1 5 100]) 1"

theorem clock_behind_loses_newest_witness:
  "\<exists>st1 st2. save (plain_env 50) behind_store 5 9 [] = Some (Inr (), st1) \<and>
     pruneKeepLatest (plain_env 50) st1 5 1 = (Inr (), st2) \<and> 2 \<notin> row_id ` set (rows_of st2)"
proof -
  have inv: "store_inv behind_store"
    by (simp add: store_inv_def behind_store_def new_store_def rows_of_def sample_row_def)
  have rows: "room_rows behind_store 5 = [sample_row 1 5 100]"
    by (simp add: behind_store_def room_rows_def rows_of_def new_store_def sample_row_def)
  have size: "length (serializeStrokes (env_host (plain_env 50)) []) < 2 ^ 31"
    by (simp add: length_serializeStrokes)
  obtain r st1 where sv: "save (plain_env 50) behind_store 5 9 [] = Some (r, st1)"
    using save_eq[OF plain_env_ok(1) inv size] by blast
  obtain r' st2 where pr: "pruneKeepLatest (plain_env 50) st1 5 1 = (r', st2)" by fastforce
  have "r = Inr () \<and> r' = Inr () \<and> autoinc behind_store + 1 \<notin> row_id ` set (rows_of st2)"
    by (rule clock_behind_loses_newest[OF plain_env_ok inv size _ sv pr])
      (simp_all add: rows, simp add: plain_env_def sample_row_def)
  then show ?thesis using sv pr by (auto simp: behind_store_def new_store_def)
qed


subsection \<open>The store implements the interface's contract\<close>

definition sqlite_ops :: "(SqliteEnv, Store) ISnapshotStore" where
  "sqlite_ops = \<lparr>iss_init = init_store, iss_save = save, iss_list = list_snapshots,
     iss_loadById = loadById, iss_loadLatest = loadLatest, iss_pruneKeepLatest = pruneKeepLatest\<rparr>"

text \<open>
  A table written by one host with a clock that never went back: times increase, and every blob
  decodes.
\<close>

definition chronological :: "byte_order \<Rightarrow> Store \<Rightarrow> bool" where
  "chronological host st \<longleftrightarrow> store_inv st \<and>
     sorted_wrt (\<lambda>a b. row_savedAt a < row_savedAt b) (rows_of st) \<and>
     (\<forall>row\<in>set (rows_of st). row_data row \<noteq> [] \<and> (\<exists>ss. deserializeStrokes host (row_data row) = Inr ss))"

definition sql_able :: "byte_order \<Rightarrow> SqliteEnv \<Rightarrow> bool" where
  "sql_able host env \<longleftrightarrow> quiet env \<and> good_order env \<and> env_host env = host"

definition sql_before :: "Store \<Rightarrow> int \<Rightarrow> bool" where
  "sql_before st t \<longleftrightarrow> (\<forall>row\<in>set (rows_of st). row_savedAt row < t)"

definition sql_storable :: "byte_order \<Rightarrow> Stroke list \<Rightarrow> bool" where
  "sql_storable host ss \<longleftrightarrow> length (serializeStrokes host ss) < 2 ^ 31"

definition row_board :: "byte_order \<Rightarrow> Row \<Rightarrow> (Seq \<times> Stroke list) option" where
  "row_board host row = (case deserializeStrokes host (row_data row) of
     Inl _ \<Rightarrow> None | Inr ss \<Rightarrow> Some (word_of_int (row_lastSeq row), ss))"

definition sql_newest :: "byte_order \<Rightarrow> Store \<Rightarrow> RoomId \<Rightarrow> (Seq \<times> Stroke list) option" where
  "sql_newest host st room = (if room_rows st room = [] then None
     else row_board host (last (room_rows st room)))"

definition sql_count :: "Store \<Rightarrow> RoomId \<Rightarrow> nat" where
  "sql_count st room = length (room_rows st room)"

lemma sint_room_eq [simp]: "sint (a :: RoomId) = sint b \<longleftrightarrow> a = b"
  by (auto dest: signed_word_eqI)

lemma sql_save_law:
  assumes "chronological host st" "sql_able host env" "sql_before st (env_nowMs env)" "sql_storable host ss"
  shows "\<exists>st'. save env st room n ss = Some (Inr (), st') \<and> chronological host st' \<and>
    (\<forall>t. env_nowMs env < t \<longrightarrow> sql_before st' t) \<and> sql_newest host st' = (sql_newest host st)(room \<mapsto> (n, ss)) \<and>
    sql_count st' = (sql_count st)(room := sql_count st room + 1)"
proof -
  define row where "row = \<lparr>row_id = autoinc st + 1, row_room = sint room,
    row_savedAt = env_nowMs env, row_lastSeq = sint n, row_data = serializeStrokes host ss\<rparr>"
  define st' where "st' = (ready st)\<lparr>snapshots := Some (rows_of st @ [row]), autoinc := autoinc st + 1\<rparr>"
  have run: "save env st room n ss = Some (Inr (), st')"
    using assms by (subst save_eq) (simp_all add: chronological_def sql_able_def sql_storable_def
      st'_def row_def)
  have rows: "rows_of st' = rows_of st @ [row]" by (simp add: st'_def rows_of_def)
  have dec: "deserializeStrokes host (row_data row) = Inr ss"
    using assms(4) by (simp add: row_def sql_storable_def deserialize_serialize strokes_fit_blob)
  have "store_inv st'"
    unfolding st'_def using assms(1) by (intro store_inv_append) (simp_all add: row_def chronological_def)
  then have chr: "chronological host st'"
    using assms(1,3) dec rows
    by (simp add: chronological_def sql_before_def sorted_wrt_append) (simp add: row_def)
  have here: "room_rows st' room = room_rows st room @ [row]"
    by (simp add: room_rows_def rows) (simp add: row_def)
  have other: "room_rows st' r = room_rows st r" if "r \<noteq> room" for r
    using that by (simp add: room_rows_def rows) (simp add: row_def)
  have "sql_newest host st' = (sql_newest host st)(room \<mapsto> (n, ss))"
    by (rule ext) (simp add: sql_newest_def here other row_board_def dec, simp add: row_def)
  moreover have "sql_count st' = (sql_count st)(room := sql_count st room + 1)"
    by (rule ext) (simp add: sql_count_def here other)
  moreover have "\<forall>t. env_nowMs env < t \<longrightarrow> sql_before st' t"
    using assms(3) rows by (fastforce simp: sql_before_def row_def)
  ultimately show ?thesis using run chr by blast
qed

lemma last_filter: "\<lbrakk>xs \<noteq> []; P (last xs)\<rbrakk> \<Longrightarrow> filter P xs \<noteq> [] \<and> last (filter P xs) = last xs"
  by (induction xs) (auto split: if_splits)

lemma sorted_wrt_last:
  assumes "sorted_wrt R xs" "a \<in> set xs" "a \<noteq> last xs"
  shows "R a (last xs)"
  using assms by (induction xs) (auto split: if_splits)

lemma sql_prune_law:
  assumes "chronological host st" "sql_able host env" "0 < unat keep" "unat keep < 2 ^ 63"
  shows "\<exists>st'. pruneKeepLatest env st room keep = (Inr (), st') \<and> chronological host st' \<and>
    (\<forall>t. sql_before st t \<longrightarrow> sql_before st' t) \<and> sql_newest host st' = sql_newest host st \<and>
    sql_count st' = (sql_count st)(room := min (unat keep) (sql_count st room))"
proof -
  obtain r st' where run: "pruneKeepLatest env st room keep = (r, st')" by fastforce
  have env: "quiet env" "good_order env" and inv: "store_inv st"
    using assms by (simp_all add: sql_able_def chronological_def)
  note res = prune_room[OF env inv assms(4) run]
  note order = prune_order[OF env inv assms(4) run]
  obtain P where P: "rows_of st' = filter P (rows_of st)" using res(6) by blast
  have chr: "chronological host st'"
    using assms(1) res(2) P by (simp add: chronological_def sorted_wrt_filter)
  note other = room_rows_other[OF res(3)]
  have here: "room_rows st' room = filter P (room_rows st room)"
    by (simp add: room_rows_def P conj_commute)
  have last: "room_rows st' room \<noteq> [] \<and> last (room_rows st' room) = last (room_rows st room)"
    if ne: "room_rows st room \<noteq> []"
  proof -
    let ?l = "last (room_rows st room)"
    have "room_rows st' room \<noteq> []" using res(5) ne assms(3) by (metis length_0_conv min_def not_gr0)
    then obtain k where k: "k \<in> set (room_rows st' room)" by (meson last_in_set)
    have "sorted_wrt (\<lambda>a b. row_savedAt a < row_savedAt b) (room_rows st room)"
      using assms(1) by (simp add: chronological_def room_rows_def sorted_wrt_filter)
    then have "?l \<in> set (room_rows st' room)"
      using order(3)[OF k, of ?l] k order(2) sorted_wrt_last ne by fastforce
    then show ?thesis using here last_filter[OF ne] by simp
  qed
  have "sql_newest host st' r = sql_newest host st r" for r
    using last other by (cases "r = room") (auto simp: sql_newest_def here)
  then have "sql_newest host st' = sql_newest host st" by blast
  moreover have "sql_count st' = (sql_count st)(room := min (unat keep) (sql_count st room))"
    by (rule ext) (simp add: sql_count_def res(5) other)
  moreover have "\<forall>t. sql_before st t \<longrightarrow> sql_before st' t"
    using order(1) by (auto simp: sql_before_def)
  ultimately show ?thesis using run res(1) chr by blast
qed

lemma sql_load_law:
  assumes "chronological host st" "sql_able host env"
  shows "\<exists>found. fst (loadLatest env st room) = Inr found \<and>
    map_option stored_board found = sql_newest host st room"
proof (cases "select_room env room (rows_of st)")
  case Nil
  then show ?thesis
    using assms select_room_set(2)[where env = env and st = st and room = room]
    by (simp add: sql_able_def chronological_def quiet_loadLatest quiet_load_none sql_newest_def)
next
  case (Cons row rest)
  have env: "quiet env" "good_order env" "env_host env = host" and inv: "store_inv st"
    using assms by (simp_all add: sql_able_def chronological_def)
  note sel = select_room_set[OF env(2), where st = st and room = room]
  have row: "row \<in> set (room_rows st room)"
    "\<forall>a\<in>set (room_rows st room). row_savedAt a \<le> row_savedAt row"
    using sel(1,4) Cons by auto
  have "sorted_wrt (\<lambda>a b. row_savedAt a < row_savedAt b) (room_rows st room)"
    using assms(1) by (simp add: chronological_def room_rows_def sorted_wrt_filter)
  then have "row \<noteq> last (room_rows st room) \<Longrightarrow> row_savedAt row < row_savedAt (last (room_rows st room))"
    using row(1) by (rule sorted_wrt_last)
  then have last: "row = last (room_rows st room)"
    using row by (metis empty_iff last_in_set leD list.set(1))
  obtain ss where ss: "row_data row \<noteq> []" "deserializeStrokes host (row_data row) = Inr ss"
    using assms(1) row(1) by (auto simp: chronological_def room_rows_def)
  then have "fst (loadLatest env st room) = Inr (Some \<lparr>stored_meta = row_meta row, stored_strokes = ss\<rparr>)"
    using quiet_loadLatest[OF env(1) inv] Cons quiet_load_row[OF env(1)] env(3) by simp
  then show ?thesis
    using row(1) last ss(2) by (auto simp: sql_newest_def row_board_def stored_board_def row_meta_def)
qed

text \<open>What a restarted program finds in the file is what the closed store held.\<close>

lemma rows_of_close [simp]: "rows_of (close_store st) = rows_of st"
  by (simp add: close_store_def rows_of_def)

lemma close_store_law:
  assumes "chronological host st"
  shows "chronological host (close_store st)" "sql_newest host (close_store st) = sql_newest host st"
proof -
  have "autoinc (close_store st) = autoinc st" "\<not> db_open (close_store st)"
    by (simp_all add: close_store_def)
  then show "chronological host (close_store st)"
    using assms by (simp add: chronological_def store_inv_def)
  show "sql_newest host (close_store st) = sql_newest host st"
    by (rule ext) (simp add: sql_newest_def room_rows_def)
qed

interpretation sqlite: snapshot_store sqlite_ops "chronological host" "sql_able host" env_nowMs sql_before
  "sql_storable host" "sql_newest host" sql_count for host
  using sql_save_law sql_prune_law sql_load_law
  by unfold_locales (simp_all add: sqlite_ops_def)

end
