(* ===== verification/CS_Writer.thy ===== *)
theory CS_Writer
  imports CS_Snapshot_Api CS_Store "HOL-Library.Multiset"
begin

text \<open>
  The background writer: class \<^verbatim>\<open>SnapshotWriter\<close> of \<^verbatim>\<open>persistence/src/snapshot_writer.cpp\<close> as a
  transition system. The threads are the callers of \<^verbatim>\<open>enqueue\<close>, the worker that runs \<^verbatim>\<open>run_\<close>, the
  callers of \<^verbatim>\<open>flush\<close> (by number) and the thread that runs the destructor. One step is one access
  to shared state: an atomic operation on \<^verbatim>\<open>pending_\<close>, a critical section of \<^verbatim>\<open>m_\<close>, a notification, or
  the start of waiting on a condition variable. A waiter of \<^verbatim>\<open>cv_\<close> checks its predicate and starts
  waiting in one step, since the predicate only changes under \<^verbatim>\<open>m_\<close>; a waiter of \<^verbatim>\<open>flushCv_\<close> does so in
  two, since \<^verbatim>\<open>pending_\<close> changes without \<^verbatim>\<open>flushM_\<close>. Waiters may also wake spuriously.
\<close>

datatype WorkerPc = WReady | WAsleep | WSaving PersistedBoardSnapshot | WSaved | WNotify | WExited

datatype FlushPc = FCheck | FMustWait | FAsleep | FReturned

datatype DtorPc = DNone | DStopped | DJoining | DFinished

record 's Writer =
  w_store :: 's
  w_keepLatest :: u64
  w_q :: "PersistedBoardSnapshot list"
  w_stop :: bool
  w_pending :: u64
  w_worker :: WorkerPc
  w_entering :: "PersistedBoardSnapshot list"
  w_notifying :: nat
  w_flush :: "nat \<rightharpoonup> FlushPc"
  w_dtor :: DtorPc

definition new_writer :: "('e, 's) ISnapshotStore option \<Rightarrow> 'e \<Rightarrow> 's \<Rightarrow> u64 \<Rightarrow> 's Writer thrown" where
  "new_writer store e st keep =
     (case store of
        None \<Rightarrow> Inl ''SnapshotWriter requires a store''
      | Some ops \<Rightarrow> (case iss_init ops e st of
          (Inl err, _) \<Rightarrow> Inl err
        | (Inr _, st') \<Rightarrow> Inr \<lparr>w_store = st', w_keepLatest = keep, w_q = [], w_stop = False,
            w_pending = 0, w_worker = WReady, w_entering = [], w_notifying = 0,
            w_flush = Map.empty, w_dtor = DNone\<rparr>))"

text \<open>The body of the \<^verbatim>\<open>try\<close> block; \<^verbatim>\<open>catch (...)\<close> swallows what it throws.\<close>

definition process_task ::
  "('e, 's) ISnapshotStore \<Rightarrow> u64 \<Rightarrow> 's \<Rightarrow> PersistedBoardSnapshot \<Rightarrow> 'e \<Rightarrow> 'e \<Rightarrow> 's option" where
  "process_task ops keep st task e1 e2 =
     (case iss_save ops e1 st (pers_room task) (pers_lastSeq task) (pers_strokes task) of
        None \<Rightarrow> None
      | Some (Inl _, st') \<Rightarrow> Some st'
      | Some (Inr _, st') \<Rightarrow> Some (snd (iss_pruneKeepLatest ops e2 st' (pers_room task) keep)))"

definition wake_worker :: "'s Writer \<Rightarrow> 's Writer" where
  "wake_worker w = (if w_worker w = WAsleep then w\<lparr>w_worker := WReady\<rparr> else w)"

definition wake_flushers :: "'s Writer \<Rightarrow> 's Writer" where
  "wake_flushers w = w\<lparr>w_flush := (\<lambda>t. if w_flush w t = Some FAsleep then Some FCheck else w_flush w t)\<rparr>"

datatype 'e wlabel =
    EnqAdd PersistedBoardSnapshot | EnqPush PersistedBoardSnapshot | EnqNotify
  | Take PersistedBoardSnapshot | Sleep | Exit | Process PersistedBoardSnapshot 'e 'e | Sub | NotifyAll
  | FlushStart nat | FlushReturn nat | FlushWait nat | FlushBlock nat
  | WakeWorker | WakeFlush nat
  | DtorStop | DtorNotify | DtorJoin

inductive enqueue_step :: "'s Writer \<Rightarrow> 'e wlabel \<Rightarrow> 's Writer \<Rightarrow> bool" where
  "enqueue_step w (EnqAdd snap)
     (w\<lparr>w_pending := w_pending w + 1, w_entering := w_entering w @ [snap]\<rparr>)"
| "w_entering w = before @ snap # after \<Longrightarrow>
   enqueue_step w (EnqPush snap) (w\<lparr>w_q := w_q w @ [snap], w_entering := before @ after,
     w_notifying := w_notifying w + 1\<rparr>)"
| "w_notifying w = Suc n \<Longrightarrow> enqueue_step w EnqNotify (wake_worker (w\<lparr>w_notifying := n\<rparr>))"

inductive run_step :: "('e, 's) ISnapshotStore \<Rightarrow> 's Writer \<Rightarrow> 'e wlabel \<Rightarrow> 's Writer \<Rightarrow> bool" for ops where
  "\<lbrakk>w_worker w = WReady; w_q w = snap # rest\<rbrakk> \<Longrightarrow>
   run_step ops w (Take snap) (w\<lparr>w_q := rest, w_worker := WSaving snap\<rparr>)"
| "\<lbrakk>w_worker w = WReady; w_q w = []; \<not> w_stop w\<rbrakk> \<Longrightarrow> run_step ops w Sleep (w\<lparr>w_worker := WAsleep\<rparr>)"
| "\<lbrakk>w_worker w = WReady; w_q w = []; w_stop w\<rbrakk> \<Longrightarrow> run_step ops w Exit (w\<lparr>w_worker := WExited\<rparr>)"
| "\<lbrakk>w_worker w = WSaving snap; process_task ops (w_keepLatest w) (w_store w) snap e1 e2 = Some st\<rbrakk> \<Longrightarrow>
   run_step ops w (Process snap e1 e2) (w\<lparr>w_store := st, w_worker := WSaved\<rparr>)"
| "w_worker w = WSaved \<Longrightarrow> run_step ops w Sub (w\<lparr>w_pending := w_pending w - 1, w_worker := WNotify\<rparr>)"
| "w_worker w = WNotify \<Longrightarrow> run_step ops w NotifyAll (wake_flushers (w\<lparr>w_worker := WReady\<rparr>))"
| "w_worker w = WAsleep \<Longrightarrow> run_step ops w WakeWorker (w\<lparr>w_worker := WReady\<rparr>)"

inductive flush_step :: "'s Writer \<Rightarrow> 'e wlabel \<Rightarrow> 's Writer \<Rightarrow> bool" where
  "w_flush w t = None \<Longrightarrow> flush_step w (FlushStart t) (w\<lparr>w_flush := (w_flush w)(t \<mapsto> FCheck)\<rparr>)"
| "\<lbrakk>w_flush w t = Some FCheck; w_pending w = 0\<rbrakk> \<Longrightarrow>
   flush_step w (FlushReturn t) (w\<lparr>w_flush := (w_flush w)(t \<mapsto> FReturned)\<rparr>)"
| "\<lbrakk>w_flush w t = Some FCheck; w_pending w \<noteq> 0\<rbrakk> \<Longrightarrow>
   flush_step w (FlushWait t) (w\<lparr>w_flush := (w_flush w)(t \<mapsto> FMustWait)\<rparr>)"
| "w_flush w t = Some FMustWait \<Longrightarrow>
   flush_step w (FlushBlock t) (w\<lparr>w_flush := (w_flush w)(t \<mapsto> FAsleep)\<rparr>)"
| "w_flush w t = Some FAsleep \<Longrightarrow>
   flush_step w (WakeFlush t) (w\<lparr>w_flush := (w_flush w)(t \<mapsto> FCheck)\<rparr>)"

inductive dtor_step :: "'s Writer \<Rightarrow> 'e wlabel \<Rightarrow> 's Writer \<Rightarrow> bool" where
  "w_dtor w = DNone \<Longrightarrow> dtor_step w DtorStop (w\<lparr>w_stop := True, w_dtor := DStopped\<rparr>)"
| "w_dtor w = DStopped \<Longrightarrow> dtor_step w DtorNotify (wake_worker (w\<lparr>w_dtor := DJoining\<rparr>))"
| "\<lbrakk>w_dtor w = DJoining; w_worker w = WExited\<rbrakk> \<Longrightarrow> dtor_step w DtorJoin (w\<lparr>w_dtor := DFinished\<rparr>)"

inductive writer_step :: "('e, 's) ISnapshotStore \<Rightarrow> 's Writer \<Rightarrow> 'e wlabel \<Rightarrow> 's Writer \<Rightarrow> bool" for ops where
  "enqueue_step w l w' \<Longrightarrow> writer_step ops w l w'"
| "run_step ops w l w' \<Longrightarrow> writer_step ops w l w'"
| "flush_step w l w' \<Longrightarrow> writer_step ops w l w'"
| "dtor_step w l w' \<Longrightarrow> writer_step ops w l w'"

text \<open>\<open>writer_run ops w0 tr w\<close>: the interleaving \<open>tr\<close> leads from \<open>w0\<close> to \<open>w\<close>.\<close>

inductive writer_run ::
  "('e, 's) ISnapshotStore \<Rightarrow> 's Writer \<Rightarrow> 'e wlabel list \<Rightarrow> 's Writer \<Rightarrow> bool" for ops w0 where
  start: "writer_run ops w0 [] w0"
| extend: "\<lbrakk>writer_run ops w0 tr w; writer_step ops w l w'\<rbrakk> \<Longrightarrow> writer_run ops w0 (tr @ [l]) w'"

lemmas writer_intros = enqueue_step.intros run_step.intros flush_step.intros dtor_step.intros

inductive_cases enqueue_stepE: "enqueue_step w l w'"
inductive_cases run_stepE: "run_step ops w l w'"
inductive_cases flush_stepE: "flush_step w l w'"
inductive_cases dtor_stepE: "dtor_step w l w'"
inductive_cases writer_stepE: "writer_step ops w l w'"

lemmas writer_stepEs = writer_stepE enqueue_stepE run_stepE flush_stepE dtor_stepE

subsection \<open>What a run did\<close>

fun pushed1 :: "'e wlabel \<Rightarrow> PersistedBoardSnapshot list" where
  "pushed1 (EnqPush snap) = [snap]" | "pushed1 _ = []"

fun added1 :: "'e wlabel \<Rightarrow> PersistedBoardSnapshot list" where
  "added1 (EnqAdd snap) = [snap]" | "added1 _ = []"

fun processed1 :: "'e wlabel \<Rightarrow> (PersistedBoardSnapshot \<times> 'e \<times> 'e) list" where
  "processed1 (Process snap e1 e2) = [(snap, e1, e2)]" | "processed1 _ = []"

definition pushed :: "'e wlabel list \<Rightarrow> PersistedBoardSnapshot list" where
  "pushed tr = concat (map pushed1 tr)"

definition added :: "'e wlabel list \<Rightarrow> PersistedBoardSnapshot list" where
  "added tr = concat (map added1 tr)"

definition processed :: "'e wlabel list \<Rightarrow> (PersistedBoardSnapshot \<times> 'e \<times> 'e) list" where
  "processed tr = concat (map processed1 tr)"

fun in_hand :: "WorkerPc \<Rightarrow> PersistedBoardSnapshot list" where
  "in_hand (WSaving snap) = [snap]" | "in_hand _ = []"

fun unfinished :: "WorkerPc \<Rightarrow> nat" where
  "unfinished (WSaving _) = 1" | "unfinished WSaved = 1" | "unfinished _ = 0"

fun process_all :: "('e, 's) ISnapshotStore \<Rightarrow> u64 \<Rightarrow> 's \<Rightarrow> (PersistedBoardSnapshot \<times> 'e \<times> 'e) list \<Rightarrow> 's option" where
  "process_all ops keep st [] = Some st"
| "process_all ops keep st ((snap, e1, e2) # ts) =
     (case process_task ops keep st snap e1 e2 of None \<Rightarrow> None | Some st' \<Rightarrow> process_all ops keep st' ts)"

lemma trace_simps [simp]:
  "pushed [] = []" "added [] = []" "processed [] = []"
  "pushed (tr @ tr') = pushed tr @ pushed tr'" "added (tr @ tr') = added tr @ added tr'"
  "processed (tr @ tr') = processed tr @ processed tr'"
  "pushed (l # tr) = pushed1 l @ pushed tr" "added (l # tr) = added1 l @ added tr"
  "processed (l # tr) = processed1 l @ processed tr"
  by (simp_all add: pushed_def added_def processed_def)

lemma process_all_append:
  "process_all ops keep st (ts @ us) =
     (case process_all ops keep st ts of None \<Rightarrow> None | Some st' \<Rightarrow> process_all ops keep st' us)"
  by (induction ts arbitrary: st) (auto split: option.split)

lemma wake_simps [simp]:
  "w_store (wake_worker w) = w_store w" "w_keepLatest (wake_worker w) = w_keepLatest w"
  "w_q (wake_worker w) = w_q w" "w_stop (wake_worker w) = w_stop w"
  "w_pending (wake_worker w) = w_pending w" "w_entering (wake_worker w) = w_entering w"
  "w_notifying (wake_worker w) = w_notifying w" "w_flush (wake_worker w) = w_flush w"
  "w_dtor (wake_worker w) = w_dtor w"
  "w_worker (wake_worker w) = (if w_worker w = WAsleep then WReady else w_worker w)"
  "in_hand (w_worker (wake_worker w)) = in_hand (w_worker w)"
  "unfinished (w_worker (wake_worker w)) = unfinished (w_worker w)"
  by (simp_all add: wake_worker_def)

lemma wake_flushers_simps [simp]:
  "w_store (wake_flushers w) = w_store w" "w_keepLatest (wake_flushers w) = w_keepLatest w"
  "w_q (wake_flushers w) = w_q w" "w_stop (wake_flushers w) = w_stop w"
  "w_pending (wake_flushers w) = w_pending w" "w_entering (wake_flushers w) = w_entering w"
  "w_notifying (wake_flushers w) = w_notifying w" "w_worker (wake_flushers w) = w_worker w"
  "w_dtor (wake_flushers w) = w_dtor w"
  by (simp_all add: wake_flushers_def)


subsection \<open>Invariants of every interleaving\<close>

lemma run_fifo:
  assumes "writer_run ops w0 tr w" "w_q w0 = []" "w_worker w0 = WReady"
  shows "map fst (processed tr) @ in_hand (w_worker w) @ w_q w = pushed tr"
  using assms
proof (induction rule: writer_run.induct)
  case (extend tr w l w')
  then show ?case by (elim writer_stepEs) auto
qed simp

lemma run_added:
  assumes "writer_run ops w0 tr w" "w_entering w0 = []"
  shows "mset (added tr) = mset (pushed tr) + mset (w_entering w)"
  using assms
proof (induction rule: writer_run.induct)
  case (extend tr w l w')
  then show ?case by (elim writer_stepEs) auto
qed simp

definition open_tasks :: "'s Writer \<Rightarrow> nat" where
  "open_tasks w = length (w_entering w) + length (w_q w) + unfinished (w_worker w)"

lemma run_pending:
  assumes "writer_run ops w0 tr w" "w_entering w0 = []" "w_q w0 = []" "w_worker w0 = WReady" "w_pending w0 = 0"
  shows "w_pending w = of_nat (open_tasks w)"
  using assms
proof (induction rule: writer_run.induct)
  case (extend tr w l w')
  then show ?case by (elim writer_stepEs) (auto simp: open_tasks_def)
qed (simp add: open_tasks_def)

lemma run_store:
  assumes "writer_run ops w0 tr w"
  shows "process_all ops (w_keepLatest w0) (w_store w0) (processed tr) = Some (w_store w) \<and>
    w_keepLatest w = w_keepLatest w0"
  using assms
proof (induction rule: writer_run.induct)
  case (extend tr w l w')
  then show ?case by (elim writer_stepEs) (auto simp: process_all_append)
qed simp

lemma run_saved:
  assumes "writer_run ops w0 tr w" "w_worker w0 = WReady"
  shows "w_worker w = WSaved \<longrightarrow> processed tr \<noteq> []"
  using assms
proof (induction rule: writer_run.induct)
  case (extend tr w l w')
  then show ?case by (elim writer_stepEs) auto
qed simp

lemma open_tasks_le:
  assumes "writer_run ops w0 tr w" "w_q w0 = []" "w_worker w0 = WReady" "w_entering w0 = []"
  shows "open_tasks w \<le> length (added tr)"
proof -
  have "length (added tr) = length (pushed tr) + length (w_entering w)"
    using arg_cong[OF run_added[OF assms(1,4)], of size] by simp
  moreover have "length (processed tr) + length (in_hand (w_worker w)) + length (w_q w) = length (pushed tr)"
    using arg_cong[OF run_fifo[OF assms(1-3)], of length] by simp
  moreover have "unfinished (w_worker w) \<le> length (processed tr) + length (in_hand (w_worker w))"
    using run_saved[OF assms(1,3)] by (cases "w_worker w") (auto simp: Suc_le_eq)
  ultimately show ?thesis by (simp add: open_tasks_def)
qed

definition awake :: "'s Writer \<Rightarrow> bool" where
  "awake w \<longleftrightarrow> (w_worker w = WAsleep \<and> (w_q w \<noteq> [] \<or> w_stop w) \<longrightarrow>
     0 < w_notifying w \<or> w_dtor w = DStopped) \<and> (w_stop w \<longleftrightarrow> w_dtor w \<noteq> DNone) \<and>
     (w_worker w = WExited \<longrightarrow> w_stop w)"

lemma run_awake:
  assumes "writer_run ops w0 tr w" "awake w0"
  shows "awake w"
  using assms
proof (induction rule: writer_run.induct)
  case (extend tr w l w')
  then show ?case by (elim writer_stepEs) (auto simp: awake_def)
qed simp

text \<open>The states the constructor returns.\<close>

lemma new_writer_fields:
  assumes "new_writer (Some ops) e st keep = Inr w0"
  shows "w_q w0 = []" "w_worker w0 = WReady" "w_entering w0 = []" "w_pending w0 = 0" "awake w0"
    "w_keepLatest w0 = keep" "w_flush w0 = Map.empty" "w_notifying w0 = 0" "\<not> w_stop w0" "w_dtor w0 = DNone"
  using assms by (auto simp: new_writer_def awake_def split: prod.splits sum.splits)

lemma writer_run_snocD:
  assumes "writer_run ops w0 (tr @ [l]) w'"
  shows "\<exists>w. writer_run ops w0 tr w \<and> writer_step ops w l w'"
  using assms by (auto elim: writer_run.cases)

text \<open>
  C14: The writer neither loses, reorders nor repeats snapshots. In every interleaving of enqueuing
  threads, the worker, flushing threads and the destructor, the snapshots handed to the store, the
  one in the worker's hands and the queue are together exactly the pushed snapshots in push order;
  the store is the result of saving and pruning for these snapshots in this order; and every
  enqueued snapshot has either been pushed or is still inside \<^verbatim>\<open>enqueue\<close>.
\<close>

theorem writer_fifo:
  assumes "new_writer (Some ops) e st keep = Inr w0" "writer_run ops w0 tr w"
  shows "map fst (processed tr) @ in_hand (w_worker w) @ w_q w = pushed tr \<and>
    process_all ops keep (w_store w0) (processed tr) = Some (w_store w) \<and>
    mset (added tr) = mset (pushed tr) + mset (w_entering w)"
  using run_fifo[OF assms(2)] run_added[OF assms(2)] run_store[OF assms(2)] new_writer_fields[OF assms(1)]
  by simp

lemma idle_processed:
  assumes "writer_run ops w0 tr w" "w_q w0 = []" "w_worker w0 = WReady" "w_entering w0 = []" "w_pending w0 = 0"
    and "w_pending w = 0" "length (added tr) < 2 ^ 64"
  shows "map fst (processed tr) = pushed tr \<and> mset (pushed tr) = mset (added tr) \<and> w_q w = []"
proof -
  have "open_tasks w < 2 ^ 64"
    using open_tasks_le[OF assms(1-4)] assms(7) by simp
  then have "open_tasks w = 0"
    using arg_cong[OF run_pending[OF assms(1,4,2,3,5)], of unat] assms(6) by (simp add: unat_of_nat)
  then have "w_q w = []" "w_entering w = []" "in_hand (w_worker w) = []"
    by (cases "w_worker w"; simp add: open_tasks_def)+
  then show ?thesis using run_fifo[OF assms(1-3)] run_added[OF assms(1,4)] by simp
qed

text \<open>
  \<^verbatim>\<open>flush\<close> keeps its promise: at the moment it returns, every snapshot whose \<^verbatim>\<open>enqueue\<close> has begun
  has been pushed, taken and handed to the store (fewer than \<open>2^64\<close> enqueued).
\<close>

theorem flush_waits_for_all:
  assumes "new_writer (Some ops) e st keep = Inr w0" "writer_run ops w0 (tr @ [FlushReturn t]) w"
    and "length (added tr) < 2 ^ 64"
  shows "map fst (processed tr) = pushed tr \<and> mset (pushed tr) = mset (added tr) \<and> w_q w = [] \<and>
    w_flush w t = Some FReturned"
proof -
  obtain v where run: "writer_run ops w0 tr v" and step: "writer_step ops v (FlushReturn t) w"
    using writer_run_snocD[OF assms(2)] by blast
  from step have v: "w_pending v = 0" "w = v\<lparr>w_flush := (w_flush v)(t \<mapsto> FReturned)\<rparr>"
    by (auto elim: writer_stepEs)
  then show ?thesis
    using idle_processed[OF run new_writer_fields(1-4)[OF assms(1)] v(1) assms(3)] by simp
qed

text \<open>
  The worker drains the queue before it exits: when \<^verbatim>\<open>run_\<close> returns after \<^verbatim>\<open>stop_\<close>, every pushed
  snapshot has been handed to the store.
\<close>

theorem exit_drains_queue:
  assumes "new_writer (Some ops) e st keep = Inr w0" "writer_run ops w0 (tr @ [Exit]) w"
  shows "map fst (processed tr) = pushed tr \<and> w_stop w"
proof -
  obtain v where run: "writer_run ops w0 tr v" and step: "writer_step ops v Exit w"
    using writer_run_snocD[OF assms(2)] by blast
  from step have "w_worker v = WReady \<and> w_q v = [] \<and> w_stop w" by (elim writer_stepEs) auto
  then show ?thesis using run_fifo[OF run] new_writer_fields[OF assms(1)] by simp
qed


subsection \<open>Progress of the worker\<close>

fun worker_label :: "'e wlabel \<Rightarrow> bool" where
  "worker_label (Take _) = True"
| "worker_label (Process _ _ _) = True"
| "worker_label Sub = True"
| "worker_label NotifyAll = True"
| "worker_label _ = False"

lemma worker_pushes_nothing: "\<forall>l\<in>set tr. worker_label l \<Longrightarrow> pushed tr = []"
proof (induction tr)
  case (Cons l tr)
  then show ?case by (cases l) auto
qed simp

text \<open>\<open>w'\<close> is reached from \<open>w\<close> by steps of the worker, which is then ready for the next task.\<close>

definition worker_reaches :: "('e, 's) ISnapshotStore \<Rightarrow> 's Writer \<Rightarrow> PersistedBoardSnapshot list \<Rightarrow> bool" where
  "worker_reaches ops w q' \<longleftrightarrow> (\<forall>w0 tr. writer_run ops w0 tr w \<longrightarrow> (\<exists>tr' w'.
     writer_run ops w0 (tr @ tr') w' \<and> (\<forall>l\<in>set tr'. worker_label l) \<and> w_worker w' = WReady \<and>
     w_q w' = q' \<and> w_entering w' = w_entering w))"

lemma worker_reaches_step:
  assumes "run_step ops w l w'" "worker_label l" "w_entering w' = w_entering w" "worker_reaches ops w' q'"
  shows "worker_reaches ops w q'"
  unfolding worker_reaches_def
proof (intro allI impI)
  fix w0 tr assume "writer_run ops w0 tr w"
  then have "writer_run ops w0 (tr @ [l]) w'"
    using assms(1) by (blast intro: writer_run.extend writer_step.intros)
  then obtain tr' w'' where "writer_run ops w0 ((tr @ [l]) @ tr') w''" "\<forall>l\<in>set tr'. worker_label l"
    "w_worker w'' = WReady" "w_q w'' = q'" "w_entering w'' = w_entering w'"
    using assms(4) unfolding worker_reaches_def by blast
  then show "\<exists>tr' w'. writer_run ops w0 (tr @ tr') w' \<and> (\<forall>l\<in>set tr'. worker_label l) \<and>
      w_worker w' = WReady \<and> w_q w' = q' \<and> w_entering w' = w_entering w"
    using assms(2,3) by (intro exI[of _ "l # tr'"] exI[of _ w'']) auto
qed

lemma worker_reaches_ready: "\<lbrakk>w_worker w = WReady; w_q w = q'\<rbrakk> \<Longrightarrow> worker_reaches ops w q'"
  unfolding worker_reaches_def
proof (intro allI impI)
  fix w0 tr assume "w_worker w = WReady" "w_q w = q'" "writer_run ops w0 tr w"
  then show "\<exists>tr' w'. writer_run ops w0 (tr @ tr') w' \<and> (\<forall>l\<in>set tr'. worker_label l) \<and>
      w_worker w' = WReady \<and> w_q w' = q' \<and> w_entering w' = w_entering w"
    by (intro exI[of _ "[]"] exI[of _ w]) simp
qed

lemma worker_drains_from:
  assumes "\<And>st snap. snap \<in> set (in_hand (w_worker w) @ w_q w) \<Longrightarrow>
      process_task ops (w_keepLatest w) st snap e1 e2 \<noteq> None"
    and "w_worker w \<noteq> WExited" "w_worker w \<noteq> WAsleep"
  shows "worker_reaches ops w []"
  using assms
proof (induction "6 * length (w_q w) + (case w_worker w of WSaving _ \<Rightarrow> 4 | WSaved \<Rightarrow> 2 | WNotify \<Rightarrow> 1 | _ \<Rightarrow> 0)"
    arbitrary: w rule: less_induct)
  case less
  note IH = less(1) and proc = less(2)
  show ?case
  proof (cases "w_worker w")
    case WReady
    show ?thesis
    proof (cases "w_q w")
      case (Cons snap rest)
      with WReady have "run_step ops w (Take snap) (w\<lparr>w_q := rest, w_worker := WSaving snap\<rparr>)"
        by (rule run_step.intros)
      then show ?thesis
        by (rule worker_reaches_step) (use Cons WReady proc in \<open>auto intro!: IH\<close>)
    qed (use WReady in \<open>simp add: worker_reaches_ready\<close>)
  next
    case (WSaving snap)
    then obtain st where "process_task ops (w_keepLatest w) (w_store w) snap e1 e2 = Some st"
      using proc[of snap] by auto
    with WSaving have "run_step ops w (Process snap e1 e2) (w\<lparr>w_store := st, w_worker := WSaved\<rparr>)"
      by (rule run_step.intros)
    then show ?thesis
      by (rule worker_reaches_step) (use WSaving proc in \<open>auto intro!: IH\<close>)
  next
    case WSaved
    then have "run_step ops w Sub (w\<lparr>w_pending := w_pending w - 1, w_worker := WNotify\<rparr>)"
      by (rule run_step.intros)
    then show ?thesis
      by (rule worker_reaches_step) (use WSaved proc in \<open>auto intro!: IH\<close>)
  next
    case WNotify
    then have "run_step ops w NotifyAll (wake_flushers (w\<lparr>w_worker := WReady\<rparr>))"
      by (rule run_step.intros)
    then show ?thesis
      by (rule worker_reaches_step) (use WNotify proc in \<open>auto intro!: IH\<close>)
  qed (use less in simp_all)
qed

text \<open>
  C16: The queue is drained and no wakeup of the worker is lost. From every reachable state in which
  no \<^verbatim>\<open>enqueue\<close> is about to notify and the writer is not being destroyed, steps of the worker alone
  lead to an empty queue with every pushed snapshot handed to the store, also when saving throws;
  in particular the worker is never asleep while there is work.
\<close>

theorem worker_drains_queue:
  assumes "new_writer (Some ops) e st keep = Inr w0" "writer_run ops w0 tr w"
    and "w_notifying w = 0" "\<not> w_stop w"
    and "\<forall>s. \<forall>snap\<in>set (pushed tr). process_task ops keep s snap e1 e2 \<noteq> None"
  shows "(w_worker w = WAsleep \<longrightarrow> w_q w = []) \<and> (\<exists>tr' w'. writer_run ops w0 (tr @ tr') w' \<and>
    (\<forall>l\<in>set tr'. worker_label l) \<and> w_q w' = [] \<and> map fst (processed (tr @ tr')) = pushed tr)"
proof -
  note new = new_writer_fields[OF assms(1)]
  have wake: "w_worker w \<noteq> WExited" "w_worker w = WAsleep \<longrightarrow> w_q w = []"
    using run_awake[OF assms(2) new(5)] assms(3,4) by (auto simp: awake_def)
  have fifo: "map fst (processed tr) @ in_hand (w_worker w) @ w_q w = pushed tr"
    by (rule run_fifo[OF assms(2) new(1,2)])
  have "\<exists>tr' w'. writer_run ops w0 (tr @ tr') w' \<and> (\<forall>l\<in>set tr'. worker_label l) \<and> w_q w' = [] \<and>
      in_hand (w_worker w') = []"
  proof (cases "w_worker w = WAsleep")
    case True
    then show ?thesis using wake(2) assms(2) by (intro exI[of _ "[]"] exI[of _ w]) simp
  next
    case False
    have "snap \<in> set (pushed tr)" if "snap \<in> set (in_hand (w_worker w) @ w_q w)" for snap
      using that unfolding fifo[symmetric] by auto
    then have "worker_reaches ops w []"
      using assms(5) run_store[OF assms(2)] new(6) wake(1) False by (intro worker_drains_from) auto
    then show ?thesis using assms(2) unfolding worker_reaches_def by (metis in_hand.simps(2))
  qed
  then obtain tr' w' where run': "writer_run ops w0 (tr @ tr') w'" "\<forall>l\<in>set tr'. worker_label l"
    "w_q w' = []" "in_hand (w_worker w') = []" by blast
  then have "map fst (processed (tr @ tr')) = pushed tr"
    using run_fifo[OF run'(1) new(1,2)] worker_pushes_nothing[OF run'(2)] by simp
  then show ?thesis using run' wake(2) by blast
qed


subsection \<open>Evaluating runs\<close>

lemma writer_run_Nil: "writer_run ops w [] w' \<longleftrightarrow> w' = w"
  by (auto elim: writer_run.cases intro: writer_run.start)

lemma writer_run_prepend:
  assumes "writer_run ops w1 tr w'" "writer_step ops w l w1"
  shows "writer_run ops w (l # tr) w'"
  using assms
proof (induction rule: writer_run.induct)
  case start
  then show ?case using writer_run.extend[OF writer_run.start] by fastforce
next
  case (extend tr v m v')
  then show ?case using writer_run.extend[of ops w "l # tr" v m v'] by simp
qed

lemma writer_run_ConsE:
  assumes "writer_run ops w (l # tr) w'"
  shows "\<exists>w1. writer_step ops w l w1 \<and> writer_run ops w1 tr w'"
  using assms
proof (induction tr arbitrary: w' rule: rev_induct)
  case Nil
  then show ?case using writer_run_snocD[of ops w "[]" l w'] by (auto simp: writer_run_Nil)
next
  case (snoc m tr)
  then obtain v where "writer_run ops w (l # tr) v" "writer_step ops v m w'"
    using writer_run_snocD[of ops w "l # tr" m w'] by auto
  then show ?case using snoc.IH by (blast intro: writer_run.extend)
qed

lemma writer_run_Cons:
  "writer_run ops w (l # tr) w' \<longleftrightarrow> (\<exists>w1. writer_step ops w l w1 \<and> writer_run ops w1 tr w')"
  by (blast intro: writer_run_prepend dest: writer_run_ConsE)

lemmas writer_eval = writer_run_Nil writer_run_Cons writer_step.simps enqueue_step.simps run_step.simps
  flush_step.simps dtor_step.simps Cons_eq_append_conv

text \<open>
  C34: A wakeup of \<^verbatim>\<open>flush\<close> can be lost, since \<^verbatim>\<open>pending_\<close> is decremented and \<^verbatim>\<open>flushCv_\<close> notified
  without \<^verbatim>\<open>flushM_\<close>. After any snapshot is processed a state is reachable in which nothing is
  pending, the worker sleeps and \<^verbatim>\<open>flush\<close> is blocked; the only steps left are spurious wakeups and
  new calls, so the caller of \<^verbatim>\<open>flush\<close> may wait forever.
\<close>

theorem flush_wakeup_lost:
  assumes "new_writer (Some ops) e st keep = Inr w0"
    and "process_task ops keep (w_store w0) snap e1 e2 = Some st1"
  shows "\<exists>tr w. writer_run ops w0 tr w \<and> added tr = [snap] \<and> map fst (processed tr) = [snap] \<and>
    w_pending w = 0 \<and> w_flush w t = Some FAsleep \<and>
    (\<forall>l w'. writer_step ops w l w' \<longrightarrow> l \<in> {WakeWorker, WakeFlush t, DtorStop} \<or>
       (\<exists>s. l = EnqAdd s) \<or> (\<exists>t'. t' \<noteq> t \<and> l = FlushStart t'))"
proof -
  obtain w where run: "writer_run ops w0 [EnqAdd snap, EnqPush snap, EnqNotify, Take snap, Process snap e1 e2,
      FlushStart t, FlushWait t, Sub, NotifyAll, FlushBlock t, Sleep] w"
    and w: "w_pending w = 0" "w_flush w = [t \<mapsto> FAsleep]" "w_worker w = WAsleep" "w_q w = []"
      "w_entering w = []" "w_notifying w = 0" "w_dtor w = DNone"
    using assms new_writer_fields[OF assms(1)] by (fastforce simp add: writer_eval wake_flushers_def)
  have "l \<in> {WakeWorker, WakeFlush t, DtorStop} \<or> (\<exists>s. l = EnqAdd s) \<or> (\<exists>t'. t' \<noteq> t \<and> l = FlushStart t')"
    if "writer_step ops w l w'" for l w'
    using that w by (elim writer_stepEs) (auto split: if_splits)
  then show ?thesis using run w(1,2)
    by (intro exI[of _ "[EnqAdd snap, EnqPush snap, EnqNotify, Take snap, Process snap e1 e2,
      FlushStart t, FlushWait t, Sub, NotifyAll, FlushBlock t, Sleep]"] exI[of _ w]) simp
qed



subsection \<open>What the store holds in the end\<close>

definition task_board :: "PersistedBoardSnapshot \<Rightarrow> Seq \<times> Stroke list" where
  "task_board task = (pers_lastSeq task, pers_strokes task)"

text \<open>The last board enqueued for each room, over what the store had before.\<close>

fun boards_after :: "(RoomId \<rightharpoonup> Seq \<times> Stroke list) \<Rightarrow> PersistedBoardSnapshot list \<Rightarrow>
    (RoomId \<rightharpoonup> Seq \<times> Stroke list)" where
  "boards_after old [] = old"
| "boards_after old (task # tasks) = boards_after (old(pers_room task \<mapsto> task_board task)) tasks"

lemma boards_after_last:
  "boards_after old tasks room = (let mine = filter (\<lambda>task. pers_room task = room) tasks in
     if mine = [] then old room else Some (task_board (last mine)))"
  by (induction tasks arbitrary: old) (auto simp: Let_def)

context snapshot_store
begin

lemma process_task_stores:
  assumes "valid s" "able e1" "able e2" "before s (clock e1)" "storable (pers_strokes task)"
    and "0 < unat keep" "unat keep < 2 ^ 63"
  shows "\<exists>s'. process_task ops keep s task e1 e2 = Some s' \<and> valid s' \<and>
    (\<forall>t. clock e1 < t \<longrightarrow> before s' t) \<and> newest s' = (newest s)(pers_room task \<mapsto> task_board task) \<and>
    count s' (pers_room task) \<le> unat keep \<and> (\<forall>r. r \<noteq> pers_room task \<longrightarrow> count s' r = count s r)"
proof -
  obtain s1 where s1: "iss_save ops e1 s (pers_room task) (pers_lastSeq task) (pers_strokes task) = Some (Inr (), s1)"
    "valid s1" "\<forall>t. clock e1 < t \<longrightarrow> before s1 t" "newest s1 = (newest s)(pers_room task \<mapsto> task_board task)"
    "count s1 = (count s)(pers_room task := count s (pers_room task) + 1)"
    using save_law[OF assms(1,2,4,5)] unfolding task_board_def by blast
  obtain s2 where "iss_pruneKeepLatest ops e2 s1 (pers_room task) keep = (Inr (), s2)" "valid s2"
    "\<forall>t. before s1 t \<longrightarrow> before s2 t" "newest s2 = newest s1"
    "count s2 = (count s1)(pers_room task := min (unat keep) (count s1 (pers_room task)))"
    using prune_law[OF s1(2) assms(3,6,7)] by blast
  then show ?thesis using s1 by (simp add: process_task_def)
qed

lemma process_all_stores:
  assumes "valid s" "0 < unat keep" "unat keep < 2 ^ 63"
    and "\<forall>(task, e1, e2)\<in>set ts. able e1 \<and> able e2 \<and> storable (pers_strokes task) \<and> before s (clock e1)"
    and "sorted_wrt (<) (map (\<lambda>(task, e1, e2). clock e1) ts)"
  shows "\<exists>s'. process_all ops keep s ts = Some s' \<and> valid s' \<and>
    newest s' = boards_after (newest s) (map fst ts) \<and>
    (\<forall>r. r \<in> pers_room ` set (map fst ts) \<or> count s r \<le> unat keep \<longrightarrow> count s' r \<le> unat keep)"
  using assms
proof (induction ts arbitrary: s)
  case (Cons t ts)
  obtain task e1 e2 where t: "t = (task, e1, e2)" by (cases t)
  obtain s1 where s1: "process_task ops keep s task e1 e2 = Some s1" "valid s1"
    "\<forall>t. clock e1 < t \<longrightarrow> before s1 t" "newest s1 = (newest s)(pers_room task \<mapsto> task_board task)"
    "count s1 (pers_room task) \<le> unat keep" "\<forall>r. r \<noteq> pers_room task \<longrightarrow> count s1 r = count s r"
    using process_task_stores[of s e1 e2 task keep] Cons.prems t by auto
  have "\<exists>s'. process_all ops keep s1 ts = Some s' \<and> valid s' \<and>
      newest s' = boards_after (newest s1) (map fst ts) \<and>
      (\<forall>r. r \<in> pers_room ` set (map fst ts) \<or> count s1 r \<le> unat keep \<longrightarrow> count s' r \<le> unat keep)"
  proof (rule Cons.IH)
    show "\<forall>(task, e1, e2)\<in>set ts. able e1 \<and> able e2 \<and> storable (pers_strokes task) \<and> before s1 (clock e1)"
      using Cons.prems(4,5) s1(3) t by fastforce
  qed (use Cons.prems s1(2) in simp_all)
  then obtain s' where s': "process_all ops keep s1 ts = Some s'" "valid s'"
    "newest s' = boards_after (newest s1) (map fst ts)"
    "\<forall>r. r \<in> pers_room ` set (map fst ts) \<or> count s1 r \<le> unat keep \<longrightarrow> count s' r \<le> unat keep"
    by blast
  have "count s' r \<le> unat keep" if "r \<in> pers_room ` set (map fst (t # ts)) \<or> count s r \<le> unat keep" for r
    using that s'(4) s1(5,6) t by (cases "r = pers_room task") auto
  then show ?case using s' s1 t by auto
qed simp

end

lemma init_chronological:
  assumes "chronological host st" "init_store env st = (Inr u, st')"
  shows "chronological host st' \<and> rows_of st' = rows_of st"
  using assms
  by (auto simp: chronological_def init_store_def store_inv_def rows_of_def Let_def
      split: if_splits sum.splits option.splits)

text \<open>The store when \<^verbatim>\<open>flush\<close> returns, in terms of the contract.\<close>

lemma flush_returns_store:
  assumes "new_writer (Some sqlite_ops) e st keep = Inr w0" "chronological host st"
    and "writer_run sqlite_ops w0 (tr @ [FlushReturn t]) w" "length (added tr) < 2 ^ 64"
    and "0 < unat keep" "unat keep < 2 ^ 63"
    and "\<forall>(task, e1, e2)\<in>set (processed tr). sql_able host e1 \<and> sql_able host e2 \<and>
           sql_storable host (pers_strokes task) \<and> sql_before st (env_nowMs e1)"
    and "sorted_wrt (<) (map (\<lambda>(task, e1, e2). env_nowMs e1) (processed tr))"
  shows "chronological host (w_store w)"
    "sql_newest host (w_store w) = boards_after (sql_newest host st) (pushed tr)"
    "room \<in> pers_room ` set (pushed tr) \<Longrightarrow> sql_count (w_store w) room \<le> unat keep"
proof -
  note new = new_writer_fields[OF assms(1)]
  have w0: "chronological host (w_store w0)" "rows_of (w_store w0) = rows_of st"
    using assms(1) init_chronological[OF assms(2)]
    by (auto simp: new_writer_def sqlite_ops_def split: prod.splits sum.splits)
  obtain v where run: "writer_run sqlite_ops w0 tr v" and step: "writer_step sqlite_ops v (FlushReturn t) w"
    using writer_run_snocD[OF assms(3)] by blast
  from step have v: "w_pending v = 0" "w_store w = w_store v" by (elim writer_stepEs; simp)+
  have same: "sql_newest host (w_store w0) = sql_newest host st" "sql_before (w_store w0) = sql_before st"
    using w0(2) by (auto simp: fun_eq_iff sql_newest_def room_rows_def sql_before_def)
  have done_all: "map fst (processed tr) = pushed tr"
    using idle_processed[OF run new(1-4)] v(1) assms(4) by blast
  obtain s' where s': "process_all sqlite_ops keep (w_store w0) (processed tr) = Some s'" "chronological host s'"
    "sql_newest host s' = boards_after (sql_newest host st) (map fst (processed tr))"
    "\<forall>r. r \<in> pers_room ` set (map fst (processed tr)) \<or> sql_count (w_store w0) r \<le> unat keep \<longrightarrow>
       sql_count s' r \<le> unat keep"
    using sqlite.process_all_stores[OF w0(1) assms(5,6), of "processed tr"] assms(7,8) same by auto
  have "s' = w_store w" using run_store[OF run] new(6) s'(1) v(2) by simp
  then show "chronological host (w_store w)"
    "sql_newest host (w_store w) = boards_after (sql_newest host st) (pushed tr)"
    "room \<in> pers_room ` set (pushed tr) \<Longrightarrow> sql_count (w_store w) room \<le> unat keep"
    using s'(2-4) done_all by auto
qed

text \<open>
  C8: From \<^verbatim>\<open>enqueue\<close> to the database: when \<^verbatim>\<open>flush\<close> returns in a run of the writer over the SQLite
  store, with no SQLite errors, blobs below 2 GiB, a positive \<^verbatim>\<open>keepLatest_\<close> and a clock that
  reads a later millisecond at every save, loading the latest
  snapshot of a room returns the sequence number and strokes of the last snapshot pushed for that
  room (or the one stored before, if none was), and each such room has at most \<^verbatim>\<open>keepLatest_\<close>
  snapshots left.
\<close>

theorem flushed_snapshots_are_stored:
  assumes "new_writer (Some sqlite_ops) e st keep = Inr w0" "chronological host st"
    and "writer_run sqlite_ops w0 (tr @ [FlushReturn t]) w" "length (added tr) < 2 ^ 64"
    and "0 < unat keep" "unat keep < 2 ^ 63"
    and "\<forall>(task, e1, e2)\<in>set (processed tr). sql_able host e1 \<and> sql_able host e2 \<and>
           sql_storable host (pers_strokes task) \<and> sql_before st (env_nowMs e1)"
    and "sorted_wrt (<) (map (\<lambda>(task, e1, e2). env_nowMs e1) (processed tr))"
    and "sql_able host e'"
  shows "\<exists>found. fst (loadLatest e' (w_store w) room) = Inr found \<and>
    map_option stored_board found =
      (let mine = filter (\<lambda>task. pers_room task = room) (pushed tr) in
       if mine = [] then sql_newest host st room else Some (task_board (last mine))) \<and>
    (room \<in> pers_room ` set (pushed tr) \<longrightarrow> sql_count (w_store w) room \<le> unat keep)"
  using sqlite.load_law[OF flush_returns_store(1)[OF assms(1-8)] assms(9), of room]
    flush_returns_store(2,3)[OF assms(1-8)]
  by (auto simp: boards_after_last sqlite_ops_def)


subsection \<open>A concrete run\<close>

definition sample_task :: PersistedBoardSnapshot where
  "sample_task = \<lparr>pers_room = 5, pers_lastSeq = 9, pers_strokes = [sample_stroke]\<rparr>"

definition sample_w0 :: "Store Writer" where
  "sample_w0 = \<lparr>w_store = ready (new_store None 0), w_keepLatest = 10, w_q = [], w_stop = False,
     w_pending = 0, w_worker = WReady, w_entering = [], w_notifying = 0, w_flush = Map.empty, w_dtor = DNone\<rparr>"

definition sample_trace :: "SqliteEnv wlabel list" where
  "sample_trace = [EnqAdd sample_task, EnqPush sample_task, EnqNotify, Take sample_task,
     Process sample_task (plain_env 100) (plain_env 101), Sub, NotifyAll]"

lemma sample_new: "new_writer (Some sqlite_ops) (plain_env 0) (new_store None 0) 10 = Inr sample_w0"
  by (simp add: new_writer_def sqlite_ops_def quiet_init plain_env_ok new_store_inv sample_w0_def)

lemma save_defined: "length (serializeStrokes (env_host env) ss) < 2 ^ 31 \<Longrightarrow> save env st room n ss \<noteq> None"
  by (auto simp: save_def sint_blob_size Let_def split: prod.splits sum.splits)

lemma sample_blob: "length (serializeStrokes bo [sample_stroke]) < 2 ^ 31"
  by (simp add: length_serializeStrokes sample_stroke_def)

lemma sample_process: "process_task sqlite_ops keep st sample_task e1 e2 \<noteq> None"
  using save_defined[OF sample_blob]
  by (auto simp: process_task_def sqlite_ops_def sample_task_def split: option.splits sum.splits)

lemma sample_run:
  "\<exists>w. writer_run sqlite_ops sample_w0 (sample_trace @ [FlushStart 0, FlushReturn 0]) w"
  "\<exists>w. writer_run sqlite_ops sample_w0 (sample_trace @ [DtorStop, DtorNotify, Exit]) w"
  "\<exists>w. writer_run sqlite_ops sample_w0 [EnqAdd sample_task, EnqPush sample_task, EnqNotify] w \<and>
     w_notifying w = 0 \<and> \<not> w_stop w"
proof -
  obtain st where "process_task sqlite_ops 10 (ready (new_store None 0)) sample_task (plain_env 100)
      (plain_env 101) = Some st"
    using sample_process by blast
  then show "\<exists>w. writer_run sqlite_ops sample_w0 (sample_trace @ [FlushStart 0, FlushReturn 0]) w"
    "\<exists>w. writer_run sqlite_ops sample_w0 (sample_trace @ [DtorStop, DtorNotify, Exit]) w"
    "\<exists>w. writer_run sqlite_ops sample_w0 [EnqAdd sample_task, EnqPush sample_task, EnqNotify] w \<and>
     w_notifying w = 0 \<and> \<not> w_stop w"
    by (simp_all add: sample_trace_def sample_w0_def writer_eval wake_flushers_def wake_worker_def)
qed

lemma sample_trace_simps [simp]:
  "added sample_trace = [sample_task]" "pushed sample_trace = [sample_task]"
  "processed sample_trace = [(sample_task, plain_env 100, plain_env 101)]"
  by (simp_all add: sample_trace_def)

theorem writer_fifo_witness:
  "\<exists>w. writer_run sqlite_ops sample_w0 (sample_trace @ [FlushStart 0, FlushReturn 0]) w \<and>
     [sample_task] @ in_hand (w_worker w) @ w_q w = [sample_task] \<and> w_entering w = []"
proof -
  obtain w where "writer_run sqlite_ops sample_w0 (sample_trace @ [FlushStart 0, FlushReturn 0]) w"
    using sample_run(1) by blast
  then show ?thesis using writer_fifo[OF sample_new] by (intro exI[of _ w]) fastforce
qed

theorem flush_waits_for_all_witness:
  "\<exists>w. writer_run sqlite_ops sample_w0 ((sample_trace @ [FlushStart 0]) @ [FlushReturn 0]) w \<and>
     map fst (processed (sample_trace @ [FlushStart 0])) = [sample_task] \<and> w_q w = [] \<and>
     w_flush w 0 = Some FReturned"
proof -
  obtain w where run: "writer_run sqlite_ops sample_w0 ((sample_trace @ [FlushStart 0]) @ [FlushReturn 0]) w"
    using sample_run(1) by auto
  then show ?thesis using flush_waits_for_all[OF sample_new run] by (intro exI[of _ w]) simp
qed

theorem exit_drains_queue_witness:
  "\<exists>w. writer_run sqlite_ops sample_w0 ((sample_trace @ [DtorStop, DtorNotify]) @ [Exit]) w \<and>
     map fst (processed (sample_trace @ [DtorStop, DtorNotify])) = [sample_task] \<and> w_stop w"
proof -
  obtain w where run: "writer_run sqlite_ops sample_w0 ((sample_trace @ [DtorStop, DtorNotify]) @ [Exit]) w"
    using sample_run(2) by auto
  then show ?thesis using exit_drains_queue[OF sample_new run] by (intro exI[of _ w]) simp
qed

theorem worker_drains_queue_witness:
  "\<exists>tr' w'. writer_run sqlite_ops sample_w0 ([EnqAdd sample_task, EnqPush sample_task, EnqNotify] @ tr') w' \<and>
     w_q w' = [] \<and> map fst (processed tr') = [sample_task]"
proof -
  let ?tr = "[EnqAdd sample_task, EnqPush sample_task, EnqNotify] :: SqliteEnv wlabel list"
  obtain w where run: "writer_run sqlite_ops sample_w0 ?tr w" "w_notifying w = 0" "\<not> w_stop w"
    using sample_run(3) by blast
  have proc: "\<forall>s. \<forall>snap\<in>set (pushed ?tr).
      process_task sqlite_ops 10 s snap (plain_env 100) (plain_env 101) \<noteq> None"
    using sample_process by simp
  from worker_drains_queue[OF sample_new run proc] obtain tr' w' where
    "writer_run sqlite_ops sample_w0 (?tr @ tr') w'" "w_q w' = []"
    "map fst (processed (?tr @ tr')) = pushed ?tr"
    by blast
  then show ?thesis by (intro exI[of _ tr'] exI[of _ w']) simp
qed

theorem flush_wakeup_lost_witness:
  "\<exists>tr w. writer_run sqlite_ops sample_w0 tr w \<and> map fst (processed tr) = [sample_task] \<and>
     w_pending w = 0 \<and> w_flush w 0 = Some FAsleep"
proof -
  obtain st where "process_task sqlite_ops 10 (w_store sample_w0) sample_task (plain_env 100)
      (plain_env 101) = Some st"
    using sample_process by blast
  from flush_wakeup_lost[OF sample_new this, of 0] obtain tr w where
    "writer_run sqlite_ops sample_w0 tr w" "map fst (processed tr) = [sample_task]" "w_pending w = 0"
    "w_flush w 0 = Some FAsleep"
    by (elim exE conjE)
  then show ?thesis by (intro exI conjI)
qed

theorem flushed_snapshots_are_stored_witness:
  "\<exists>w found. writer_run sqlite_ops sample_w0 ((sample_trace @ [FlushStart 0]) @ [FlushReturn 0]) w \<and>
     fst (loadLatest (plain_env 200) (w_store w) 5) = Inr (Some found) \<and>
     stored_board found = (9, [sample_stroke])"
proof -
  obtain w where run: "writer_run sqlite_ops sample_w0 ((sample_trace @ [FlushStart 0]) @ [FlushReturn 0]) w"
    using sample_run(1) by auto
  have able: "sql_able LittleEndian (plain_env n)" for n
    using plain_env_ok by (simp add: sql_able_def) (simp add: plain_env_def)
  have chr: "chronological LittleEndian (new_store None 0)"
    using new_store_inv by (simp add: chronological_def) (simp add: new_store_def rows_of_def)
  have "\<exists>found. fst (loadLatest (plain_env 200) (w_store w) 5) = Inr found \<and>
    map_option stored_board found =
      (let mine = filter (\<lambda>task. pers_room task = 5) (pushed (sample_trace @ [FlushStart 0])) in
       if mine = [] then sql_newest LittleEndian (new_store None 0) 5 else Some (task_board (last mine))) \<and>
    (5 \<in> pers_room ` set (pushed (sample_trace @ [FlushStart 0])) \<longrightarrow> sql_count (w_store w) 5 \<le> unat (10 :: u64))"
    by (rule flushed_snapshots_are_stored[OF sample_new chr run])
      (use able sample_blob in \<open>simp_all add: sql_storable_def sample_task_def\<close>,
       simp add: sql_before_def new_store_def rows_of_def)
  then show ?thesis using run by (auto simp: sample_task_def task_board_def)
qed

end
