(* ===== verification/CS_App.thy ===== *)
theory CS_App
  imports CS_Session CS_Writer
begin

text \<open>
  The program itself, \<^verbatim>\<open>app/src/main.cpp\<close>: the command line, the construction of store, writer, core
  and server in this order, and the failure path. What the machine contributes is a parameter of the
  start: the contents of the database file with a given path, how SQLite answers (\<open>SqliteEnv\<close>), how
  the calls that set up the listening socket end (\<open>AcceptorEnv\<close>), the number of processors and whether the
  \<open>i\<close>-th thread can be created. \<open>CS_Process\<close> continues with the threads.
\<close>

subsection \<open>The command line\<close>

definition is_space :: "char \<Rightarrow> bool" where
  "is_space c \<longleftrightarrow> c \<in> {CHR 0x20, CHR 0x09, CHR 0x0A, CHR 0x0B, CHR 0x0C, CHR 0x0D}"

definition is_digit :: "char \<Rightarrow> bool" where
  "is_digit c \<longleftrightarrow> 48 \<le> (of_char c :: nat) \<and> (of_char c :: nat) \<le> 57"

definition digits_value :: "string \<Rightarrow> nat" where
  "digits_value ds = foldl (\<lambda>v c. 10 * v + (of_char c - 48)) 0 ds"

fun read_sign :: "string \<Rightarrow> int \<times> string" where
  "read_sign [] = (1, [])"
| "read_sign (c # cs) = (if c = CHR ''-'' then (-1, cs) else if c = CHR ''+'' then (1, cs) else (1, c # cs))"

text \<open>\<^verbatim>\<open>std::stoi\<close> in base 10: white space, a sign, digits; what follows the digits is not looked at.\<close>

definition stoi :: "string \<Rightarrow> int thrown" where
  "stoi s =
     (let (sign, rest) = read_sign (dropWhile is_space s);
          ds = takeWhile is_digit rest;
          v = sign * int (digits_value ds)
      in if ds = [] \<or> v < - (2 ^ 31) \<or> 2 ^ 31 \<le> v then Inl ''stoi'' else Inr v)"

definition arg_port :: "string list \<Rightarrow> u16 thrown" where
  "arg_port argv = (if length argv > 1 then and_then (stoi (argv ! 1)) (\<lambda>v. Inr (word_of_int v)) else Inr 5555)"

definition arg_dbPath :: "string list \<Rightarrow> string" where
  "arg_dbPath argv = (if length argv > 2 then argv ! 2 else ''clearspace_snapshots.db'')"

subsection \<open>Starting\<close>

record Machine =
  mc_file :: "string \<Rightarrow> Row list option \<times> int"
  mc_sql :: SqliteEnv
  mc_acceptor :: AcceptorEnv
  mc_concurrency :: u32
  mc_thread :: "nat \<Rightarrow> unit thrown"

record App =
  app_port :: u16
  app_writer :: "Store Writer"
  app_server :: Server
  app_threads :: u32

definition file_store :: "Machine \<Rightarrow> string list \<Rightarrow> Store" where
  "file_store mc argv = (case mc_file mc (arg_dbPath argv) of (disk, n) \<Rightarrow> new_store disk n)"

definition app_start :: "Machine \<Rightarrow> string list \<Rightarrow> App thrown" where
  "app_start mc argv =
     and_then (arg_port argv) (\<lambda>port.
     and_then (new_writer (Some sqlite_ops) (mc_sql mc) (file_store mc argv) 10) (\<lambda>writer.
     and_then (new_server (mc_acceptor mc) port (new_core True)) (\<lambda>server.
     Inr \<lparr>app_port = port, app_writer = writer, app_server = server_start server,
          app_threads = max 2 (mc_concurrency mc)\<rparr>)))"

text \<open>\<^verbatim>\<open>Inl\<close> is the text on standard error and the exit status.\<close>

definition main_app :: "Machine \<Rightarrow> string list \<Rightarrow> (string \<times> int) + App" where
  "main_app mc argv =
     (case app_start mc argv of
        Inl what \<Rightarrow> Inl (''Server failed: '' @ what @ [CHR 0x0A], 1)
      | Inr app \<Rightarrow> Inr app)"

subsection \<open>Properties\<close>

fun decimal :: "nat \<Rightarrow> string" where
  "decimal n = (if n < 10 then [char_of (48 + n)] else decimal (n div 10) @ [char_of (48 + n mod 10)])"

lemmas [simp del] = decimal.simps

lemma digits_value_snoc: "digits_value (ds @ [c]) = 10 * digits_value ds + (of_char c - 48)"
  by (simp add: digits_value_def)

lemma digit_char: "k < 10 \<Longrightarrow> is_digit (char_of (48 + k :: nat)) \<and> of_char (char_of (48 + k :: nat)) = 48 + k"
  by (simp add: is_digit_def of_char_of)

lemma decimal_digits: "decimal n \<noteq> [] \<and> (\<forall>c\<in>set (decimal n). is_digit c) \<and> digits_value (decimal n) = n"
proof (induction n rule: decimal.induct)
  case (1 n)
  show ?case
  proof (cases "n < 10")
    case True
    then show ?thesis using digit_char[of n] by (simp add: decimal.simps digits_value_def)
  next
    case False
    then show ?thesis using 1 digit_char[of "n mod 10"]
      by (subst (1 2 3) decimal.simps) (auto simp: digits_value_snoc)
  qed
qed

lemma digit_not_special: "is_digit c \<Longrightarrow> \<not> is_space c \<and> c \<noteq> CHR ''-'' \<and> c \<noteq> CHR ''+''"
  by (auto simp: is_digit_def is_space_def)

lemma stoi_decimal: "n < 2 ^ 31 \<Longrightarrow> stoi (decimal n) = Inr (int n)"
proof -
  assume n: "n < 2 ^ 31"
  obtain c cs where c: "decimal n = c # cs" "is_digit c" using decimal_digits[of n] by (cases "decimal n") auto
  have "dropWhile is_space (decimal n) = decimal n" "read_sign (decimal n) = (1, decimal n)"
    using digit_not_special[OF c(2)] c(1) by simp_all
  moreover have "takeWhile is_digit (decimal n) = decimal n"
    unfolding takeWhile_eq_all_conv using decimal_digits[of n] by blast
  ultimately show ?thesis using decimal_digits[of n] n by (simp only: stoi_def Let_def split_conv) simp
qed

text \<open>
  The port on the command line: a number written in decimal is read as itself, and the port is
  that number modulo 65536, so every valid port is taken as given, and a larger number is not refused but
  replaced by another port.
\<close>

theorem port_argument:
  assumes "n < 2 ^ 31"
  shows "\<exists>port. arg_port (prog # decimal n # rest) = Inr port \<and> unat port = n mod 65536"
  using stoi_decimal[OF assms] by (simp add: arg_port_def and_then_def unat_of_nat)

theorem port_argument_witness:
  "\<exists>port. arg_port [''clearspace'', decimal 70000] = Inr port \<and> unat port = 4464"
  using port_argument[of 70000 "''clearspace''" "[]"] by simp

lemma new_writer_fresh:
  "new_writer (Some sqlite_ops) env (new_store disk n) keep =
     (if env_fault env Open \<or> env_fault env ExecPragma \<or> env_fault env ExecDdl then Inl (env_errmsg env)
      else Inr \<lparr>w_store = ready (new_store disk n), w_keepLatest = keep, w_q = [], w_stop = False,
            w_pending = 0, w_worker = WReady, w_entering = [], w_notifying = 0,
            w_flush = Map.empty, w_dtor = DNone\<rparr>)"
  by (auto simp: new_writer_def sqlite_ops_def init_store_def new_store_def call_rc_def ready_def rows_of_def
      split: option.splits)

lemma started: "new_server env port core = Inr sv \<Longrightarrow> server_start sv = started_server core"
  by (auto simp: new_server_def expected_simps server_start_def doAccept_def started_server_def)

lemma and_then_cong_Inr: "(\<And>v. m = Inr v \<Longrightarrow> f v = g v) \<Longrightarrow> and_then m f = and_then m g"
  by (cases m) simp_all

lemma app_start_eq:
  "app_start mc argv = and_then (arg_port argv) (\<lambda>port.
     if env_fault (mc_sql mc) Open \<or> env_fault (mc_sql mc) ExecPragma \<or> env_fault (mc_sql mc) ExecDdl
     then Inl (env_errmsg (mc_sql mc))
     else and_then (new_server (mc_acceptor mc) port (new_core True)) (\<lambda>_. Inr \<lparr>app_port = port,
       app_writer = \<lparr>w_store = ready (file_store mc argv), w_keepLatest = 10, w_q = [], w_stop = False,
            w_pending = 0, w_worker = WReady, w_entering = [], w_notifying = 0,
            w_flush = Map.empty, w_dtor = DNone\<rparr>,
       app_server = started_server (new_core True), app_threads = max 2 (mc_concurrency mc)\<rparr>))"
  by (cases "mc_file mc (arg_dbPath argv)"; cases "arg_port argv")
    (auto simp: app_start_def file_store_def new_writer_fresh started intro!: and_then_cong_Inr)

lemma main_app_server: "main_app mc argv = Inr app \<Longrightarrow> app_server app = started_server (new_core True)"
  by (cases "arg_port argv"; cases "new_server (mc_acceptor mc) (projr (arg_port argv)) (new_core True)")
    (auto simp: main_app_def app_start_eq split: if_splits)

text \<open>The outcome up to \<^verbatim>\<open>server.start()\<close>.\<close>

lemma main_app_outcome:
  "(case main_app mc argv of
      Inl (text, status) \<Rightarrow> status = 1 \<and> (\<exists>what. text = ''Server failed: '' @ what @ [CHR 0x0A] \<and>
        (arg_port argv = Inl what \<or>
         (\<exists>c\<in>{Open, ExecPragma, ExecDdl}. env_fault (mc_sql mc) c) \<and> what = env_errmsg (mc_sql mc) \<or>
         (\<exists>port. arg_port argv = Inr port \<and> new_server (mc_acceptor mc) port (new_core True) = Inl what)))
    | Inr app \<Rightarrow> arg_port argv = Inr (app_port app) \<and> ae_bind (mc_acceptor mc) (app_port app) = Inr () \<and> ae_listen (mc_acceptor mc) = Inr () \<and>
        (\<forall>c\<in>{Open, ExecPragma, ExecDdl}. \<not> env_fault (mc_sql mc) c) \<and> app_threads app = max 2 (mc_concurrency mc) \<and>
        app_server app = started_server (new_core True) \<and> w_keepLatest (app_writer app) = 10 \<and>
        snapshots (w_store (app_writer app)) = Some (rows_of (file_store mc argv)))"
  by (cases "arg_port argv"; cases "new_server (mc_acceptor mc) (projr (arg_port argv)) (new_core True)")
    (auto simp: main_app_def app_start_eq ready_def new_server_def expected_simps)

definition plain_acceptor :: AcceptorEnv where
  "plain_acceptor = \<lparr>ae_open = Inr (), ae_reuse_address = Inr (), ae_bind = (\<lambda>_. Inr ()), ae_listen = Inr ()\<rparr>"

lemma plain_acceptor_works: "\<exists>sv. new_server plain_acceptor port core = Inr sv"
  by (simp add: new_server_def plain_acceptor_def)

end
