(* ===== verification/CS_Composition.thy ===== *)
theory CS_Composition
  imports CS_Session_Run CS_App
begin

text \<open>
  What holds of the server, the snapshot writer and the store together. \<open>core_call\<close> is one call into the
  core; every handler of the network server makes at most one (\<open>label_once\<close>), so an invariant of
  the core and of the snapshots it has enqueued is an invariant of the server.
\<close>

inductive core_call :: "ServerCore \<Rightarrow> PersistedBoardSnapshot list \<Rightarrow> ServerCore \<Rightarrow> bool" where
  "createRoom core = (rid, core') \<Longrightarrow> core_call core [] core'"
| "joinRoom core c rid = (joined, core') \<Longrightarrow> core_call core [] core'"
| "leaveRoom core c rid = Some (res, sn, core') \<Longrightarrow> core_call core sn core'"
| "handleEvent core now c rid ev = Some (res, sn, core') \<Longrightarrow> core_call core sn core'"

subsection \<open>A handler makes at most one call\<close>

type_synonym core_view = "ServerCore \<times> PersistedBoardSnapshot list"

definition core_view :: "Server \<Rightarrow> core_view" where
  "core_view sv = (sv_core sv, sv_enqueued sv)"

definition same :: "core_view \<Rightarrow> ('a thrown \<times> Server) option \<Rightarrow> bool" where
  "same p out \<longleftrightarrow> (\<forall>r sv'. out = Some (r, sv') \<longrightarrow> core_view sv' = p)"

definition once :: "core_view \<Rightarrow> ('a thrown \<times> Server) option \<Rightarrow> bool" where
  "once p out \<longleftrightarrow> (\<forall>r sv'. out = Some (r, sv') \<longrightarrow> core_view sv' = p \<or>
     (\<exists>sn. core_call (fst p) sn (sv_core sv') \<and> sv_enqueued sv' = snd p @ sn))"

named_theorems core_views \<open>effects of the server's operations on the core\<close>

lemma same_once: "same p out \<Longrightarrow> once p out"
  by (simp add: same_def once_def)

lemma same_posts: "\<exists>r sv'. m sv = Some (r, sv') \<and> posts sv sv' \<Longrightarrow> core_view sv = p \<Longrightarrow> same p (m sv)"
  by (auto simp: same_def core_view_def posts_def)

lemma same_ret [core_views]: "core_view sv = p \<Longrightarrow> same p (ret v sv)"
  by (simp add: same_def)

lemma same_modify [core_views]: "core_view sv = p \<Longrightarrow> same p (modify c f sv)"
  by (auto simp: same_def core_view_def)

lemma same_seqn [core_views]:
  "same p (m sv) \<Longrightarrow> (\<And>v sv'. core_view sv' = p \<Longrightarrow> same p (f v sv')) \<Longrightarrow> same p (seqn m f sv)"
  by (auto simp: same_def seqn_def split: option.splits sum.splits)

lemma same_deliver [core_views]: "core_view sv = p \<Longrightarrow> same p (deliver lib c msg sv)"
  by (rule same_posts[where m = "deliver lib c msg"]) (rule deliver_posts)

lemma same_sendError [core_views]: "core_view sv = p \<Longrightarrow> same p (sendError lib c e sv)"
  by (rule same_posts[where m = "sendError lib c e"]) (rule sendError_posts)

lemma same_dispatch [core_views]: "core_view sv = p \<Longrightarrow> same p (dispatchOutgoing lib out sv)"
  by (rule same_posts[where m = "dispatchOutgoing lib out"]) (rule dispatchOutgoing_posts)

lemma same_getCurrentRoom [core_views]: "core_view sv = p \<Longrightarrow> same p (getCurrentRoom c sv)"
  by (auto simp: same_def getCurrentRoom_def)

lemma same_setCurrentRoom [core_views]: "core_view sv = p \<Longrightarrow> same p (setCurrentRoom c room sv)"
  unfolding setCurrentRoom_def by (rule same_modify)

lemma same_reg [core_views]:
  "core_view sv = p \<Longrightarrow> same p (reg_add c sv)" "core_view sv = p \<Longrightarrow> same p (reg_remove c sv)"
  by (auto simp: same_def reg_add_def reg_remove_def core_view_def)

lemma once_after:
  assumes "same p (m sv)" "\<And>v sv'. core_view sv' = p \<Longrightarrow> once p (f v sv')"
  shows "once p (seqn m f sv)"
proof (cases "m sv")
  case (Some q)
  then obtain r sv1 where m: "m sv = Some (r, sv1)" "core_view sv1 = p" using assms(1) by (cases q) (auto simp: same_def)
  show ?thesis using m assms(2) by (cases r) (simp_all add: seqn_def, simp add: once_def)
qed (simp add: once_def seqn_def)

lemma once_then:
  assumes "once p (m sv)" "\<And>v sv'. same (core_view sv') (f v sv')"
  shows "once p (seqn m f sv)"
  unfolding once_def
proof (intro allI impI)
  fix r sv' assume "seqn m f sv = Some (r, sv')"
  then obtain q sv1 where "m sv = Some (q, sv1)" "core_view sv' = core_view sv1"
    using assms(2) by (fastforce simp: seqn_def same_def split: option.splits sum.splits)
  then show "core_view sv' = p \<or> (\<exists>sn. core_call (fst p) sn (sv_core sv') \<and> sv_enqueued sv' = snd p @ sn)"
    using assms(1) by (fastforce simp: once_def core_view_def)
qed

lemma once_core:
  assumes "core_view sv = p"
  shows "once p (core_createRoom sv)" "once p (core_joinRoom c room sv)" "once p (core_leaveRoom c room sv)"
    "once p (core_handleEvent now c room ev sv)"
  using assms
  by (auto simp: once_def core_view_def core_createRoom_def core_joinRoom_def core_leaveRoom_def core_handleEvent_def
      split: prod.splits option.splits intro: core_call.intros)

lemma core_view_simps [simp]:
  "core_view (upd_session c f sv) = core_view sv" "core_view (sv\<lparr>sv_registry := reg\<rparr>) = core_view sv"
  "core_view (sv\<lparr>sv_sessions := ss\<rparr>) = core_view sv" "core_view (sv\<lparr>sv_nextClientId := n\<rparr>) = core_view sv"
  "same p (Some (r, sv)) \<longleftrightarrow> core_view sv = p" "core_view sv = p \<Longrightarrow> once p (Some (r, sv))"
  by (auto simp: core_view_def same_def once_def)

lemmas once_rules = core_views same_once[OF same_sendError] same_once[OF same_deliver] same_once[OF same_dispatch]
  once_after[OF same_getCurrentRoom] once_after[OF same_modify] once_core[THEN once_then]
  once_core[THEN once_then, THEN once_then] same_once[OF same_reg(2)]

lemma once_handleJoin: "core_view sv = p \<Longrightarrow> once p (handleJoin lib c room sv)"
  unfolding handleJoin_def
  by (auto intro!: once_rules split: sum.splits)

lemma once_handleLeave: "core_view sv = p \<Longrightarrow> once p (handleLeave lib c room sv)"
  unfolding handleLeave_def
  by (auto intro!: once_rules split: sum.splits)

lemma once_handleDraw: "core_view sv = p \<Longrightarrow> once p (handleDraw lib now c room event sv)"
  unfolding handleDraw_def
  by (auto intro!: once_rules split: sum.splits)

lemma once_handleMessage: "core_view sv = p \<Longrightarrow> once p (handleMessage lib now c msg sv)"
  unfolding handleMessage_def
  by (auto intro!: once_handleJoin once_handleLeave once_handleDraw once_rules split: ClientMessage.splits option.splits)

lemma once_handleLine: "core_view sv = p \<Longrightarrow> once p (handleLine lib now c line sv)"
  by (auto simp: handleLine_def sendProtocolError_def simp del: protocolToCoreError.simps
      intro!: once_handleMessage same_once[OF same_sendError] split: sum.splits)

lemma same_doReadLine [core_views]: "core_view sv = p \<Longrightarrow> same p (doReadLine c sv)"
  unfolding doReadLine_def by (auto intro!: core_views)

lemma same_doWrite [core_views]: "core_view sv = p \<Longrightarrow> same p (doWrite c sv)"
  unfolding doWrite_def by (auto intro!: core_views)

lemma once_stopImpl: "core_view sv = p \<Longrightarrow> once p (stopImpl lib c sv)"
  unfolding stopImpl_def
  by (auto intro!: once_rules split: sum.splits option.splits)

lemma once_onReadLine: "core_view sv = p \<Longrightarrow> once p (onReadLine lib now c input sv)"
  unfolding onReadLine_def
  by (auto intro!: once_then once_handleLine once_stopImpl core_views split: option.splits)

lemma once_onWrite: "core_view sv = p \<Longrightarrow> once p (onWrite lib c res sv)"
  unfolding onWrite_def
  by (auto intro!: once_stopImpl same_once[OF same_doWrite] split: list.splits option.splits)
    (simp add: once_def)

lemma once_runPosted: "core_view sv = p \<Longrightarrow> once p (runPosted lib c h sv)"
  unfolding runPosted_def
  by (auto simp: Let_def intro!: once_stopImpl same_once[OF same_doWrite] same_once[OF same_doReadLine]
      split: Posted.splits)

lemma same_onAccept: "core_view sv = p \<Longrightarrow> same p (seqn accept_done (\<lambda>_. onAccept ec) sv)"
  by (auto simp: accept_done_def onAccept_def add_session_def doAccept_def session_start_def post_def Let_def seqn_def
      reg_add_def core_view_def same_def)

lemma label_once: "once (core_view sv) (run_label lib l sv)"
  unfolding run_label_def session_stop_def post_def
  by (cases l) (auto intro!: once_onReadLine once_onWrite once_runPosted same_once[OF same_onAccept]
      split: ReadOp.splits list.splits)

subsection \<open>An empty room is saved\<close>

text \<open>
  \<open>board_saved (core, enq)\<close>: for a room without members the last snapshot enqueued is the room as it
  is now, or nothing was enqueued and there is nothing on the board.
\<close>

definition of_room :: "RoomId \<Rightarrow> PersistedBoardSnapshot list \<Rightarrow> PersistedBoardSnapshot list" where
  "of_room rid enq = filter (\<lambda>task. pers_room task = rid) enq"

fun board_saved :: "core_view \<Rightarrow> bool" where
  "board_saved (core, enq) \<longleftrightarrow> (\<forall>sn\<in>set enq. room_exists core (pers_room sn)) \<and>
     (\<forall>rid r. getRoom (manager core) rid = Some r \<longrightarrow> members r = [] \<longrightarrow>
        (if of_room rid enq = [] then strokes (board r) = [] else last (of_room rid enq) = makePersistedSnapshot r))"

lemma of_room_append [simp]: "of_room rid (a @ b) = of_room rid a @ of_room rid b"
  by (simp add: of_room_def)

lemma board_saved_set:
  assumes "board_saved (core, enq)" "getRoom (manager core) rid = Some r"
    and "\<forall>s\<in>set sn. pers_room s = rid" "members r' = [] \<Longrightarrow> sn \<noteq> [] \<and> last sn = makePersistedSnapshot r'"
  shows "board_saved (core\<lparr>manager := setRoom (manager core) rid r'\<rparr>, enq @ sn)"
proof -
  have of: "of_room rid' sn = (if rid' = rid then sn else [])" for rid'
    using assms(3) by (auto simp: of_room_def filter_id_conv filter_empty_conv)
  moreover have "room_exists core rid" using assms(2) by (simp add: room_exists_def)
  ultimately show ?thesis
    using assms by (auto simp: rm.look_store room_exists_set)
qed

lemma createRoom_saved:
  assumes "core_ok (Suc n) core" "board_saved (core, enq)" "createRoom core = (rid, core')"
  shows "board_saved (core', enq)"
proof -
  obtain m where m: "mgr_createRoom (manager core) = (rid, m)" "core' = core\<lparr>manager := m\<rparr>"
    using assms(3) by (auto simp: createRoom_def Let_def split: prod.splits)
  have ex: "\<not> room_exists core rid" "room_exists core' = (room_exists core)(rid := True)"
    using createRoom_ok[OF assms(1,3)] by simp_all
  then have "of_room rid enq = []" using assms(2) by (auto simp: of_room_def filter_empty_conv)
  then show ?thesis
    using assms(2) ex(2) by (auto simp: m(2) rm.look_create[OF m(1)] new_room_def)
qed

lemma leaveRoom_saved:
  assumes "core_ok (Suc n) core" "board_saved (core, enq)" "snapshotSink core"
    and "leaveRoom core c rid = Some (res, sn, core')"
  shows "board_saved (core', enq @ sn) \<and> snapshotSink core'"
proof (cases "in_room core rid c")
  case True
  then obtain r where r: "getRoom (manager core) rid = Some r" "c \<in> set (members r)"
    by (auto simp: in_room_def)
  note D = core_okD[OF assms(1) r(1)]
  obtain out r' where l: "leave r c = Some (Inr out, r')" "room_id r' = rid"
    using leave_step[OF D(1,5), of c] leave_member_eq[OF D(1) r(2)] D(2)
    by (auto simp: Let_def split: prod.splits)
  have sn: "sn = (if members r' = [] then [makePersistedSnapshot r'] else [])"
      and core': "core' = core\<lparr>manager := setRoom (manager core) rid r'\<rparr>"
    using assms(3,4) r(1) l(1) by (auto simp: leaveRoom_def Let_def memberCount_def)
  have "board_saved (core', enq @ sn)"
    unfolding core' using l(2) by (intro board_saved_set[OF assms(2) r(1)]) (simp_all add: sn makePersistedSnapshot_def)
  then show ?thesis using assms(3) core' by (simp del: board_saved.simps)
next
  case False
  then have "core' = core" "sn = []" using leaveRoom_outside[of core rid c] assms(4) by auto
  then show ?thesis using assms(2,3) by simp
qed

lemma handleEvent_saved:
  assumes "core_ok (Suc n) core" "board_saved (core, enq)" "snapshotSink core"
    and "handleEvent core now c rid ev = Some (res, sn, core')"
  shows "board_saved (core', enq @ sn) \<and> snapshotSink core'"
proof (cases "in_room core rid c")
  case True
  then obtain r where r: "getRoom (manager core) rid = Some r" "c \<in> set (members r)"
    by (auto simp: in_room_def)
  note D = core_okD[OF assms(1) r(1)]
  obtain res' r' where a: "apply_event r now c ev = Some (res', r')" "room_id r' = rid" "members r' = members r"
    using apply_event_step[OF D(1,5)] D(2) by metis
  have sn: "\<forall>s\<in>set sn. pers_room s = rid" and core': "core' = core\<lparr>manager := setRoom (manager core) rid r'\<rparr>"
    using assms(4) r(1) a by (auto simp: handleEvent_def Let_def makePersistedSnapshot_def split: sum.splits if_splits)
  have "board_saved (core', enq @ sn)"
    unfolding core' using r(2) a(3) by (intro board_saved_set[OF assms(2) r(1) sn]) auto
  then show ?thesis using assms(3) core' by (simp del: board_saved.simps)
next
  case False
  then have "core' = core" "sn = []"
    using assms(4) by (auto simp: handleEvent_def in_room_def apply_event_def ensureMember_def Let_def setRoom_same
        split: option.splits)
  then show ?thesis using assms(2,3) by simp
qed

lemma core_call_saved:
  assumes "core_call core sn core'" "core_ok (Suc n) core" "board_saved (core, enq)" "snapshotSink core"
  shows "board_saved (core', enq @ sn) \<and> snapshotSink core'"
  using assms(1)
proof cases
  case (1 rid)
  then show ?thesis using createRoom_saved[OF assms(2,3)] assms(4)
    by (auto simp: createRoom_def simp del: board_saved.simps split: prod.splits)
next
  case (2 c rid joined)
  show ?thesis
  proof (cases "getRoom (manager core) rid")
    case None
    then show ?thesis using 2 assms(3,4) by (simp add: joinRoom_def del: board_saved.simps)
  next
    case (Some r)
    then have core': "core' = core\<lparr>manager := setRoom (manager core) rid (snd (join r c))\<rparr>"
      using 2 by (auto simp: joinRoom_def split: prod.splits)
    have "List.insert c xs \<noteq> []" for xs by (auto simp: List.insert_def)
    then have "members (snd (join r c)) \<noteq> []" by (simp add: join_def Let_def)
    then have "board_saved (core\<lparr>manager := setRoom (manager core) rid (snd (join r c))\<rparr>, enq @ [])"
      by (intro board_saved_set[OF assms(3) Some]) simp_all
    then show ?thesis using 2 core' assms(4) by (simp del: board_saved.simps)
  qed
qed (use leaveRoom_saved[OF assms(2-4)] handleEvent_saved[OF assms(2-4)] in blast)+

lemma label_saved:
  assumes "members_inv (Suc n) sv" "board_saved (core_view sv)" "snapshotSink (sv_core sv)"
    and "run_label lib l sv = Some (r, sv')"
  shows "board_saved (core_view sv') \<and> snapshotSink (sv_core sv')"
proof -
  have "core_ok (Suc n) (sv_core sv)" using assms(1) by (simp add: members_inv_def)
  then have "board_saved (core_view sv') \<and> snapshotSink (sv_core sv')"
    if "core_call (sv_core sv) sn (sv_core sv')" "sv_enqueued sv' = sv_enqueued sv @ sn" for sn
    using core_call_saved[OF that(1)] that(2) assms(2,3) by (simp add: core_view_def del: board_saved.simps)
  moreover have "core_view sv' = core_view sv \<or>
      (\<exists>sn. core_call (sv_core sv) sn (sv_core sv') \<and> sv_enqueued sv' = sv_enqueued sv @ sn)"
    using label_once[of sv lib l] assms(4) by (simp add: once_def core_view_def)
  ultimately show ?thesis using assms(2,3) by (auto simp: core_view_def simp del: board_saved.simps)
qed

lemma server_run_saved:
  assumes "server_run lib sv0 tr sv" "members_inv (length tr + n) sv0" "queues_inv sv0"
    and "board_saved (core_view sv0)" "snapshotSink (sv_core sv0)"
  shows "board_saved (core_view sv) \<and> snapshotSink (sv_core sv)"
  using assms
proof (induction arbitrary: n rule: server_run.induct)
  case (step tr sv l sv')
  then have "members_inv (Suc n) sv" using server_run_inv[OF step.hyps(1), of "Suc n"] by simp
  moreover have "board_saved (core_view sv) \<and> snapshotSink (sv_core sv)"
    using step.IH[of "Suc n"] step.prems by simp
  ultimately show ?case using label_saved[OF _ _ _ step.hyps(3)] by blast
qed simp

lemma started_server_saved: "board_saved (core_view (started_server (new_core sink)))"
  by (simp add: core_view_def started_server_def new_core_def new_manager_def getRoom_def)

lemma empty_room_saved:
  assumes "server_run lib (started_server (new_core True)) tr sv" "2 * length tr + 3 < 2 ^ 64"
    and "getRoom (manager (sv_core sv)) rid = Some r" "members r = []"
  shows "if of_room rid (sv_enqueued sv) = [] then strokes (board r) = []
    else last (of_room rid (sv_enqueued sv)) = makePersistedSnapshot r"
proof -
  have "board_saved (core_view sv)"
    using server_run_saved[OF assms(1), of 0] started_server_inv[of "length tr" True] started_server_saved assms(2)
    by (simp add: started_server_def new_core_def)
  then show ?thesis using assms(3,4) by (auto simp: core_view_def)
qed

end
