(* ===== verification/CS_Threads.thy ===== *)
theory CS_Threads
  imports CS_Session_Run
begin

text \<open>
  The server on several threads. A handler is a program: it either has returned, or its next step is one
  atomic action on the server state (one critical section of a mutex, one access to the session's own
  data, one post to a strand) and a continuation. Between two steps of a handler any other handler
  may take steps; only the handlers of one session exclude each other, by its strand.

  \<open>exec\<close> runs a program without interruption, and \<open>label_exec\<close> shows that this is the handler of
  \<open>CS_Session\<close>, so that theory describes the same code with handlers as single steps.
\<close>

datatype 'a prog = Pure 'a | Atom "Server \<Rightarrow> (('a prog) thrown \<times> Server) option"

primrec bindp :: "'a prog \<Rightarrow> ('a \<Rightarrow> 'b prog) \<Rightarrow> 'b prog" where
  "bindp (Pure a) f = f a"
| "bindp (Atom k) f = Atom (\<lambda>sv. map_option (map_prod (map_sum id (\<lambda>p. bindp p f)) id) (k sv))"

definition atom :: "'a act \<Rightarrow> 'a prog" where
  "atom m = Atom (\<lambda>sv. map_option (map_prod (map_sum id Pure) id) (m sv))"

primrec exec :: "'a prog \<Rightarrow> 'a act" where
  "exec (Pure a) = ret a"
| "exec (Atom k) = (\<lambda>sv. case map_option (map_prod (map_sum id exec) id) (k sv) of
     None \<Rightarrow> None | Some (Inl e, sv') \<Rightarrow> Some (Inl e, sv') | Some (Inr m, sv') \<Rightarrow> m sv')"

subsection \<open>Calls into the core, one critical section at a time\<close>

definition put_room :: "RoomId \<Rightarrow> Room \<Rightarrow> Server \<Rightarrow> Server" where
  "put_room room r sv = sv\<lparr>sv_core := (sv_core sv)\<lparr>manager := setRoom (manager (sv_core sv)) room r\<rparr>\<rparr>"

definition find_room :: "RoomId \<Rightarrow> bool act" where
  "find_room room sv = ret (getRoom (manager (sv_core sv)) room \<noteq> None) sv"

definition room_join :: "ClientId \<Rightarrow> RoomId \<Rightarrow> RoomSnapshot expected act" where
  "room_join c room sv = (case getRoom (manager (sv_core sv)) room of
     None \<Rightarrow> None
   | Some r \<Rightarrow> (case join r c of (res, r') \<Rightarrow> ret res (put_room room r' sv)))"

definition room_leave :: "ClientId \<Rightarrow> RoomId \<Rightarrow> OutgoingEvent list expected act" where
  "room_leave c room sv = (case getRoom (manager (sv_core sv)) room of
     None \<Rightarrow> None
   | Some r \<Rightarrow> (case leave r c of None \<Rightarrow> None | Some (res, r') \<Rightarrow> ret res (put_room room r' sv)))"

definition room_apply :: "TimePoint \<Rightarrow> ClientId \<Rightarrow> RoomId \<Rightarrow> EventPayload \<Rightarrow> OutgoingEvent list expected act" where
  "room_apply now c room ev sv = (case getRoom (manager (sv_core sv)) room of
     None \<Rightarrow> None
   | Some r \<Rightarrow> (case apply_event r now c ev of None \<Rightarrow> None | Some (res, r') \<Rightarrow> ret res (put_room room r' sv)))"

definition room_count :: "RoomId \<Rightarrow> nat act" where
  "room_count room sv = (case getRoom (manager (sv_core sv)) room of
     None \<Rightarrow> None | Some r \<Rightarrow> ret (memberCount r) sv)"

definition room_snapshot :: "RoomId \<Rightarrow> PersistedBoardSnapshot act" where
  "room_snapshot room sv = (case getRoom (manager (sv_core sv)) room of
     None \<Rightarrow> None | Some r \<Rightarrow> ret (makePersistedSnapshot r) sv)"

definition has_sink :: "bool act" where
  "has_sink sv = ret (snapshotSink (sv_core sv)) sv"

definition sink_enqueue :: "PersistedBoardSnapshot \<Rightarrow> unit act" where
  "sink_enqueue sn sv = ret () (sv\<lparr>sv_enqueued := sv_enqueued sv @ [sn]\<rparr>)"

definition save_prog :: "RoomId \<Rightarrow> unit prog" where
  "save_prog room = bindp (atom (room_snapshot room)) (\<lambda>sn. atom (sink_enqueue sn))"

definition save_when_empty :: "RoomId \<Rightarrow> unit prog" where
  "save_when_empty room = bindp (atom has_sink) (\<lambda>sink.
     if sink then bindp (atom (room_count room)) (\<lambda>n. if n = 0 then save_prog room else Pure ()) else Pure ())"

definition save_after :: "RoomId \<Rightarrow> EventPayload \<Rightarrow> unit prog" where
  "save_after room ev = bindp (atom has_sink) (\<lambda>sink.
     if sink then if shouldSave ev then save_prog room else Pure () else Pure ())"

definition joinRoom_prog :: "ClientId \<Rightarrow> RoomId \<Rightarrow> RoomSnapshot expected prog" where
  "joinRoom_prog c room = bindp (atom (find_room room)) (\<lambda>found.
     if \<not> found then Pure (Inl roomNotFound) else atom (room_join c room))"

definition leaveRoom_prog :: "ClientId \<Rightarrow> RoomId \<Rightarrow> OutgoingEvent list expected prog" where
  "leaveRoom_prog c room = bindp (atom (find_room room)) (\<lambda>found.
     if \<not> found then Pure (Inl roomNotFound)
     else bindp (atom (room_leave c room)) (\<lambda>res. case res of
         Inl e \<Rightarrow> Pure (Inl e)
       | Inr out \<Rightarrow> bindp (save_when_empty room) (\<lambda>_. Pure (Inr out))))"

definition handleEvent_prog :: "TimePoint \<Rightarrow> ClientId \<Rightarrow> RoomId \<Rightarrow> EventPayload \<Rightarrow> OutgoingEvent list expected prog" where
  "handleEvent_prog now c room ev = bindp (atom (find_room room)) (\<lambda>found.
     if \<not> found then Pure (Inl roomNotFound)
     else bindp (atom (room_apply now c room ev)) (\<lambda>res. case res of
         Inl e \<Rightarrow> Pure (Inl e)
       | Inr out \<Rightarrow> bindp (save_after room ev) (\<lambda>_. Pure (Inr out))))"

subsection \<open>The handlers of a session\<close>

definition reg_deliver_prog :: "'j JsonLib \<Rightarrow> ClientId \<Rightarrow> ServerMessage \<Rightarrow> unit prog" where
  "reg_deliver_prog lib c msg = bindp (atom (reg_find c)) (\<lambda>found.
     if found then atom (deliver lib c msg) else Pure ())"

fun dispatchOutgoing_prog :: "'j JsonLib \<Rightarrow> OutgoingEvent list \<Rightarrow> unit prog" where
  "dispatchOutgoing_prog lib [] = Pure ()"
| "dispatchOutgoing_prog lib (ev # evs) =
     bindp (reg_deliver_prog lib (ev_to ev) (toServerMessage ev)) (\<lambda>_. dispatchOutgoing_prog lib evs)"

definition handleJoin_prog :: "'j JsonLib \<Rightarrow> ClientId \<Rightarrow> RoomId \<Rightarrow> unit prog" where
  "handleJoin_prog lib c room = bindp (atom (getCurrentRoom c)) (\<lambda>cur.
     if cur \<noteq> None \<and> cur \<noteq> Some room
     then atom (sendError lib c (invalidParams ''session already joined to another room''))
     else bindp (joinRoom_prog c room) (\<lambda>res. case res of
         Inl e \<Rightarrow> atom (sendError lib c e)
       | Inr snap \<Rightarrow> bindp (atom (setCurrentRoom c (Some room))) (\<lambda>_. atom (deliver lib c (toSnapshotMessage snap)))))"

definition handleLeave_prog :: "'j JsonLib \<Rightarrow> ClientId \<Rightarrow> RoomId \<Rightarrow> unit prog" where
  "handleLeave_prog lib c room = bindp (atom (getCurrentRoom c)) (\<lambda>cur.
     if cur \<noteq> Some room then atom (sendError lib c notInRoom)
     else bindp (leaveRoom_prog c room) (\<lambda>res. case res of
         Inl e \<Rightarrow> atom (sendError lib c e)
       | Inr out \<Rightarrow> bindp (atom (setCurrentRoom c None)) (\<lambda>_. bindp (dispatchOutgoing_prog lib out) (\<lambda>_.
           atom (deliver lib c (OkResponse ''leave_room'' room))))))"

definition handleDraw_prog :: "'j JsonLib \<Rightarrow> TimePoint \<Rightarrow> ClientId \<Rightarrow> RoomId \<Rightarrow> EventPayload expected \<Rightarrow> unit prog" where
  "handleDraw_prog lib now c room event = bindp (atom (getCurrentRoom c)) (\<lambda>cur.
     if cur \<noteq> Some room then atom (sendError lib c notInRoom)
     else case event of
         Inl e \<Rightarrow> atom (sendError lib c e)
       | Inr ev \<Rightarrow> bindp (handleEvent_prog now c room ev) (\<lambda>res. case res of
           Inl e \<Rightarrow> atom (sendError lib c e)
         | Inr out \<Rightarrow> dispatchOutgoing_prog lib out))"

definition handleMessage_prog :: "'j JsonLib \<Rightarrow> TimePoint \<Rightarrow> ClientId \<Rightarrow> ClientMessage \<Rightarrow> unit prog" where
  "handleMessage_prog lib now c msg =
     (case msg of
        PingRequest \<Rightarrow> atom (deliver lib c PongResponse)
      | CreateRoomRequest \<Rightarrow> bindp (atom core_createRoom) (\<lambda>room. atom (deliver lib c (RoomCreatedResponse room)))
      | JoinRoomRequest room \<Rightarrow> handleJoin_prog lib c room
      | LeaveRoomRequest room \<Rightarrow> handleLeave_prog lib c room
      | _ \<Rightarrow> (case (request_room msg, toCoreEvent msg) of
          (Some room, Some event) \<Rightarrow> handleDraw_prog lib now c room event | _ \<Rightarrow> Pure ()))"

definition handleLine_prog :: "'j JsonLib \<Rightarrow> TimePoint \<Rightarrow> ClientId \<Rightarrow> string \<Rightarrow> unit prog" where
  "handleLine_prog lib now c line =
     (case parseClientMessage lib line of
        Inl e \<Rightarrow> atom (sendProtocolError lib c e)
      | Inr msg \<Rightarrow> handleMessage_prog lib now c msg)"

text \<open>\<^verbatim>\<open>stopped_.exchange(true)\<close>, a load of \<^verbatim>\<open>stopped_\<close>, and \<^verbatim>\<open>pop_front\<close> with the test that follows it.\<close>

definition exchange_stopped :: "ClientId \<Rightarrow> bool act" where
  "exchange_stopped c sv = ret (s_stopped (the_session sv c)) (upd_session c (\<lambda>s. s\<lparr>s_stopped := True\<rparr>) sv)"

definition load_stopped :: "ClientId \<Rightarrow> bool act" where
  "load_stopped c sv = ret (s_stopped (the_session sv c)) sv"

definition pop_line :: "ClientId \<Rightarrow> string \<Rightarrow> bool act" where
  "pop_line c w sv = (case s_writeQueue (the_session sv c) of
     [] \<Rightarrow> None
   | line # rest \<Rightarrow> ret (rest \<noteq> []) (upd_session c (\<lambda>s. s\<lparr>s_writeQueue := rest, s_written := s_written s @ [w]\<rparr>) sv))"

definition stopImpl_prog :: "'j JsonLib \<Rightarrow> ClientId \<Rightarrow> unit prog" where
  "stopImpl_prog lib c = bindp (atom (exchange_stopped c)) (\<lambda>was.
     if was then Pure ()
     else bindp (atom (getCurrentRoom c)) (\<lambda>cur.
          bindp (case cur of
                   None \<Rightarrow> Pure ()
                 | Some room \<Rightarrow> bindp (leaveRoom_prog c room) (\<lambda>res.
                     bindp (case res of Inl _ \<Rightarrow> Pure () | Inr out \<Rightarrow> dispatchOutgoing_prog lib out) (\<lambda>_.
                     atom (setCurrentRoom c None)))) (\<lambda>_.
          bindp (atom (modify c (\<lambda>s. s\<lparr>s_open := False\<rparr>))) (\<lambda>_.
          atom (reg_remove c)))))"

definition onReadLine_prog :: "'j JsonLib \<Rightarrow> TimePoint \<Rightarrow> ClientId \<Rightarrow> string option \<Rightarrow> unit prog" where
  "onReadLine_prog lib now c input =
     (case input of
        None \<Rightarrow> stopImpl_prog lib c
      | Some line \<Rightarrow> bindp (handleLine_prog lib now c line) (\<lambda>_.
          bindp (atom (load_stopped c)) (\<lambda>st. if st then Pure () else atom (doReadLine c))))"

definition onWrite_prog :: "'j JsonLib \<Rightarrow> ClientId \<Rightarrow> string option \<Rightarrow> unit prog" where
  "onWrite_prog lib c res =
     (case res of
        None \<Rightarrow> stopImpl_prog lib c
      | Some w \<Rightarrow> bindp (atom (pop_line c w)) (\<lambda>more. if more then atom (doWrite c) else Pure ()))"

definition runPosted_prog :: "'j JsonLib \<Rightarrow> ClientId \<Rightarrow> Posted \<Rightarrow> bool \<Rightarrow> unit prog" where
  "runPosted_prog lib c h wasIdle =
     (case h of
        PostRead \<Rightarrow> atom (doReadLine c)
      | PostStop \<Rightarrow> stopImpl_prog lib c
      | PostLine line \<Rightarrow> if wasIdle then atom (doWrite c) else Pure ())"

definition new_client :: "ClientId act" where
  "new_client sv = (let c = sv_nextClientId sv in
     ret c (sv\<lparr>sv_nextClientId := c + 1, sv_sessions := (sv_sessions sv)(c \<mapsto> new_session)\<rparr>))"

definition accept_again :: "unit act" where
  "accept_again sv = ret () (if acc_open (sv_acceptor sv) then doAccept sv else sv)"

definition onAccept_prog :: "bool \<Rightarrow> unit prog" where
  "onAccept_prog ec = bindp
     (if \<not> ec then bindp (atom new_client) (\<lambda>c. bindp (atom (reg_add c)) (\<lambda>_. atom (session_start c))) else Pure ())
     (\<lambda>_. atom accept_again)"

subsection \<open>What starts a handler\<close>

definition take_line :: "ClientId \<Rightarrow> string option act" where
  "take_line c sv = (case s_read (the_session sv c) of
     RReady line \<Rightarrow> ret (Some line) (upd_session c (\<lambda>s. s\<lparr>s_read := RIdle\<rparr>) sv)
   | _ \<Rightarrow> ret None sv)"

definition take_write :: "ClientId \<Rightarrow> string option act" where
  "take_write c sv = (case s_writing (the_session sv c) of
     [] \<Rightarrow> ret None sv
   | w # ws \<Rightarrow> ret (Some w) (upd_session c (\<lambda>s. s\<lparr>s_writing := ws\<rparr>) sv))"

text \<open>
  Taking a posted handler off the strand; a posted line is put into the write queue at once, since nothing but
  the strand itself sees the difference. The flag is \<^verbatim>\<open>wasIdle\<close>.
\<close>

definition take_posted :: "ClientId \<Rightarrow> (Posted \<times> bool) option act" where
  "take_posted c sv = (case s_posted (the_session sv c) of
     [] \<Rightarrow> ret None sv
   | PostLine line # hs \<Rightarrow> ret (Some (PostLine line, s_writeQueue (the_session sv c) = []))
       (upd_session c (\<lambda>s. s\<lparr>s_posted := hs, s_writeQueue := s_writeQueue s @ [line]\<rparr>) sv)
   | h # hs \<Rightarrow> ret (Some (h, False)) (upd_session c (\<lambda>s. s\<lparr>s_posted := hs\<rparr>) sv))"

definition label_prog :: "'j JsonLib \<Rightarrow> ServerLabel \<Rightarrow> unit prog" where
  "label_prog lib l =
     (case l of
        Accept \<Rightarrow> bindp (atom accept_done) (\<lambda>_. onAccept_prog False)
      | AcceptFails \<Rightarrow> bindp (atom accept_done) (\<lambda>_. onAccept_prog True)
      | OnRead now c \<Rightarrow> bindp (atom (take_line c)) (\<lambda>input. case input of
          Some line \<Rightarrow> onReadLine_prog lib now c (Some line) | None \<Rightarrow> Pure ())
      | ReadFails c \<Rightarrow> bindp (atom (modify c (\<lambda>s. s\<lparr>s_read := RIdle\<rparr>))) (\<lambda>_. onReadLine_prog lib 0 c None)
      | WriteEnds c ok \<Rightarrow> bindp (atom (take_write c)) (\<lambda>taken. case taken of
          Some w \<Rightarrow> onWrite_prog lib c (if ok then Some w else None) | None \<Rightarrow> Pure ())
      | RunPosted c \<Rightarrow> bindp (atom (take_posted c)) (\<lambda>taken. case taken of
          Some (h, wasIdle) \<Rightarrow> runPosted_prog lib c h wasIdle | None \<Rightarrow> Pure ())
      | Receive c line \<Rightarrow> atom (modify c (\<lambda>s. s\<lparr>s_read := RReady line\<rparr>))
      | StopCall c \<Rightarrow> atom (session_stop c)
      | Destroy c \<Rightarrow> atom (\<lambda>sv. ret () (sv\<lparr>sv_sessions := (sv_sessions sv)(c := None)\<rparr>)))"

subsection \<open>Uninterrupted execution\<close>

lemma exec_atom [simp]: "exec (atom m) = m"
proof
  fix sv
  show "exec (atom m) sv = m sv"
  proof (cases "m sv")
    case (Some q)
    then show ?thesis by (cases q; cases "fst q") (simp_all add: atom_def)
  qed (simp add: atom_def)
qed

lemma exec_bindp [simp]: "exec (bindp p f) = seqn (exec p) (\<lambda>v. exec (f v))"
proof (induction p)
  case (Atom k)
  have "exec (bindp (Atom k) f) sv = seqn (exec (Atom k)) (\<lambda>v. exec (f v)) sv" for sv
  proof (cases "k sv")
    case (Some q)
    obtain r sv' where q: "q = (r, sv')" by (cases q)
    have "exec (bindp p f) = seqn (exec p) (\<lambda>v. exec (f v))" if "r = Inr p" for p
      using Atom[of "Some q" q r p] rangeI[of k sv] Some q that by simp
    then show ?thesis using Some q by (cases r) (simp_all add: seqn_def)
  qed (simp add: seqn_def)
  then show ?case by blast
qed (simp add: fun_eq_iff seqn_def)

lemma exec_if [simp]: "exec (if b then p else q) = (if b then exec p else exec q)"
  by simp

lemma exec_joinRoom [simp]: "exec (joinRoom_prog c room) = core_joinRoom c room"
  by (auto simp: fun_eq_iff joinRoom_prog_def core_joinRoom_def joinRoom_def seqn_def find_room_def room_join_def
      put_room_def Let_def same_core split: option.splits prod.splits)

lemma exec_save: "exec (save_prog room) sv = (case getRoom (manager (sv_core sv)) room of
    None \<Rightarrow> None | Some r \<Rightarrow> Some (Inr (), sv\<lparr>sv_enqueued := sv_enqueued sv @ [makePersistedSnapshot r]\<rparr>))"
  by (auto simp: save_prog_def seqn_def room_snapshot_def sink_enqueue_def split: option.splits)

lemma get_put_room [simp]: "getRoom (manager (sv_core (put_room room r sv))) = (getRoom (manager (sv_core sv)))(room \<mapsto> r)"
  by (simp add: put_room_def rm.look_store)

lemma exec_leaveRoom [simp]: "exec (leaveRoom_prog c room) = core_leaveRoom c room"
proof
  fix sv
  show "exec (leaveRoom_prog c room) sv = core_leaveRoom c room sv"
  proof (cases "getRoom (manager (sv_core sv)) room")
    case None
    then show ?thesis
      by (cases sv) (simp add: leaveRoom_prog_def core_leaveRoom_def leaveRoom_def seqn_def find_room_def)
  next
    case (Some r)
    show ?thesis
    proof (cases "leave r c")
      case None
      then show ?thesis using Some
        by (simp add: leaveRoom_prog_def core_leaveRoom_def leaveRoom_def seqn_def find_room_def room_leave_def)
    next
      case (Some q)
      then show ?thesis using \<open>getRoom (manager (sv_core sv)) room = Some r\<close>
        by (cases q; cases "fst q")
          (simp_all add: leaveRoom_prog_def core_leaveRoom_def leaveRoom_def seqn_def find_room_def room_leave_def
            save_when_empty_def has_sink_def room_count_def exec_save Let_def enqueued_same, simp_all add: put_room_def enqueued_same)
    qed
  qed
qed

lemma exec_handleEvent [simp]: "exec (handleEvent_prog now c room ev) = core_handleEvent now c room ev"
proof
  fix sv
  show "exec (handleEvent_prog now c room ev) sv = core_handleEvent now c room ev sv"
  proof (cases "getRoom (manager (sv_core sv)) room")
    case None
    then show ?thesis
      by (cases sv) (simp add: handleEvent_prog_def core_handleEvent_def handleEvent_def seqn_def find_room_def)
  next
    case (Some r)
    show ?thesis
    proof (cases "apply_event r now c ev")
      case None
      then show ?thesis using Some
        by (simp add: handleEvent_prog_def core_handleEvent_def handleEvent_def seqn_def find_room_def room_apply_def)
    next
      case (Some q)
      then show ?thesis using \<open>getRoom (manager (sv_core sv)) room = Some r\<close>
        by (cases q; cases "fst q")
          (simp_all add: handleEvent_prog_def core_handleEvent_def handleEvent_def seqn_def find_room_def room_apply_def
            save_after_def has_sink_def exec_save Let_def enqueued_same, simp_all add: put_room_def enqueued_same)
    qed
  qed
qed

lemma exec_dispatch [simp]: "exec (dispatchOutgoing_prog lib evs) = dispatchOutgoing lib evs"
proof (induction evs)
  case (Cons ev evs)
  have "exec (reg_deliver_prog lib c msg) = reg_deliver lib c msg" for c msg
    by (simp add: fun_eq_iff reg_deliver_prog_def reg_deliver_def seqn_def if_distrib cong: if_cong)
  with Cons show ?case by simp
qed (simp add: fun_eq_iff)

text \<open>\<open>exec\<close> under the branches of a handler.\<close>

lemmas exec_split = if_distrib[of exec] sum.case_distrib[of exec] option.case_distrib[of exec]

lemma exec_Pure: "exec (Pure a) = ret a"
  by (rule exec.simps)

lemma exec_handleJoin: "exec (handleJoin_prog lib c room) = handleJoin lib c room"
  by (simp add: handleJoin_prog_def handleJoin_def exec_split cong: if_cong sum.case_cong)

lemma exec_handleLeave: "exec (handleLeave_prog lib c room) = handleLeave lib c room"
  by (simp add: handleLeave_prog_def handleLeave_def exec_split cong: if_cong sum.case_cong)

lemma exec_handleDraw: "exec (handleDraw_prog lib now c room event) = handleDraw lib now c room event"
  by (simp add: handleDraw_prog_def handleDraw_def exec_split cong: if_cong sum.case_cong)

lemma exec_handleLine [simp]: "exec (handleLine_prog lib now c line) = handleLine lib now c line"
  by (auto simp: handleLine_prog_def handleLine_def handleMessage_prog_def handleMessage_def
      exec_handleJoin exec_handleLeave exec_handleDraw split: sum.splits ClientMessage.splits option.splits)

lemma exec_stopImpl [simp]: "exec (stopImpl_prog lib c) = stopImpl lib c"
  by (rule ext, simp add: stopImpl_prog_def exec_split cong: if_cong sum.case_cong option.case_cong)
    (simp add: stopImpl_def seqn_def exchange_stopped_def upd_session_same)

lemma exec_onReadLine [simp]: "exec (onReadLine_prog lib now c input) = onReadLine lib now c input"
  by (cases input) (simp_all add: onReadLine_prog_def onReadLine_def exec_split seqn_def load_stopped_def fun_eq_iff
      split: option.splits sum.splits cong: if_cong)

lemma exec_onWrite [simp]: "exec (onWrite_prog lib c res) = onWrite lib c res"
proof
  fix sv
  show "exec (onWrite_prog lib c res) sv = onWrite lib c res sv"
  proof (cases "s_writeQueue (the_session sv c)")
    case (Cons line rest)
    then have "live sv c" by (auto simp: live_def the_session_def new_session_def split: option.splits)
    then show ?thesis using Cons by (simp add: onWrite_prog_def onWrite_def seqn_def pop_line_def split: option.split)
  qed (simp add: onWrite_prog_def onWrite_def seqn_def pop_line_def split: option.split)
qed

lemma exec_onAccept [simp]: "exec (onAccept_prog ec) = onAccept ec"
  by (simp add: fun_eq_iff onAccept_prog_def onAccept_def add_session_def new_client_def accept_again_def seqn_def Let_def
      reg_add_def session_start_def post_def)

text \<open>
  The fine-grained handlers are the handlers: run without interruption, the program of every event
  of the server does exactly what the handler does as one step, exceptions and undefined behaviour
  included.
\<close>

lemma label_exec: "exec (label_prog lib l) = run_label lib l"
proof
  fix sv
  have posted: "exec (label_prog lib (RunPosted c)) sv = run_label lib (RunPosted c) sv" for c
  proof (cases "s_posted (the_session sv c)")
    case (Cons h hs)
    then have "live sv c" by (auto simp: live_def the_session_def new_session_def split: option.splits)
    then show ?thesis using Cons
      by (cases h) (simp_all add: label_prog_def run_label_def seqn_def take_posted_def runPosted_prog_def runPosted_def
          upd_session_twice comp_def)
  qed (simp add: label_prog_def run_label_def seqn_def take_posted_def)
  show "exec (label_prog lib l) sv = run_label lib l sv"
    using posted by (cases l) (auto simp: label_prog_def run_label_def seqn_def take_line_def take_write_def split: ReadOp.splits list.splits)
qed

end
