(* ===== verification/CS_Strands.thy ===== *)
theory CS_Strands
  imports CS_Threads
begin

text \<open>
  Rely and guarantee for the handlers of \<open>CS_Threads\<close>. \<open>mine c\<close> is the part of the state that
  only session \<open>c\<close> changes; every atomic action of another thread leaves it as it is (\<open>guar\<close>), so what a
  handler knows about it holds until its next step (\<open>rely\<close>). \<open>safe\<close> collects this along a program, and
  \<open>safe_label\<close> and \<open>safe_accept\<close> show it of every handler of the server. \<open>CS_System\<close> runs them together.
\<close>

text \<open>The session on whose strand an event is handled.\<close>

fun strand_of :: "ServerLabel \<Rightarrow> ClientId option" where
  "strand_of (OnRead now c) = Some c"
| "strand_of (ReadFails c) = Some c"
| "strand_of (WriteEnds c ok) = Some c"
| "strand_of (RunPosted c) = Some c"
| "strand_of _ = None"

subsection \<open>Rely and guarantee\<close>

definition fr :: "Session \<Rightarrow> Session" where
  "fr s = s\<lparr>s_posted := [], s_read := RIdle\<rparr>"

definition mine :: "ClientId \<Rightarrow> Server \<Rightarrow> (RoomId \<Rightarrow> bool) \<times> Session option" where
  "mine c sv = (\<lambda>room. in_room (sv_core sv) room c, map_option fr (sv_sessions sv c))"

definition rooms_kept :: "Server \<Rightarrow> Server \<Rightarrow> bool" where
  "rooms_kept sv sv' \<longleftrightarrow> (\<forall>room. room_exists (sv_core sv) room \<longrightarrow> room_exists (sv_core sv') room)"

fun rely :: "ClientId option \<Rightarrow> Server \<Rightarrow> Server \<Rightarrow> bool" where
  "rely (Some c) sv sv' \<longleftrightarrow> mine c sv' = mine c sv \<and> rooms_kept sv sv'"
| "rely None sv sv' \<longleftrightarrow> sv_acceptor sv' = sv_acceptor sv"

definition sane :: "nat \<Rightarrow> Server \<Rightarrow> bool" where
  "sane n sv \<longleftrightarrow> core_ok n (sv_core sv) \<and> unat (sv_nextClientId sv) + n < 2 ^ 64 \<and>
     (\<forall>c. live sv c \<longrightarrow> c < sv_nextClientId sv) \<and>
     (\<forall>room c. in_room (sv_core sv) room c \<longrightarrow> c < sv_nextClientId sv)"

definition agree :: "ClientId \<Rightarrow> Server \<Rightarrow> bool" where
  "agree c sv \<longleftrightarrow> (\<forall>room. in_room (sv_core sv) room c = (s_currentRoom (the_session sv c) = Some room)) \<and>
     queue_ok (the_session sv c)"

fun guar :: "ClientId option \<Rightarrow> Server \<Rightarrow> Server \<Rightarrow> bool" where
  "guar (Some c) sv sv' \<longleftrightarrow> (\<forall>d. d \<noteq> c \<longrightarrow> mine d sv' = mine d sv) \<and> rooms_kept sv sv' \<and>
     sv_acceptor sv' = sv_acceptor sv \<and> progress sv sv'"
| "guar None sv sv' \<longleftrightarrow> (\<forall>d. d < sv_nextClientId sv \<longrightarrow> mine d sv' = mine d sv) \<and> rooms_kept sv sv' \<and>
     (\<forall>d. \<not> d < sv_nextClientId sv \<longrightarrow> live sv' d \<longrightarrow> agree d sv') \<and> progress sv sv'"

inductive safe :: "ClientId option \<Rightarrow> ('a \<Rightarrow> Server \<Rightarrow> bool) \<Rightarrow> Server \<Rightarrow> 'a prog \<Rightarrow> bool" for t Q where
  pure: "(\<And>sv1. rely t sv sv1 \<Longrightarrow> Q a sv1) \<Longrightarrow> safe t Q sv (Pure a)"
| atom: "(\<And>n sv1. rely t sv sv1 \<Longrightarrow> sane (Suc n) sv1 \<Longrightarrow> \<exists>r sv2. k sv1 = Some (r, sv2) \<and>
     (\<forall>p. r = Inr p \<longrightarrow> sane n sv2 \<and> guar t sv1 sv2 \<and> safe t Q sv2 p)) \<Longrightarrow> safe t Q sv (Atom k)"

inductive_cases safe_PureE: "safe t Q sv (Pure a)"
inductive_cases safe_AtomE: "safe t Q sv (Atom k)"

lemma rooms_kept_refl [simp]: "rooms_kept sv sv"
  by (simp add: rooms_kept_def)

lemma rely_refl [simp]: "rely t sv sv"
  by (cases t) simp_all

lemma rely_trans: "rely t sv sv' \<Longrightarrow> rely t sv' sv'' \<Longrightarrow> rely t sv sv''"
  by (cases t) (auto simp: rooms_kept_def)

lemma safe_stable: "safe t Q sv p \<Longrightarrow> rely t sv sv' \<Longrightarrow> safe t Q sv' p"
  by (induction rule: safe.cases) (auto intro!: safe.intros dest: rely_trans)

lemma safe_bindp:
  assumes "safe t R sv p" "\<And>a sv'. R a sv' \<Longrightarrow> safe t Q sv' (f a)"
  shows "safe t Q sv (bindp p f)"
  using assms(1)
proof (induction rule: safe.induct)
  case (pure sv a)
  then show ?case using assms(2)[of a sv] by simp
next
  case (atom sv k)
  show ?case unfolding bindp.simps
  proof (rule safe.atom)
    fix n sv1 assume "rely t sv sv1" "sane (Suc n) sv1"
    then obtain r sv2 where k: "k sv1 = Some (r, sv2)"
      "\<forall>p. r = Inr p \<longrightarrow> sane n sv2 \<and> guar t sv1 sv2 \<and> safe t R sv2 p \<and> safe t Q sv2 (bindp p f)"
      using atom by blast
    then show "\<exists>r sv2. map_option (map_prod (map_sum id (\<lambda>p. bindp p f)) id) (k sv1) = Some (r, sv2) \<and>
        (\<forall>p. r = Inr p \<longrightarrow> sane n sv2 \<and> guar t sv1 sv2 \<and> safe t Q sv2 p)"
      by (cases r) simp_all
  qed
qed

lemma safe_atom:
  assumes "\<And>n sv1. rely t sv sv1 \<Longrightarrow> sane (Suc n) sv1 \<Longrightarrow> \<exists>r sv2. m sv1 = Some (r, sv2) \<and>
    (\<forall>v. r = Inr v \<longrightarrow> sane n sv2 \<and> guar t sv1 sv2 \<and> (\<forall>sv3. rely t sv2 sv3 \<longrightarrow> Q v sv3))"
  shows "safe t Q sv (atom m)"
  unfolding atom_def
proof (rule safe.atom)
  fix n sv1 assume "rely t sv sv1" "sane (Suc n) sv1"
  then obtain r sv2 where m: "m sv1 = Some (r, sv2)"
    "\<forall>v. r = Inr v \<longrightarrow> sane n sv2 \<and> guar t sv1 sv2 \<and> (\<forall>sv3. rely t sv2 sv3 \<longrightarrow> Q v sv3)"
    using assms by blast
  then show "\<exists>r sv2. map_option (map_prod (map_sum id Pure) id) (m sv1) = Some (r, sv2) \<and>
      (\<forall>p. r = Inr p \<longrightarrow> sane n sv2 \<and> guar t sv1 sv2 \<and> safe t Q sv2 p)"
    by (cases r) (auto intro: safe.pure)
qed

subsection \<open>What a session knows\<close>

text \<open>\<open>own c M s E\<close>: client \<open>c\<close> is a member of the rooms \<open>M\<close>, its session is \<open>s\<close>, and the rooms \<open>E\<close> exist.\<close>

definition own :: "ClientId \<Rightarrow> (RoomId \<Rightarrow> bool) \<Rightarrow> Session \<Rightarrow> RoomId set \<Rightarrow> Server \<Rightarrow> bool" where
  "own c M s E sv \<longleftrightarrow> mine c sv = (M, Some s) \<and> (\<forall>room\<in>E. room_exists (sv_core sv) room)"

lemma own_rely: "own c M s E sv \<Longrightarrow> rely (Some c) sv sv' \<Longrightarrow> own c M s E sv'"
  by (auto simp: own_def rooms_kept_def)

lemma own_live: "own c M s E sv \<Longrightarrow> live sv c"
  by (auto simp: own_def mine_def live_def)

lemma own_session: "own c M s E sv \<Longrightarrow> fr (the_session sv c) = s"
  by (auto simp: own_def mine_def the_session_def)

lemma own_fields:
  assumes "own c M s E sv"
  shows "s_currentRoom (the_session sv c) = s_currentRoom s" "s_stopped (the_session sv c) = s_stopped s"
    "s_writing (the_session sv c) = s_writing s" "s_writeQueue (the_session sv c) = s_writeQueue s"
    "in_room (sv_core sv) room c = M room"
  using own_session[OF assms] assms by (auto simp: fr_def own_def mine_def)

lemma safe_own:
  assumes "own c M s E sv"
    and "\<And>n sv1. own c M s E sv1 \<Longrightarrow> sane (Suc n) sv1 \<Longrightarrow> \<exists>r sv2. m sv1 = Some (r, sv2) \<and>
      (\<forall>v. r = Inr v \<longrightarrow> sane n sv2 \<and> guar (Some c) sv1 sv2 \<and> own c (M' v) (s' v) (E' v) sv2 \<and> R v)"
  shows "safe (Some c) (\<lambda>v sv. R v \<and> own c (M' v) (s' v) (E' v) sv) sv (atom m)"
proof (rule safe_atom)
  fix n sv1 assume "rely (Some c) sv sv1" "sane (Suc n) sv1"
  then obtain r sv2 where m: "m sv1 = Some (r, sv2)"
    "\<forall>v. r = Inr v \<longrightarrow> sane n sv2 \<and> guar (Some c) sv1 sv2 \<and> own c (M' v) (s' v) (E' v) sv2 \<and> R v"
    using assms(2) own_rely[OF assms(1)] by blast
  then show "\<exists>r sv2. m sv1 = Some (r, sv2) \<and> (\<forall>v. r = Inr v \<longrightarrow> sane n sv2 \<and> guar (Some c) sv1 sv2 \<and>
      (\<forall>sv3. rely (Some c) sv2 sv3 \<longrightarrow> R v \<and> own c (M' v) (s' v) (E' v) sv3))"
    by (intro exI[of _ r] exI[of _ sv2]) (auto dest: own_rely simp del: rely.simps guar.simps)
qed

lemma sane_mono: "sane n sv \<Longrightarrow> m \<le> n \<Longrightarrow> sane m sv"
  unfolding sane_def using core.ok_mono by fastforce

lemma sane_Suc: "sane (Suc n) sv \<Longrightarrow> sane n sv"
  by (erule sane_mono) simp

text \<open>Actions that change nothing, only post lines, or only update the session itself.\<close>

lemma guar_refl [simp]: "guar (Some c) sv sv"
  by (simp add: progress_def)

lemma fr_posts: "session_posts s s' \<Longrightarrow> fr s' = fr s"
  by (auto simp: session_posts_def fr_def)

lemma mine_posts:
  assumes "posts sv sv'"
  shows "mine d sv' = mine d sv"
proof -
  have "rel_option session_posts (sv_sessions sv d) (sv_sessions sv' d)" using assms by (simp add: posts_def)
  then have "map_option fr (sv_sessions sv' d) = map_option fr (sv_sessions sv d)"
    by (cases rule: option.rel_cases) (simp_all add: fr_posts)
  then show ?thesis using assms by (simp add: mine_def posts_def)
qed

lemma sane_posts: "posts sv sv' \<Longrightarrow> sane n sv' = sane n sv"
  using posts_live[of sv sv'] by (simp add: sane_def posts_def)

lemma guar_posts: "posts sv sv' \<Longrightarrow> live sv c \<Longrightarrow> guar (Some c) sv sv'"
  using mine_posts[of sv sv'] progress_acts[OF acts_posts] by (simp add: posts_def rooms_kept_def)

lemma own_posts: "posts sv sv' \<Longrightarrow> own c M s E sv \<Longrightarrow> own c M s E sv'"
  using mine_posts[of sv sv' c] by (simp add: own_def posts_def)

lemma safe_posts:
  assumes "own c M s E sv" "\<And>sv1. \<exists>r sv2. m sv1 = Some (r, sv2) \<and> posts sv1 sv2"
  shows "safe (Some c) (\<lambda>_. own c M s E) sv (atom m)"
proof -
  have "safe (Some c) (\<lambda>v sv. True \<and> own c M s E sv) sv (atom m)"
  proof (rule safe_own[OF assms(1)])
    fix n sv1 assume own: "own c M s E sv1" and sane: "sane (Suc n) sv1"
    obtain r sv2 where "m sv1 = Some (r, sv2)" "posts sv1 sv2" using assms(2) by blast
    then show "\<exists>r sv2. m sv1 = Some (r, sv2) \<and>
        (\<forall>v. r = Inr v \<longrightarrow> sane n sv2 \<and> guar (Some c) sv1 sv2 \<and> own c M s E sv2 \<and> True)"
      using guar_posts own_posts sane_posts sane_Suc[OF sane] own_live[OF own] own by blast
  qed
  then show ?thesis by simp
qed

lemma sane_upd [simp]: "sane n (upd_session c f sv) = sane n sv"
  by (simp add: sane_def)

lemma guar_upd:
  assumes "live sv c" "prefix (outbox (the_session sv c)) (outbox (f (the_session sv c)))"
  shows "guar (Some c) sv (upd_session c f sv)"
  using assms progress_upd[of sv c f] by (auto simp: mine_def rooms_kept_def)

lemma own_upd: "own c M s E sv \<Longrightarrow> own c M (fr (f (the_session sv c))) E (upd_session c f sv)"
  by (auto simp: own_def mine_def the_session_def)

lemma safe_update:
  assumes "own c M s E sv"
    and "\<And>sv1. own c M s E sv1 \<Longrightarrow> m sv1 = Some (Inr v, upd_session c f sv1)"
    and "\<And>s0. fr s0 = s \<Longrightarrow> fr (f s0) = s' \<and> prefix (outbox s0) (outbox (f s0))"
  shows "safe (Some c) (\<lambda>v' sv. v' = v \<and> own c M s' E sv) sv (atom m)"
proof (rule safe_own[OF assms(1)])
  fix n sv1 assume own: "own c M s E sv1" and sane: "sane (Suc n) sv1"
  have f: "fr (f (the_session sv1 c)) = s'" "prefix (outbox (the_session sv1 c)) (outbox (f (the_session sv1 c)))"
    using assms(3) own_session[OF own] by simp_all
  then have "own c M s' E (upd_session c f sv1)" using own_upd[OF own, of f] by simp
  then show "\<exists>r sv2. m sv1 = Some (r, sv2) \<and>
      (\<forall>v'. r = Inr v' \<longrightarrow> sane n sv2 \<and> guar (Some c) sv1 sv2 \<and> own c M s' E sv2 \<and> v' = v)"
    using assms(2)[OF own] guar_upd[where f = f, OF own_live[OF own] f(2)] sane_Suc[OF sane] by simp
qed

lemma safe_read:
  assumes "own c M s E sv" "\<And>sv1. own c M s E sv1 \<Longrightarrow> m sv1 = Some (Inr v, sv1)"
  shows "safe (Some c) (\<lambda>v' sv. v' = v \<and> own c M s E sv) sv (atom m)"
  using assms sane_Suc by (intro safe_own) (auto simp del: guar.simps)

subsection \<open>The critical sections of the core\<close>

lemma safe_find_room:
  assumes "own c M s E sv"
  shows "safe (Some c) (\<lambda>found sv. (M room \<longrightarrow> found) \<and> own c M s (if found then insert room E else E) sv) sv
    (atom (find_room room))"
proof (rule safe_own[OF assms])
  fix n sv1 assume own: "own c M s E sv1" and sane: "sane (Suc n) sv1"
  have "M room \<longrightarrow> room_exists (sv_core sv1) room"
    using own_fields(5)[OF own, of room] by (auto simp: in_room_def room_exists_def)
  then show "\<exists>r sv2. find_room room sv1 = Some (r, sv2) \<and> (\<forall>found. r = Inr found \<longrightarrow> sane n sv2 \<and>
      guar (Some c) sv1 sv2 \<and> own c M s (if found then insert room E else E) sv2 \<and> (M room \<longrightarrow> found))"
    using own sane_Suc[OF sane] by (auto simp: find_room_def own_def room_exists_def simp del: guar.simps)
qed

text \<open>Writing back a room in which only the membership of \<open>c\<close> may have changed.\<close>

lemma put_room_core: "sv_core (put_room room r sv) = (sv_core sv)\<lparr>manager := setRoom (manager (sv_core sv)) room r\<rparr>"
  by (simp add: put_room_def)

lemma put_room_fields [simp]:
  "live (put_room room r sv) d = live sv d" "the_session (put_room room r sv) d = the_session sv d"
  "sv_nextClientId (put_room room r sv) = sv_nextClientId sv" "sv_acceptor (put_room room r sv) = sv_acceptor sv"
  "sv_sessions (put_room room r sv) = sv_sessions sv"
  by (simp_all add: put_room_def live_def the_session_def)

lemma put_room_step:
  assumes own: "own c M s E sv" and sane: "sane (Suc n) sv" and r: "getRoom (manager (sv_core sv)) room = Some r"
    and ok: "core_ok n (sv_core (put_room room r' sv))"
    and mem: "\<And>d. d \<noteq> c \<Longrightarrow> (d \<in> set (members r')) = (d \<in> set (members r))"
  shows "sane n (put_room room r' sv) \<and> guar (Some c) sv (put_room room r' sv) \<and>
    own c (M(room := c \<in> set (members r'))) s E (put_room room r' sv)"
proof -
  have lv: "live sv c" by (rule own_live[OF own])
  have inr: "in_room (sv_core (put_room room r' sv)) = (in_room (sv_core sv))(room := (\<lambda>d. d \<in> set (members r')))"
    by (simp add: put_room_core in_room_set)
  have old: "in_room (sv_core sv) room d = (d \<in> set (members r))" for d using r by (simp add: in_room_def)
  have keep: "rooms_kept sv (put_room room r' sv)" using r by (simp add: rooms_kept_def put_room_core room_exists_set)
  have others: "in_room (sv_core (put_room room r' sv)) rm d = in_room (sv_core sv) rm d" if "d \<noteq> c" for rm d
    using mem[OF that] old by (auto simp: inr)
  have "c < sv_nextClientId sv" using lv sane by (simp add: sane_def)
  then have "d < sv_nextClientId sv" if "in_room (sv_core (put_room room r' sv)) rm d" for rm d
    using that others sane by (cases "d = c") (auto simp: sane_def)
  then have "sane n (put_room room r' sv)" using sane ok by (simp add: sane_def)
  moreover have "progress sv (put_room room r' sv)"
  proof -
    have "in_room (sv_core (put_room room r' sv)) rm d = in_room (sv_core sv) rm d" if "\<not> live sv d" for d rm
      using that lv others[of d rm] by (cases "d = c") simp_all
    then show ?thesis by (simp add: progress_def)
  qed
  moreover have "own c (M(room := c \<in> set (members r'))) s E (put_room room r' sv)"
    using own keep by (auto simp: own_def mine_def inr rooms_kept_def)
  ultimately show ?thesis using keep others by (simp add: mine_def)
qed

lemma own_room:
  assumes "own c M s E sv" "sane (Suc n) sv" "room \<in> E"
  obtains r where "getRoom (manager (sv_core sv)) room = Some r" "room_inv r" "seq_room r 2" "room_id r = room"
    "M room = (c \<in> set (members r))"
proof -
  obtain r where r: "getRoom (manager (sv_core sv)) room = Some r"
    using assms(1,3) by (auto simp: own_def room_exists_def)
  have "core_ok (Suc n) (sv_core sv)" using assms(2) by (simp add: sane_def)
  from core_okD[OF this r] show thesis
    using that[OF r] r own_fields(5)[OF assms(1), of room] by (simp add: in_room_def)
qed

lemma safe_room_join:
  assumes "own c M s E sv" "room \<in> E"
  shows "safe (Some c) (\<lambda>res sv. (\<exists>snap. res = Inr snap) \<and> own c (M(room := True)) s E sv) sv
    (atom (room_join c room))"
proof (rule safe_own[OF assms(1)])
  fix n sv1 assume own: "own c M s E sv1" and sane: "sane (Suc n) sv1"
  obtain r where r: "getRoom (manager (sv_core sv1)) room = Some r" "room_inv r" "room_id r = room"
    using own_room[OF own sane assms(2)] by metis
  obtain snap r' where j: "join r c = (Inr snap, r')" "r' = r\<lparr>members := List.insert c (members r)\<rparr>"
    by (simp add: join_def Let_def)
  have "core_ok (Suc n) (sv_core sv1)" using sane by (simp add: sane_def)
  then have "core_ok n (sv_core (put_room room r' sv1))"
    unfolding put_room_core using r j join_inv[of r c] by (intro core_ok_set[where r = r]) simp_all
  from put_room_step[OF own sane r(1) this] show "\<exists>res sv2. room_join c room sv1 = Some (res, sv2) \<and>
      (\<forall>v. res = Inr v \<longrightarrow> sane n sv2 \<and> guar (Some c) sv1 sv2 \<and> own c (M(room := True)) s E sv2 \<and> (\<exists>snap. v = Inr snap))"
    using r(1) j by (simp add: room_join_def del: guar.simps)
qed

lemma safe_room_leave:
  assumes "own c M s E sv" "room \<in> E" "M room"
  shows "safe (Some c) (\<lambda>res sv. (\<exists>out. res = Inr out) \<and> own c (M(room := False)) s E sv) sv
    (atom (room_leave c room))"
proof (rule safe_own[OF assms(1)])
  fix n sv1 assume own: "own c M s E sv1" and sane: "sane (Suc n) sv1"
  obtain r where r: "getRoom (manager (sv_core sv1)) room = Some r" "room_inv r" "seq_room r 2" "room_id r = room"
      "c \<in> set (members r)"
    using own_room[OF own sane assms(2)] assms(3) by metis
  obtain res r' where l: "leave r c = Some (res, r')" "room_inv r'" "room_id r' = room_id r"
      "set (members r') = set (members r) - {c}" "unat (nextSeq r') \<le> unat (nextSeq r) + 2"
    using leave_step[OF r(2,3)] by blast
  obtain out where "res = Inr out"
    using l(1) leave_member_eq[OF r(2,5)] by (auto simp: Let_def split: prod.splits)
  have "core_ok (Suc n) (sv_core sv1)" using sane by (simp add: sane_def)
  then have "core_ok n (sv_core (put_room room r' sv1))"
    unfolding put_room_core using r l by (intro core_ok_set) simp_all
  from put_room_step[OF own sane r(1) this] show "\<exists>res sv2. room_leave c room sv1 = Some (res, sv2) \<and>
      (\<forall>v. res = Inr v \<longrightarrow> sane n sv2 \<and> guar (Some c) sv1 sv2 \<and> own c (M(room := False)) s E sv2 \<and> (\<exists>out. v = Inr out))"
    using r(1) l \<open>res = Inr out\<close> by (simp add: room_leave_def del: guar.simps)
qed

lemma safe_room_apply:
  assumes "own c M s E sv" "room \<in> E"
  shows "safe (Some c) (\<lambda>res. own c M s E) sv (atom (room_apply now c room ev))"
proof -
  have "safe (Some c) (\<lambda>res sv. True \<and> own c M s E sv) sv (atom (room_apply now c room ev))"
  proof (rule safe_own[OF assms(1)])
    fix n sv1 assume own: "own c M s E sv1" and sane: "sane (Suc n) sv1"
    obtain r where r: "getRoom (manager (sv_core sv1)) room = Some r" "room_inv r" "seq_room r 2" "room_id r = room"
        "M room = (c \<in> set (members r))"
      using own_room[OF own sane assms(2)] by metis
    obtain res r' where l: "apply_event r now c ev = Some (res, r')" "room_inv r'" "room_id r' = room_id r"
        "members r' = members r" "unat (nextSeq r') \<le> unat (nextSeq r) + 2"
      using apply_event_step[OF r(2,3)] by blast
    have "core_ok (Suc n) (sv_core sv1)" using sane by (simp add: sane_def)
    then have "core_ok n (sv_core (put_room room r' sv1))"
      unfolding put_room_core using r l by (intro core_ok_set) simp_all
    from put_room_step[OF own sane r(1) this] show "\<exists>res sv2. room_apply now c room ev sv1 = Some (res, sv2) \<and>
        (\<forall>v. res = Inr v \<longrightarrow> sane n sv2 \<and> guar (Some c) sv1 sv2 \<and> own c M s E sv2 \<and> True)"
      using r(1,5) l by (simp add: room_apply_def fun_upd_idem del: guar.simps)
  qed
  then show ?thesis by simp
qed

lemma safe_weaken:
  assumes "safe t Q sv p" "\<And>a sv'. Q a sv' \<Longrightarrow> Q' a sv'"
  shows "safe t Q' sv p"
  using assms(1)
proof (induction rule: safe.induct)
  case (pure sv a)
  then show ?case using assms(2) by (intro safe.pure) blast
next
  case (atom sv k)
  then show ?case by (intro safe.atom) metis
qed

text \<open>Actions on the registry, the queue of the writer and the like, which no session owns.\<close>

lemma safe_quiet:
  assumes "own c M s E sv"
    and "\<And>n sv1. own c M s E sv1 \<Longrightarrow> sane (Suc n) sv1 \<Longrightarrow> \<exists>r sv2. m sv1 = Some (r, sv2) \<and> sv_core sv2 = sv_core sv1 \<and>
      sv_sessions sv2 = sv_sessions sv1 \<and> sv_nextClientId sv2 = sv_nextClientId sv1 \<and> sv_acceptor sv2 = sv_acceptor sv1"
  shows "safe (Some c) (\<lambda>_. own c M s E) sv (atom m)"
proof -
  have "safe (Some c) (\<lambda>v sv. True \<and> own c M s E sv) sv (atom m)"
  proof (rule safe_own[OF assms(1)])
    fix n sv1 assume own: "own c M s E sv1" and sane: "sane (Suc n) sv1"
    obtain r sv2 where m: "m sv1 = Some (r, sv2)" and same: "sv_core sv2 = sv_core sv1" "sv_sessions sv2 = sv_sessions sv1"
        "sv_nextClientId sv2 = sv_nextClientId sv1" "sv_acceptor sv2 = sv_acceptor sv1"
      using assms(2)[OF own sane] by blast
    then have "live sv2 = live sv1" "the_session sv2 = the_session sv1" by (simp_all add: live_def the_session_def fun_eq_iff)
    then show "\<exists>r sv2. m sv1 = Some (r, sv2) \<and>
        (\<forall>v. r = Inr v \<longrightarrow> sane n sv2 \<and> guar (Some c) sv1 sv2 \<and> own c M s E sv2 \<and> True)"
      using m same own sane_Suc[OF sane] by (simp add: sane_def own_def mine_def rooms_kept_def progress_def)
  qed
  then show ?thesis by simp
qed

lemma safe_room_read:
  assumes "own c M s E sv" "room \<in> E"
  shows "safe (Some c) (\<lambda>_. own c M s E) sv (atom (room_count room))"
    "safe (Some c) (\<lambda>_. own c M s E) sv (atom (room_snapshot room))"
proof -
  have "\<exists>r. getRoom (manager (sv_core sv1)) room = Some r" if "own c M s E sv1" for sv1
    using that assms(2) by (auto simp: own_def room_exists_def)
  then show "safe (Some c) (\<lambda>_. own c M s E) sv (atom (room_count room))"
    "safe (Some c) (\<lambda>_. own c M s E) sv (atom (room_snapshot room))"
    by (intro safe_quiet[OF assms(1)]; fastforce simp: room_count_def room_snapshot_def)+
qed

lemma safe_sink:
  assumes "own c M s E sv"
  shows "safe (Some c) (\<lambda>_. own c M s E) sv (atom has_sink)"
    "safe (Some c) (\<lambda>_. own c M s E) sv (atom (sink_enqueue sn))"
    "safe (Some c) (\<lambda>_. own c M s E) sv (atom (reg_remove d))"
  by (rule safe_quiet[OF assms]; simp add: has_sink_def sink_enqueue_def reg_remove_def)+

lemma safe_save: "own c M s E sv \<Longrightarrow> room \<in> E \<Longrightarrow> safe (Some c) (\<lambda>_. own c M s E) sv (save_prog room)"
  unfolding save_prog_def by (erule safe_bindp[OF safe_room_read(2)]) (simp_all add: safe_sink)

lemma own_forget: "own c M s E sv \<Longrightarrow> own c M s {} sv"
  by (simp add: own_def)

lemma safe_Pure: "own c M s E sv \<Longrightarrow> (\<And>sv1. own c M s E sv1 \<Longrightarrow> Q a sv1) \<Longrightarrow> safe (Some c) Q sv (Pure a)"
  by (rule safe.pure) (blast intro: own_rely)

lemma safe_Pure_same: "own c M s E sv \<Longrightarrow> safe (Some c) (\<lambda>_. own c M s E) sv (Pure a)"
  by (erule safe_Pure)

text \<open>The whole calls.\<close>

lemma safe_joinRoom:
  assumes "own c M s E sv"
  shows "safe (Some c) (\<lambda>res sv. own c (if isl res then M else M(room := True)) s {} sv) sv
    (joinRoom_prog c room)"
  unfolding joinRoom_prog_def
proof (rule safe_bindp[OF safe_find_room[OF assms, of room]])
  fix found sv' assume "(M room \<longrightarrow> found) \<and> own c M s (if found then insert room E else E) sv'"
  then have own: "own c M s (if found then insert room E else E) sv'" by blast
  show "safe (Some c) (\<lambda>res sv. own c (if isl res then M else M(room := True)) s {} sv) sv'
      (if \<not> found then Pure (Inl roomNotFound) else atom (room_join c room))"
  proof (cases found)
    case True
    then show ?thesis using own own_forget
      by simp (rule safe_weaken[OF safe_room_join[of c M s "insert room E" sv' room]], auto)
  next
    case False
    then show ?thesis using own own_forget by (auto intro: safe_Pure)
  qed
qed

lemma safe_save_after:
  assumes "own c M s E sv" "room \<in> E"
  shows "safe (Some c) (\<lambda>_. own c M s E) sv (save_when_empty room)"
    "safe (Some c) (\<lambda>_. own c M s E) sv (save_after room ev)"
  unfolding save_when_empty_def save_after_def using assms
  by (auto intro!: safe_bindp[OF safe_sink(1)] safe_bindp[OF safe_room_read(1)] safe_save safe_Pure_same)

lemma safe_leaveRoom:
  assumes "own c M s E sv" "M room"
  shows "safe (Some c) (\<lambda>res sv. (\<exists>out. res = Inr out) \<and> own c (M(room := False)) s {} sv) sv (leaveRoom_prog c room)"
    (is "safe _ ?Q _ _")
  unfolding leaveRoom_prog_def
proof (rule safe_bindp[OF safe_find_room[OF assms(1), of room]])
  fix found sv1 assume f: "(M room \<longrightarrow> found) \<and> own c M s (if found then insert room E else E) sv1"
  have step: "safe (Some c) ?Q sv2 (case res of
         Inl e \<Rightarrow> Pure (Inl e) | Inr out \<Rightarrow> bindp (save_when_empty room) (\<lambda>_. Pure (Inr out)))"
    if r: "(\<exists>out. res = Inr out) \<and> own c (M(room := False)) s (insert room E) sv2" for res sv2
  proof -
    obtain out where "res = Inr out" and own2: "own c (M(room := False)) s (insert room E) sv2" using r by blast
    moreover have "safe (Some c) ?Q sv2 (bindp (save_when_empty room) (\<lambda>_. Pure (Inr out)))"
      by (rule safe_bindp[OF safe_save_after(1)[OF own2]]) (auto intro: safe_Pure own_forget)
    ultimately show ?thesis by simp
  qed
  show "safe (Some c) ?Q sv1 (if \<not> found then Pure (Inl roomNotFound)
     else bindp (atom (room_leave c room)) (\<lambda>res. case res of
         Inl e \<Rightarrow> Pure (Inl e) | Inr out \<Rightarrow> bindp (save_when_empty room) (\<lambda>_. Pure (Inr out))))"
    using f assms(2) by (auto intro!: safe_bindp[OF safe_room_leave step])
qed

lemma safe_handleEvent:
  assumes "own c M s E sv"
  shows "safe (Some c) (\<lambda>res. own c M s {}) sv (handleEvent_prog now c room ev)" (is "safe _ ?Q _ _")
  unfolding handleEvent_prog_def
proof (rule safe_bindp[OF safe_find_room[OF assms(1), of room]])
  fix found sv1 assume "(M room \<longrightarrow> found) \<and> own c M s (if found then insert room E else E) sv1"
  then have own: "own c M s (if found then insert room E else E) sv1" by blast
  have step: "safe (Some c) ?Q sv2 (case res of
         Inl e \<Rightarrow> Pure (Inl e) | Inr out \<Rightarrow> bindp (save_after room ev) (\<lambda>_. Pure (Inr out)))"
    if "own c M s (insert room E) sv2" for res sv2
    using that by (cases res) (auto intro!: safe_bindp[OF safe_save_after(2)[OF that]] intro: safe_Pure own_forget)
  show "safe (Some c) ?Q sv1 (if \<not> found then Pure (Inl roomNotFound)
     else bindp (atom (room_apply now c room ev)) (\<lambda>res. case res of
         Inl e \<Rightarrow> Pure (Inl e) | Inr out \<Rightarrow> bindp (save_after room ev) (\<lambda>_. Pure (Inr out))))"
    using own by (cases found) (auto intro!: safe_bindp[OF safe_room_apply step] intro: safe_Pure own_forget)
qed

subsection \<open>The handlers\<close>

text \<open>The session is \<open>s\<close> up to its room, which is where the core has its client.\<close>

definition at_room :: "ClientId \<Rightarrow> Session \<Rightarrow> RoomId option \<Rightarrow> Server \<Rightarrow> bool" where
  "at_room c s room = own c (\<lambda>r. room = Some r) (s\<lparr>s_currentRoom := room\<rparr>) {}"

lemma safe_getCurrentRoom:
  "own c M s E sv \<Longrightarrow> safe (Some c) (\<lambda>v sv. v = s_currentRoom s \<and> own c M s E sv) sv (atom (getCurrentRoom c))"
  by (rule safe_read) (simp_all add: getCurrentRoom_def own_fields)

lemma safe_setCurrentRoom:
  "own c M s E sv \<Longrightarrow>
   safe (Some c) (\<lambda>v sv. v = () \<and> own c M (s\<lparr>s_currentRoom := room\<rparr>) E sv) sv (atom (setCurrentRoom c room))"
  by (rule safe_update[where f = "\<lambda>s. s\<lparr>s_currentRoom := room\<rparr>"])
    (auto simp: setCurrentRoom_def fr_def outbox_def)

lemma safe_move:
  "own c (\<lambda>r. room = Some r) (s\<lparr>s_currentRoom := cur\<rparr>) {} sv \<Longrightarrow>
   safe (Some c) (\<lambda>_. at_room c s room) sv (atom (setCurrentRoom c room))"
  by (erule safe_weaken[OF safe_setCurrentRoom]) (simp add: at_room_def)

lemma safe_deliver:
  assumes "own c M s E sv"
  shows "safe (Some c) (\<lambda>_. own c M s E) sv (atom (deliver lib d msg))"
    "safe (Some c) (\<lambda>_. own c M s E) sv (atom (sendError lib d e))"
    "safe (Some c) (\<lambda>_. own c M s E) sv (atom (reg_find d))"
proof -
  show "safe (Some c) (\<lambda>_. own c M s E) sv (atom (deliver lib d msg))"
    "safe (Some c) (\<lambda>_. own c M s E) sv (atom (sendError lib d e))"
    by (rule safe_posts[OF assms], rule deliver_posts sendError_posts)+
  show "safe (Some c) (\<lambda>_. own c M s E) sv (atom (reg_find d))"
    using reg_find_posts by (intro safe_posts[OF assms]) blast
qed

lemma safe_dispatch: "own c M s E sv \<Longrightarrow> safe (Some c) (\<lambda>_. own c M s E) sv (dispatchOutgoing_prog lib evs)"
proof (induction evs arbitrary: sv)
  case (Cons ev evs)
  have "safe (Some c) (\<lambda>_. own c M s E) sv (reg_deliver_prog lib d msg)" for d msg
    unfolding reg_deliver_prog_def using Cons.prems
    by (auto intro!: safe_bindp[OF safe_deliver(3)] safe_deliver(1) safe_Pure_same)
  then show ?case using Cons.IH by (auto intro: safe_bindp)
qed (simp add: safe_Pure_same)

lemma at_room_error:
  "at_room c s room sv \<Longrightarrow> safe (Some c) (\<lambda>_ sv. \<exists>room. at_room c s room sv) sv (atom (sendError lib d e))"
  unfolding at_room_def by (rule safe_weaken[OF safe_deliver(2)]) auto

lemma at_room_deliver:
  "at_room c s room sv \<Longrightarrow> safe (Some c) (\<lambda>_ sv. \<exists>room. at_room c s room sv) sv (atom (deliver lib d msg))"
  unfolding at_room_def by (rule safe_weaken[OF safe_deliver(1)]) auto

lemma safe_current:
  assumes "at_room c s room sv" "\<And>sv'. at_room c s room sv' \<Longrightarrow> safe (Some c) Q sv' (f room)"
  shows "safe (Some c) Q sv (bindp (atom (getCurrentRoom c)) f)"
  by (rule safe_bindp[OF safe_getCurrentRoom[OF assms(1)[unfolded at_room_def]]])
    (use assms(2) in \<open>auto simp: at_room_def\<close>)

lemma safe_handleJoin:
  assumes "at_room c s cur sv"
  shows "safe (Some c) (\<lambda>_ sv. \<exists>room. at_room c s room sv) sv (handleJoin_prog lib c room)" (is "safe _ ?Q _ _")
  unfolding handleJoin_prog_def
proof (rule safe_current[OF assms])
  fix sv1 assume at: "at_room c s cur sv1"
  show "safe (Some c) ?Q sv1 (if cur \<noteq> None \<and> cur \<noteq> Some room
     then atom (sendError lib c (invalidParams ''session already joined to another room''))
     else bindp (joinRoom_prog c room) (\<lambda>res. case res of
         Inl e \<Rightarrow> atom (sendError lib c e)
       | Inr snap \<Rightarrow> bindp (atom (setCurrentRoom c (Some room))) (\<lambda>_. atom (deliver lib c (toSnapshotMessage snap)))))"
  proof (cases "cur \<noteq> None \<and> cur \<noteq> Some room")
    case True
    then show ?thesis using at_room_error[OF at] by simp
  next
    case False
    then have M: "(\<lambda>r. cur = Some r)(room := True) = (\<lambda>r. Some room = Some r)" by (auto simp: fun_eq_iff)
    have "safe (Some c) ?Q sv2 (case res of
         Inl e \<Rightarrow> atom (sendError lib c e)
       | Inr snap \<Rightarrow> bindp (atom (setCurrentRoom c (Some room))) (\<lambda>_. atom (deliver lib c (toSnapshotMessage snap))))"
      if "own c (if isl res then (\<lambda>r. cur = Some r) else (\<lambda>r. cur = Some r)(room := True)) (s\<lparr>s_currentRoom := cur\<rparr>) {} sv2"
      for res sv2
    proof (cases res)
      case (Inl e)
      then show ?thesis using that at_room_error by (simp add: at_room_def)
    next
      case (Inr snap)
      then have "own c (\<lambda>r. Some room = Some r) (s\<lparr>s_currentRoom := cur\<rparr>) {} sv2" using that M by simp
      then have "safe (Some c) ?Q sv2 (bindp (atom (setCurrentRoom c (Some room))) (\<lambda>_. atom (deliver lib c (toSnapshotMessage snap))))"
        by (rule safe_bindp[OF safe_move at_room_deliver])
      then show ?thesis using Inr by simp
    qed
    then show ?thesis using False
      by (auto intro!: safe_bindp[OF safe_joinRoom[OF at[unfolded at_room_def]]])
  qed
qed

lemma safe_handleLeave:
  assumes "at_room c s cur sv"
  shows "safe (Some c) (\<lambda>_ sv. \<exists>room. at_room c s room sv) sv (handleLeave_prog lib c room)" (is "safe _ ?Q _ _")
  unfolding handleLeave_prog_def
proof (rule safe_current[OF assms])
  fix sv1 assume at: "at_room c s cur sv1"
  let ?rest = "\<lambda>res. case res of
         Inl e \<Rightarrow> atom (sendError lib c e)
       | Inr out \<Rightarrow> bindp (atom (setCurrentRoom c None)) (\<lambda>_. bindp (dispatchOutgoing_prog lib out) (\<lambda>_.
           atom (deliver lib c (OkResponse ''leave_room'' room))))"
  have rest: "safe (Some c) ?Q sv2 (?rest res)" if cur: "cur = Some room" and
      res: "(\<exists>out. res = Inr out) \<and> own c ((\<lambda>r. cur = Some r)(room := False)) (s\<lparr>s_currentRoom := cur\<rparr>) {} sv2" for res sv2
  proof -
    obtain out where out: "res = Inr out" using res by blast
    have "(\<lambda>r. cur = Some r)(room := False) = (\<lambda>r. None = Some r)" using cur by (auto simp: fun_eq_iff)
    then have "own c (\<lambda>r. None = Some r) (s\<lparr>s_currentRoom := cur\<rparr>) {} sv2" using res by simp
    moreover have "safe (Some c) (\<lambda>_. at_room c s None) sv3 (dispatchOutgoing_prog lib out)" if "at_room c s None sv3" for sv3
      using that unfolding at_room_def by (rule safe_dispatch)
    ultimately have "safe (Some c) ?Q sv2 (bindp (atom (setCurrentRoom c None)) (\<lambda>_. bindp (dispatchOutgoing_prog lib out) (\<lambda>_.
           atom (deliver lib c (OkResponse ''leave_room'' room)))))"
      by (intro safe_bindp[OF safe_move] safe_bindp[OF _ at_room_deliver])
    then show ?thesis using out by simp
  qed
  show "safe (Some c) ?Q sv1 (if cur \<noteq> Some room then atom (sendError lib c notInRoom) else bindp (leaveRoom_prog c room) ?rest)"
  proof (cases "cur = Some room")
    case True
    have "safe (Some c) ?Q sv1 (bindp (leaveRoom_prog c room) ?rest)"
      using True by (intro safe_bindp[OF safe_leaveRoom[OF at[unfolded at_room_def]] rest]) simp_all
    then show ?thesis using True by simp
  qed (simp add: at_room_error[OF at])
qed

lemma safe_handleDraw:
  assumes "at_room c s cur sv"
  shows "safe (Some c) (\<lambda>_ sv. \<exists>room. at_room c s room sv) sv (handleDraw_prog lib now c room event)" (is "safe _ ?Q _ _")
  unfolding handleDraw_prog_def
proof (rule safe_current[OF assms])
  fix sv1 assume at: "at_room c s cur sv1"
  have rest: "safe (Some c) ?Q sv2 (case res of Inl e \<Rightarrow> atom (sendError lib c e) | Inr out \<Rightarrow> dispatchOutgoing_prog lib out)"
    if at2: "at_room c s cur sv2" for res sv2
  proof (cases res)
    case (Inr out)
    have "safe (Some c) ?Q sv2 (dispatchOutgoing_prog lib out)"
      by (rule safe_weaken[OF safe_dispatch[OF at2[unfolded at_room_def]]]) (auto simp: at_room_def)
    then show ?thesis using Inr by simp
  qed (simp add: at_room_error[OF at2])
  show "safe (Some c) ?Q sv1 (if cur \<noteq> Some room then atom (sendError lib c notInRoom)
     else case event of
         Inl e \<Rightarrow> atom (sendError lib c e)
       | Inr ev \<Rightarrow> bindp (handleEvent_prog now c room ev) (\<lambda>res. case res of
           Inl e \<Rightarrow> atom (sendError lib c e) | Inr out \<Rightarrow> dispatchOutgoing_prog lib out))"
    using at_room_error[OF at] safe_bindp[OF safe_handleEvent[OF at[unfolded at_room_def]], folded at_room_def, OF rest]
    by (auto split: sum.splits)
qed

lemma safe_createRoom:
  assumes "own c M s E sv"
  shows "safe (Some c) (\<lambda>_. own c M s E) sv (atom core_createRoom)"
proof -
  have "safe (Some c) (\<lambda>v sv. True \<and> own c M s E sv) sv (atom core_createRoom)"
  proof (rule safe_own[OF assms])
    fix n sv1 assume own: "own c M s E sv1" and sane: "sane (Suc n) sv1"
    obtain rid core where cr: "createRoom (sv_core sv1) = (rid, core)" by (cases "createRoom (sv_core sv1)")
    have "core_ok n core" "room_exists core = (room_exists (sv_core sv1))(rid := True)" "in_room core = in_room (sv_core sv1)"
      using core.mk_ok[OF _ cr, of n] sane by (simp_all add: sane_def)
    then show "\<exists>r sv2. core_createRoom sv1 = Some (r, sv2) \<and>
        (\<forall>v. r = Inr v \<longrightarrow> sane n sv2 \<and> guar (Some c) sv1 sv2 \<and> own c M s E sv2 \<and> True)"
      using cr own sane
      by (simp add: core_createRoom_def sane_def own_def mine_def rooms_kept_def progress_def)
  qed
  then show ?thesis by simp
qed

lemma safe_handleLine:
  assumes "at_room c s cur sv"
  shows "safe (Some c) (\<lambda>_ sv. \<exists>room. at_room c s room sv) sv (handleLine_prog lib now c line)" (is "safe _ ?Q _ _")
proof (cases "parseClientMessage lib line")
  case (Inl e)
  then show ?thesis using at_room_error[OF assms, of lib c "protocolToCoreError e"]
    by (simp add: handleLine_prog_def sendProtocolError_def del: protocolToCoreError.simps)
next
  case (Inr msg)
  have create: "safe (Some c) ?Q sv (bindp (atom core_createRoom) (\<lambda>room. atom (deliver lib c (RoomCreatedResponse room))))"
    by (rule safe_bindp[OF safe_createRoom[OF assms[unfolded at_room_def]], folded at_room_def]) (rule at_room_deliver)
  have pure: "safe (Some c) ?Q sv (Pure ())"
    by (rule safe_weaken[OF safe_Pure_same[OF assms[unfolded at_room_def]]]) (auto simp: at_room_def)
  show ?thesis
    using Inr create pure at_room_deliver[OF assms] safe_handleJoin[OF assms] safe_handleLeave[OF assms] safe_handleDraw[OF assms]
    by (cases msg) (auto simp: handleLine_prog_def handleMessage_prog_def split: option.splits)
qed

text \<open>Where a handler begins and ends: the session agrees with the core and its queue is in order.\<close>

definition home :: "ClientId \<Rightarrow> Server \<Rightarrow> bool" where
  "home c sv \<longleftrightarrow> live sv c \<and> agree c sv"

lemma fr_queue_ok [simp]: "queue_ok (fr s) = queue_ok s" "queue_ok (s\<lparr>s_currentRoom := room\<rparr>) = queue_ok s"
  by (simp_all add: fr_def queue_ok_def writes_front_def)

lemma at_room_home: "at_room c s room sv \<Longrightarrow> queue_ok s \<Longrightarrow> home c sv"
proof -
  assume at: "at_room c s room sv" and q: "queue_ok s"
  note own = at[unfolded at_room_def]
  have "queue_ok (the_session sv c)" using own_session[OF own] q fr_queue_ok by metis
  then show "home c sv" using own_live[OF own] own_fields(1,5)[OF own] by (simp add: home_def agree_def)
qed

lemma home_at_room:
  assumes "home c sv"
  obtains s where "at_room c s (s_currentRoom s) sv" "queue_ok s" "fr (the_session sv c) = s"
proof -
  let ?s = "fr (the_session sv c)"
  have "sv_sessions sv c = Some (the_session sv c)" using assms by (simp add: home_def live_the_session)
  then have "own c (\<lambda>r. s_currentRoom ?s = Some r) ?s {} sv"
    using assms by (simp add: own_def mine_def home_def agree_def fr_def)
  moreover have "?s\<lparr>s_currentRoom := s_currentRoom ?s\<rparr> = ?s" by simp
  ultimately have "at_room c ?s (s_currentRoom ?s) sv" by (simp add: at_room_def)
  then show thesis using that[of ?s] assms by (simp add: home_def agree_def)
qed

text \<open>Updates of the session's own fields.\<close>

lemma fr_upd [simp]:
  "fr (s\<lparr>s_open := b\<rparr>) = (fr s)\<lparr>s_open := b\<rparr>" "fr (s\<lparr>s_stopped := b\<rparr>) = (fr s)\<lparr>s_stopped := b\<rparr>"
  "fr (s\<lparr>s_writing := q\<rparr>) = (fr s)\<lparr>s_writing := q\<rparr>" "fr (s\<lparr>s_writeQueue := q\<rparr>) = (fr s)\<lparr>s_writeQueue := q\<rparr>"
  "fr (s\<lparr>s_written := q\<rparr>) = (fr s)\<lparr>s_written := q\<rparr>" "fr (s\<lparr>s_read := r\<rparr>) = fr s" "fr (s\<lparr>s_posted := hs\<rparr>) = fr s"
  by (simp_all add: fr_def)

lemma at_room_update:
  assumes "at_room c s room sv"
    and "\<And>sv1. at_room c s room sv1 \<Longrightarrow> m sv1 = Some (Inr v, upd_session c f sv1)"
    and "\<And>s0. fr s0 = s\<lparr>s_currentRoom := room\<rparr> \<Longrightarrow>
      fr (f s0) = s'\<lparr>s_currentRoom := room\<rparr> \<and> prefix (outbox s0) (outbox (f s0))"
  shows "safe (Some c) (\<lambda>v' sv. v' = v \<and> at_room c s' room sv) sv (atom m)"
  using assms unfolding at_room_def by (intro safe_update[where f = f])

lemma at_room_read:
  "at_room c s room sv \<Longrightarrow> (\<And>sv1. at_room c s room sv1 \<Longrightarrow> m sv1 = Some (Inr v, sv1)) \<Longrightarrow>
   safe (Some c) (\<lambda>v' sv. v' = v \<and> at_room c s room sv) sv (atom m)"
  unfolding at_room_def by (rule safe_read)

lemma at_room_fields:
  assumes "at_room c s room sv"
  shows "s_stopped (the_session sv c) = s_stopped s" "s_writing (the_session sv c) = s_writing s"
    "s_writeQueue (the_session sv c) = s_writeQueue s"
  using own_fields[OF assms[unfolded at_room_def]] by simp_all

lemma at_room_Pure: "at_room c s room sv \<Longrightarrow> queue_ok s \<Longrightarrow> safe (Some c) (\<lambda>_. home c) sv (Pure a)"
  unfolding at_room_def by (erule safe_Pure) (rule at_room_home, simp_all add: at_room_def)

lemma safe_doReadLine:
  assumes "at_room c s room sv" "queue_ok s"
  shows "safe (Some c) (\<lambda>_. home c) sv (atom (doReadLine c))"
proof (cases "s_stopped s")
  case True
  have "safe (Some c) (\<lambda>v sv. v = () \<and> at_room c s room sv) sv (atom (doReadLine c))"
    using True by (intro at_room_read[OF assms(1)]) (simp add: doReadLine_def at_room_fields)
  then show ?thesis by (rule safe_weaken) (use assms(2) at_room_home in blast)
next
  case False
  have "safe (Some c) (\<lambda>v sv. v = () \<and> at_room c s room sv) sv (atom (doReadLine c))"
    using False by (intro at_room_update[OF assms(1), where f = "\<lambda>s. s\<lparr>s_read := RPending\<rparr>"])
      (simp_all add: doReadLine_def at_room_fields, simp add: outbox_def)
  then show ?thesis by (rule safe_weaken) (use assms(2) at_room_home in blast)
qed

lemma safe_doWrite:
  assumes "at_room c s room sv" "s_writing s = []"
  shows "safe (Some c) (\<lambda>_. home c) sv (atom (doWrite c))"
proof (cases "s_writeQueue s = [] \<or> s_stopped s")
  case True
  then have "safe (Some c) (\<lambda>v sv. v = () \<and> at_room c s room sv) sv (atom (doWrite c))"
    by (intro at_room_read[OF assms(1)]) (auto simp: doWrite_def at_room_fields)
  moreover have "queue_ok s" using True assms(2) by (auto simp: queue_ok_def writes_front_def)
  ultimately show ?thesis using at_room_home by (elim safe_weaken) blast
next
  case False
  let ?f = "\<lambda>s. s\<lparr>s_writing := s_writing s @ [hd (s_writeQueue s)]\<rparr>"
  have "fr (?f s0) = (?f s)\<lparr>s_currentRoom := room\<rparr>" if "fr s0 = s\<lparr>s_currentRoom := room\<rparr>" for s0
  proof -
    have "s_writeQueue s0 = s_writeQueue s" "s_writing s0 = s_writing s"
      using arg_cong[OF that, of s_writeQueue] arg_cong[OF that, of s_writing] by (simp_all add: fr_def)
    then show ?thesis using that by simp
  qed
  then have "safe (Some c) (\<lambda>v sv. v = () \<and> at_room c (?f s) room sv) sv (atom (doWrite c))"
    using False by (intro at_room_update[OF assms(1), where f = ?f])
      (simp_all add: doWrite_def at_room_fields, simp add: outbox_def)
  moreover have "queue_ok (?f s)" using False assms(2) by (cases "s_writeQueue s") (auto simp: queue_ok_def writes_front_def)
  ultimately show ?thesis using at_room_home by (elim safe_weaken) blast
qed

lemma safe_close:
  assumes "at_room c s None sv" "s_stopped s" "writes_front s"
  shows "safe (Some c) (\<lambda>_. home c) sv
    (bindp (atom (modify c (\<lambda>s. s\<lparr>s_open := False\<rparr>))) (\<lambda>_. atom (reg_remove c)))"
proof (rule safe_bindp)
  show "safe (Some c) (\<lambda>v sv. v = () \<and> at_room c (s\<lparr>s_open := False\<rparr>) None sv) sv (atom (modify c (\<lambda>s. s\<lparr>s_open := False\<rparr>)))"
    by (rule at_room_update[OF assms(1), where f = "\<lambda>s. s\<lparr>s_open := False\<rparr>"]) (simp, simp add: outbox_def)
  fix v sv' assume "v = () \<and> at_room c (s\<lparr>s_open := False\<rparr>) None sv'"
  then have "safe (Some c) (\<lambda>_. at_room c (s\<lparr>s_open := False\<rparr>) None) sv' (atom (reg_remove c))"
    unfolding at_room_def by (intro safe_sink(3)) simp
  then show "safe (Some c) (\<lambda>_. home c) sv' (atom (reg_remove c))"
    by (rule safe_weaken) (use assms(2,3) at_room_home in \<open>auto simp: queue_ok_def\<close>)
qed

lemma safe_quit:
  assumes "at_room c s (Some room) sv"
  shows "safe (Some c) (\<lambda>_. at_room c s None) sv (bindp (leaveRoom_prog c room) (\<lambda>res.
       bindp (case res of Inl _ \<Rightarrow> Pure () | Inr out \<Rightarrow> dispatchOutgoing_prog lib out) (\<lambda>_. atom (setCurrentRoom c None))))"
proof (rule safe_bindp[OF safe_leaveRoom[OF assms[unfolded at_room_def]]])
  show "Some room = Some room" by simp
  have M: "(\<lambda>r. Some room = Some r)(room := False) = (\<lambda>r. None = Some r)" by (auto simp: fun_eq_iff)
  fix res :: "OutgoingEvent list expected" and sv1
  assume r: "(\<exists>out. res = Inr out) \<and>
    own c ((\<lambda>r. Some room = Some r)(room := False)) (s\<lparr>s_currentRoom := Some room\<rparr>) {} sv1"
  then obtain out where out: "res = Inr out" by blast
  have own: "own c (\<lambda>r. None = Some r) (s\<lparr>s_currentRoom := Some room\<rparr>) {} sv1" using r M by simp
  have "safe (Some c) (\<lambda>_. at_room c s None) sv1 (bindp (dispatchOutgoing_prog lib out) (\<lambda>_. atom (setCurrentRoom c None)))"
    by (rule safe_bindp[OF safe_dispatch[OF own] safe_move])
  then show "safe (Some c) (\<lambda>_. at_room c s None) sv1
      (bindp (case res of Inl _ \<Rightarrow> Pure () | Inr out \<Rightarrow> dispatchOutgoing_prog lib out) (\<lambda>_. atom (setCurrentRoom c None)))"
    using out by simp
qed

lemma safe_stopImpl:
  assumes at: "at_room c s cur sv" and w: "writes_front s"
  shows "safe (Some c) (\<lambda>_. home c) sv (stopImpl_prog lib c)"
  unfolding stopImpl_prog_def
proof (rule safe_bindp)
  let ?s = "s\<lparr>s_stopped := True\<rparr>"
  show "safe (Some c) (\<lambda>v sv. v = s_stopped s \<and> at_room c ?s cur sv) sv (atom (exchange_stopped c))"
    by (rule at_room_update[OF at, where f = "\<lambda>s. s\<lparr>s_stopped := True\<rparr>"])
      (simp add: exchange_stopped_def at_room_fields, simp add: outbox_def)
  fix was sv1 assume was: "was = s_stopped s \<and> at_room c ?s cur sv1"
  have q: "queue_ok ?s" using w by (simp add: queue_ok_def)
  let ?close = "bindp (atom (modify c (\<lambda>s. s\<lparr>s_open := False\<rparr>))) (\<lambda>_. atom (reg_remove c))"
  let ?quit = "\<lambda>room. bindp (leaveRoom_prog c room) (\<lambda>res.
       bindp (case res of Inl _ \<Rightarrow> Pure () | Inr out \<Rightarrow> dispatchOutgoing_prog lib out) (\<lambda>_. atom (setCurrentRoom c None)))"
  have close: "safe (Some c) (\<lambda>_. home c) sv2 ?close" if "at_room c ?s None sv2" for sv2
    using w by (intro safe_close[OF that]) simp_all
  note quit = safe_quit[of c ?s _ _ lib]
  have "safe (Some c) (\<lambda>_. home c) sv1 (bindp (atom (getCurrentRoom c)) (\<lambda>cur.
      bindp (case cur of None \<Rightarrow> Pure () | Some room \<Rightarrow> ?quit room) (\<lambda>_. ?close)))"
  proof (rule safe_current)
    show "at_room c ?s cur sv1" using was by blast
    fix sv2 assume at2: "at_room c ?s cur sv2"
    show "safe (Some c) (\<lambda>_. home c) sv2 (bindp (case cur of None \<Rightarrow> Pure () | Some room \<Rightarrow> ?quit room) (\<lambda>_. ?close))"
    proof (cases cur)
      case None
      then show ?thesis using at2 close by simp
    next
      case (Some room)
      then show ?thesis using at2 safe_bindp[OF quit close] by simp
    qed
  qed
  then show "safe (Some c) (\<lambda>_. home c) sv1 (if was then Pure () else bindp (atom (getCurrentRoom c)) (\<lambda>cur.
      bindp (case cur of None \<Rightarrow> Pure () | Some room \<Rightarrow> ?quit room) (\<lambda>_. ?close)))"
    using was at_room_Pure[OF _ q] by auto
qed

lemma safe_onReadLine:
  assumes "at_room c s cur sv" "queue_ok s"
  shows "safe (Some c) (\<lambda>_. home c) sv (onReadLine_prog lib now c input)"
proof (cases input)
  case None
  then show ?thesis using safe_stopImpl[OF assms(1), of lib] assms(2) by (simp add: onReadLine_prog_def queue_ok_def)
next
  case (Some line)
  let ?again = "bindp (atom (load_stopped c)) (\<lambda>st. if st then Pure () else atom (doReadLine c))"
  have again: "safe (Some c) (\<lambda>_. home c) sv1 ?again" if at1: "at_room c s room sv1" for sv1 room
  proof (rule safe_bindp)
    show "safe (Some c) (\<lambda>v sv. v = s_stopped s \<and> at_room c s room sv) sv1 (atom (load_stopped c))"
      by (rule at_room_read[OF at1]) (simp add: load_stopped_def at_room_fields)
    show "safe (Some c) (\<lambda>_. home c) sv2 (if st then Pure () else atom (doReadLine c))"
      if "st = s_stopped s \<and> at_room c s room sv2" for st sv2
      using that at_room_Pure safe_doReadLine assms(2) by auto
  qed
  have "safe (Some c) (\<lambda>_. home c) sv (bindp (handleLine_prog lib now c line) (\<lambda>_. ?again))"
    by (rule safe_bindp[OF safe_handleLine[OF assms(1)]]) (use again in blast)
  then show ?thesis using Some by (simp add: onReadLine_prog_def)
qed

lemma safe_onWrite:
  assumes at: "at_room c s cur sv" and "s_writing s = []" and q: "s_writeQueue s = line # rest"
  shows "safe (Some c) (\<lambda>_. home c) sv (onWrite_prog lib c (if ok then Some line else None))"
proof (cases ok)
  case False
  then show ?thesis using safe_stopImpl[OF at, of lib] assms(2) by (simp add: onWrite_prog_def writes_front_def)
next
  case True
  let ?f = "\<lambda>s. s\<lparr>s_writeQueue := rest, s_written := s_written s @ [line]\<rparr>"
  have "safe (Some c) (\<lambda>_. home c) sv (bindp (atom (pop_line c line)) (\<lambda>more. if more then atom (doWrite c) else Pure ()))"
  proof (rule safe_bindp)
    have f: "fr (?f s0) = (?f s)\<lparr>s_currentRoom := cur\<rparr> \<and> prefix (outbox s0) (outbox (?f s0))"
      if "fr s0 = s\<lparr>s_currentRoom := cur\<rparr>" for s0
    proof -
      have "s_writeQueue s0 = line # rest" "s_written s0 = s_written s" using that q by (auto simp: fr_def dest: arg_cong[where f = s_writeQueue] arg_cong[where f = s_written])
      then show ?thesis using that by (simp add: outbox_def)
    qed
    show "safe (Some c) (\<lambda>v sv. v = (rest \<noteq> []) \<and> at_room c (?f s) cur sv) sv (atom (pop_line c line))"
      by (rule at_room_update[OF at, where f = ?f]) (simp add: pop_line_def at_room_fields q, rule f)
    show "safe (Some c) (\<lambda>_. home c) sv2 (if more then atom (doWrite c) else Pure ())"
      if m: "more = (rest \<noteq> []) \<and> at_room c (?f s) cur sv2" for more sv2
    proof (cases "rest = []")
      case True
      then have "queue_ok (?f s)" using assms(2) by (simp add: queue_ok_def writes_front_def)
      then show ?thesis using True m at_room_Pure by auto
    next
      case False
      have "safe (Some c) (\<lambda>_. home c) sv2 (atom (doWrite c))"
        using assms(2) by (intro safe_doWrite[OF conjunct2[OF m]]) simp
      then show ?thesis using False m by simp
    qed
  qed
  then show ?thesis using True by (simp add: onWrite_prog_def)
qed

lemma safe_take_posted:
  assumes "at_room c s cur sv" "queue_ok s"
  shows "safe (Some c) (\<lambda>v sv. (case v of Some (PostLine line, idle) \<Rightarrow> idle = (s_writeQueue s = []) | _ \<Rightarrow> True) \<and>
     own c (\<lambda>r. cur = Some r) ((case v of Some (PostLine line, idle) \<Rightarrow> s\<lparr>s_writeQueue := s_writeQueue s @ [line]\<rparr> | _ \<Rightarrow> s)
       \<lparr>s_currentRoom := cur\<rparr>) {} sv) sv (atom (take_posted c))"
proof (rule safe_own[OF assms(1)[unfolded at_room_def]])
  fix n sv1 assume own: "own c (\<lambda>r. cur = Some r) (s\<lparr>s_currentRoom := cur\<rparr>) {} sv1" and sane: "sane (Suc n) sv1"
  note lv = own_live[OF own] and q = own_fields(4)[OF own] and ses = own_session[OF own]
  have step: "sane n (upd_session c f sv1) \<and> guar (Some c) sv1 (upd_session c f sv1) \<and>
      own c (\<lambda>r. cur = Some r) (fr (f (the_session sv1 c))) {} (upd_session c f sv1)"
    if "prefix (outbox (the_session sv1 c)) (outbox (f (the_session sv1 c)))" for f
    using guar_upd[where f = f, OF lv that] own_upd[OF own, of f] sane_Suc[OF sane] by simp
  show "\<exists>r sv2. take_posted c sv1 = Some (r, sv2) \<and> (\<forall>v. r = Inr v \<longrightarrow> sane n sv2 \<and> guar (Some c) sv1 sv2 \<and>
      own c (\<lambda>r. cur = Some r) ((case v of Some (PostLine line, idle) \<Rightarrow> s\<lparr>s_writeQueue := s_writeQueue s @ [line]\<rparr> | _ \<Rightarrow> s)
       \<lparr>s_currentRoom := cur\<rparr>) {} sv2 \<and>
      (case v of Some (PostLine line, idle) \<Rightarrow> idle = (s_writeQueue s = []) | _ \<Rightarrow> True))"
  proof (cases "s_posted (the_session sv1 c)")
    case Nil
    then show ?thesis using own sane_Suc[OF sane] by (simp add: take_posted_def del: guar.simps)
  next
    case (Cons h hs)
    show ?thesis
    proof (cases h)
      case (PostLine line)
      let ?f = "\<lambda>s. s\<lparr>s_posted := hs, s_writeQueue := s_writeQueue s @ [line]\<rparr>"
      have "fr (?f (the_session sv1 c)) = s\<lparr>s_writeQueue := s_writeQueue s @ [line], s_currentRoom := cur\<rparr>"
        using ses q by simp
      then show ?thesis using step[of ?f] Cons PostLine q by (simp add: take_posted_def outbox_def del: guar.simps)
    qed (use step[of "\<lambda>s. s\<lparr>s_posted := hs\<rparr>"] Cons ses in \<open>simp_all add: take_posted_def outbox_def del: guar.simps\<close>)
  qed
qed

lemma safe_posted_line:
  assumes at: "at_room c (s\<lparr>s_writeQueue := s_writeQueue s @ [line]\<rparr>) cur sv" and q: "queue_ok s"
  shows "safe (Some c) (\<lambda>_. home c) sv (runPosted_prog lib c (PostLine line) (s_writeQueue s = []))"
proof (cases "s_writeQueue s = []")
  case True
  then have "s_writing (s\<lparr>s_writeQueue := s_writeQueue s @ [line]\<rparr>) = []" using q by (auto simp: queue_ok_def writes_front_def)
  then show ?thesis using safe_doWrite[OF at] True by (simp add: runPosted_prog_def)
next
  case False
  then have "queue_ok (s\<lparr>s_writeQueue := s_writeQueue s @ [line]\<rparr>)" using q by (simp add: queue_ok_def writes_front_push)
  then show ?thesis using at_room_Pure[OF at] False by (simp add: runPosted_prog_def)
qed

lemma safe_runPosted:
  assumes "at_room c s cur sv" "queue_ok s"
  shows "safe (Some c) (\<lambda>_. home c) sv (label_prog lib (RunPosted c))"
  unfolding label_prog_def ServerLabel.case
proof (rule safe_bindp[OF safe_take_posted[OF assms]])
  fix v sv1
  assume v: "(case v of Some (PostLine line, idle) \<Rightarrow> idle = (s_writeQueue s = []) | _ \<Rightarrow> True) \<and>
     own c (\<lambda>r. cur = Some r) ((case v of Some (PostLine line, idle) \<Rightarrow> s\<lparr>s_writeQueue := s_writeQueue s @ [line]\<rparr> | _ \<Rightarrow> s)
       \<lparr>s_currentRoom := cur\<rparr>) {} sv1"
  show "safe (Some c) (\<lambda>_. home c) sv1
      (case v of None \<Rightarrow> Pure () | Some (h, wasIdle) \<Rightarrow> runPosted_prog lib c h wasIdle)"
  proof (cases v)
    case None
    then show ?thesis using v at_room_Pure[OF _ assms(2)] by (simp add: at_room_def)
  next
    case (Some hi)
    obtain h idle where hi: "hi = (h, idle)" by (cases hi)
    show ?thesis
    proof (cases h)
      case (PostLine line)
      then have "at_room c (s\<lparr>s_writeQueue := s_writeQueue s @ [line]\<rparr>) cur sv1" "idle = (s_writeQueue s = [])"
        using v Some hi by (simp_all add: at_room_def)
      then show ?thesis using safe_posted_line[OF _ assms(2), of c line cur sv1 lib] Some hi PostLine by simp
    next
      case PostRead
      then have "at_room c s cur sv1" using v Some hi by (simp add: at_room_def)
      then show ?thesis using safe_doReadLine[OF _ assms(2)] Some hi PostRead by (simp add: runPosted_prog_def)
    next
      case PostStop
      then have "at_room c s cur sv1" using v Some hi by (simp add: at_room_def)
      then show ?thesis using safe_stopImpl[of c s cur sv1 lib] assms(2) Some hi PostStop
        by (simp add: runPosted_prog_def queue_ok_def)
    qed
  qed
qed

lemma safe_take_line:
  assumes "at_room c s cur sv"
  shows "safe (Some c) (\<lambda>_. at_room c s cur) sv (atom (take_line c))"
proof -
  let ?f = "\<lambda>s. s\<lparr>s_read := RIdle\<rparr>"
  have "safe (Some c) (\<lambda>v sv. True \<and> own c (\<lambda>r. cur = Some r) (s\<lparr>s_currentRoom := cur\<rparr>) {} sv) sv (atom (take_line c))"
  proof (rule safe_own[OF assms[unfolded at_room_def]])
    fix n sv1 assume own: "own c (\<lambda>r. cur = Some r) (s\<lparr>s_currentRoom := cur\<rparr>) {} sv1" and sane: "sane (Suc n) sv1"
    have "guar (Some c) sv1 (upd_session c ?f sv1)"
      by (rule guar_upd[OF own_live[OF own]]) (simp add: outbox_def)
    moreover have "own c (\<lambda>r. cur = Some r) (s\<lparr>s_currentRoom := cur\<rparr>) {} (upd_session c ?f sv1)"
      using own_upd[OF own, of ?f] own_session[OF own] by simp
    ultimately show "\<exists>r sv2. take_line c sv1 = Some (r, sv2) \<and> (\<forall>v. r = Inr v \<longrightarrow> sane n sv2 \<and> guar (Some c) sv1 sv2 \<and>
        own c (\<lambda>r. cur = Some r) (s\<lparr>s_currentRoom := cur\<rparr>) {} sv2 \<and> True)"
      using own sane_Suc[OF sane] by (simp add: take_line_def del: guar.simps split: ReadOp.splits)
  qed
  then show ?thesis by (simp add: at_room_def)
qed

lemma safe_label:
  assumes en: "enabled sv l" and l: "strand_of l = Some c" and hm: "home c sv"
  shows "safe (Some c) (\<lambda>_. home c) sv (label_prog lib l)"
proof -
  obtain s where at: "at_room c s (s_currentRoom s) sv" and q: "queue_ok s" and s: "fr (the_session sv c) = s"
    using home_at_room[OF hm] by blast
  have idle: "safe (Some c) (\<lambda>v. at_room c s (s_currentRoom s)) sv (atom (modify c (\<lambda>s. s\<lparr>s_read := RIdle\<rparr>)))"
    by (rule safe_weaken[OF at_room_update[OF at, where f = "\<lambda>s. s\<lparr>s_read := RIdle\<rparr>" and s' = s]]) (simp, simp add: outbox_def, simp)
  show ?thesis
  proof (cases l)
    case (OnRead now d)
    then have "label_prog lib l = bindp (atom (take_line c)) (\<lambda>input. case input of
        Some line \<Rightarrow> onReadLine_prog lib now c (Some line) | None \<Rightarrow> Pure ())"
      using l by (simp add: label_prog_def)
    moreover have "safe (Some c) (\<lambda>_. home c) sv' (case input of
        Some line \<Rightarrow> onReadLine_prog lib now c (Some line) | None \<Rightarrow> Pure ())"
      if "at_room c s (s_currentRoom s) sv'" for input sv'
      using safe_onReadLine[OF that q] at_room_Pure[OF that q] by (cases input) simp_all
    then have "safe (Some c) (\<lambda>_. home c) sv (bindp (atom (take_line c)) (\<lambda>input. case input of
        Some line \<Rightarrow> onReadLine_prog lib now c (Some line) | None \<Rightarrow> Pure ()))"
      by (rule safe_bindp[OF safe_take_line[OF at]])
    ultimately show ?thesis by simp
  next
    case (ReadFails d)
    then show ?thesis using l safe_bindp[OF idle safe_onReadLine[OF _ q]] by (simp add: label_prog_def)
  next
    case (WriteEnds d ok)
    then have "s_writing s \<noteq> []" using en l s by (auto simp: enabled_def fr_def)
    then obtain line ws where "s_writing s = line # ws" by (cases "s_writing s") auto
    then obtain rest where w: "s_writing s = [line]" "s_writeQueue s = line # rest"
      using writes_frontD[of s line ws] q by (auto simp: queue_ok_def)
    let ?f = "\<lambda>s. s\<lparr>s_writing := []\<rparr>"
    have "safe (Some c) (\<lambda>v sv. v = Some line \<and> at_room c (?f s) (s_currentRoom s) sv) sv (atom (take_write c))"
      by (rule at_room_update[OF at, where f = ?f]) (simp add: take_write_def at_room_fields w, simp add: outbox_def)
    then have "safe (Some c) (\<lambda>_. home c) sv (bindp (atom (take_write c)) (\<lambda>taken. case taken of
        Some w \<Rightarrow> onWrite_prog lib c (if ok then Some w else None) | None \<Rightarrow> Pure ()))"
      by (rule safe_bindp) (use w safe_onWrite[of c "?f s" _ _ line rest lib ok] in auto)
    then show ?thesis using WriteEnds l by (simp add: label_prog_def)
  next
    case (RunPosted d)
    then show ?thesis using l safe_runPosted[OF at q] by simp
  qed (use l in simp_all)
qed

subsection \<open>The acceptor\<close>

definition ready_acc :: "Server \<Rightarrow> bool" where
  "ready_acc sv \<longleftrightarrow> acc_open (sv_acceptor sv) \<and> acc_pending (sv_acceptor sv)"

lemma safe_acc:
  assumes "I (sv_acceptor sv)"
    and "\<And>n sv1. I (sv_acceptor sv1) \<Longrightarrow> sane (Suc n) sv1 \<Longrightarrow> \<exists>v sv2. m sv1 = Some (Inr v, sv2) \<and>
      sane n sv2 \<and> guar None sv1 sv2 \<and> J (sv_acceptor sv2)"
  shows "safe None (\<lambda>_ sv. J (sv_acceptor sv)) sv (atom m)"
proof (rule safe_atom)
  fix n sv1 assume "rely None sv sv1" "sane (Suc n) sv1"
  then obtain v sv2 where "m sv1 = Some (Inr v, sv2)" "sane n sv2" "guar None sv1 sv2" "J (sv_acceptor sv2)"
    using assms(1) assms(2)[of sv1 n] by auto
  then show "\<exists>r sv2. m sv1 = Some (r, sv2) \<and> (\<forall>v. r = Inr v \<longrightarrow> sane n sv2 \<and> guar None sv1 sv2 \<and>
      (\<forall>sv3. rely None sv2 sv3 \<longrightarrow> J (sv_acceptor sv3)))"
    by (simp del: guar.simps)
qed

lemma guar_quiet:
  assumes "\<And>d. mine d sv' = mine d sv" "sv_core sv' = sv_core sv" "sv_nextClientId sv' = sv_nextClientId sv"
    and "\<And>d. live sv d \<Longrightarrow> prefix (outbox (the_session sv d)) (outbox (the_session sv' d))"
    and "sane (Suc n) sv"
  shows "sane n sv' \<and> guar None sv sv'"
proof -
  have live: "live sv' d = live sv d" for d
    using arg_cong[OF assms(1)[of d], of snd] by (cases "sv_sessions sv d"; cases "sv_sessions sv' d") (simp_all add: mine_def live_def)
  then have "sane n sv'" using sane_Suc[OF assms(5)] assms(2,3) by (simp add: sane_def)
  then show ?thesis using assms live by (auto simp: rooms_kept_def progress_def sane_def)
qed

lemma guar_others:
  assumes "sane (Suc n) sv"
  shows "sane n (sv\<lparr>sv_acceptor := a\<rparr>) \<and> guar None sv (sv\<lparr>sv_acceptor := a\<rparr>)"
    "sane n (sv\<lparr>sv_registry := reg\<rparr>) \<and> guar None sv (sv\<lparr>sv_registry := reg\<rparr>)"
  by (rule guar_quiet[OF _ _ _ _ assms]; simp add: mine_def the_session_def)+

lemma safe_new_client:
  assumes "acc_open (sv_acceptor sv)"
  shows "safe None (\<lambda>_ sv. acc_open (sv_acceptor sv)) sv (atom new_client)"
proof (rule safe_acc[where I = acc_open, OF assms])
  fix n sv1 assume open_acc: "acc_open (sv_acceptor sv1)" and sane: "sane (Suc n) sv1"
  let ?c = "sv_nextClientId sv1"
  define sv2 where "sv2 = sv1\<lparr>sv_nextClientId := ?c + 1, sv_sessions := (sv_sessions sv1)(?c \<mapsto> new_session)\<rparr>"
  have live: "live sv2 d \<longleftrightarrow> d = ?c \<or> live sv1 d" and ses: "the_session sv2 d = (if d = ?c then new_session else the_session sv1 d)" for d
    by (auto simp: live_def the_session_def sv2_def)
  have bound: "unat ?c + 1 < 2 ^ 64" using sane by (simp add: sane_def)
  have old: "d < ?c" if "live sv1 d \<or> in_room (sv_core sv1) room d" for d room
    using that sane by (auto simp: sane_def)
  have less: "d < ?c + 1" if "d = ?c \<or> d < ?c" for d
    using that less_succ[OF bound] less_succ_trans[OF _ bound] by blast
  have f: "sv_core sv2 = sv_core sv1" "sv_nextClientId sv2 = ?c + 1" by (simp_all add: sv2_def)
  have "sane n sv2"
    using sane_Suc[OF sane] sane less old unat_succ[OF bound] by (auto simp: sane_def f live)
  moreover have "guar None sv1 sv2"
  proof -
    have "mine d sv2 = mine d sv1" if "d < ?c" for d using that by (auto simp: mine_def sv2_def)
    moreover have "agree d sv2" if "\<not> d < ?c" "live sv2 d" for d
    proof -
      have "d = ?c" using that live old by blast
      then show ?thesis using old by (auto simp: agree_def ses f new_session_def queue_ok_def writes_front_def)
    qed
    moreover have "progress sv1 sv2" using less[of ?c] by (auto simp: progress_def live ses f)
    ultimately show ?thesis by (simp add: rooms_kept_def f)
  qed
  ultimately show "\<exists>v sv2. new_client sv1 = Some (Inr v, sv2) \<and> sane n sv2 \<and> guar None sv1 sv2 \<and> acc_open (sv_acceptor sv2)"
    using open_acc by (simp add: new_client_def Let_def sv2_def)
qed

lemma safe_onAccept:
  assumes "acc_open (sv_acceptor sv)"
  shows "safe None (\<lambda>_. ready_acc) sv (onAccept_prog ec)"
proof -
  have again: "safe None (\<lambda>_. ready_acc) sv' (atom accept_again)" if "acc_open (sv_acceptor sv')" for sv'
    unfolding ready_acc_def
    by (rule safe_acc[where I = acc_open, OF that]) (use guar_others(1) in \<open>simp add: accept_again_def doAccept_def del: guar.simps\<close>)
  have add: "safe None (\<lambda>_ sv. acc_open (sv_acceptor sv)) sv' (atom (reg_add c))" if "acc_open (sv_acceptor sv')" for sv' c
    by (rule safe_acc[where I = acc_open, OF that])
      (use guar_others(2) in \<open>simp add: reg_add_def del: guar.simps\<close>)
  have start: "safe None (\<lambda>_ sv. acc_open (sv_acceptor sv)) sv' (atom (session_start c))" if "acc_open (sv_acceptor sv')" for sv' c
  proof (rule safe_acc[where I = acc_open, OF that])
    fix n sv1 assume "acc_open (sv_acceptor sv1)" "sane (Suc n) sv1"
    moreover let ?sv = "upd_session c (\<lambda>s. s\<lparr>s_posted := s_posted s @ [PostRead]\<rparr>) sv1"
    have "sane n ?sv \<and> guar None sv1 ?sv" 
      by (rule guar_quiet[OF _ _ _ _ \<open>sane (Suc n) sv1\<close>]) (auto simp: mine_def upd_session_def the_session_def outbox_def split: option.splits)
    ultimately show "\<exists>v sv2. session_start c sv1 = Some (Inr v, sv2) \<and> sane n sv2 \<and> guar None sv1 sv2 \<and> acc_open (sv_acceptor sv2)"
      by (simp add: session_start_def post_def)
  qed
  have "safe None (\<lambda>_ sv. acc_open (sv_acceptor sv)) sv (bindp (atom new_client) (\<lambda>c. bindp (atom (reg_add c)) (\<lambda>_. atom (session_start c))))"
    by (intro safe_bindp[OF safe_new_client[OF assms]] safe_bindp[OF add start])
  moreover have "safe None (\<lambda>_ sv. acc_open (sv_acceptor sv)) sv (Pure ())"
    using assms by (intro safe.pure) simp
  ultimately show ?thesis unfolding onAccept_prog_def by (intro safe_bindp[OF _ again]) simp_all
qed

lemma safe_accept:
  assumes "ready_acc sv" "l = Accept \<or> l = AcceptFails"
  shows "safe None (\<lambda>_. ready_acc) sv (label_prog lib l)"
proof -
  have "safe None (\<lambda>_ sv. acc_open (sv_acceptor sv)) sv (atom accept_done)"
  proof (rule safe_acc[where I = acc_open])
    show "acc_open (sv_acceptor sv)" using assms(1) by (simp add: ready_acc_def)
    fix n sv1 assume "acc_open (sv_acceptor sv1)" "sane (Suc n) sv1"
    then show "\<exists>v sv2. accept_done sv1 = Some (Inr v, sv2) \<and> sane n sv2 \<and> guar None sv1 sv2 \<and> acc_open (sv_acceptor sv2)"
      using guar_others(1)[of n sv1] by (simp add: accept_done_def del: guar.simps)
  qed
  then have "safe None (\<lambda>_. ready_acc) sv (bindp (atom accept_done) (\<lambda>_. onAccept_prog ec))" for ec
    by (rule safe_bindp[OF _ safe_onAccept])
  then show ?thesis using assms(2) by (auto simp: label_prog_def)
qed

end
