(* ===== verification/CS_System.thy ===== *)
theory CS_System
  imports CS_Strands
begin

text \<open>
  All interleavings of the handlers of \<open>CS_Threads\<close>: at most one running program per session, by its
  strand, and one for the acceptor; every other handler may take atomic steps between two of theirs. The number of
  threads is not bounded here, which only adds behaviours.
\<close>

record Sys =
  sys_sv :: Server
  sys_strand :: "ClientId \<rightharpoonup> unit prog"
  sys_acc :: "unit prog option"

inductive sys_step :: "'j JsonLib \<Rightarrow> Sys \<Rightarrow> Sys \<Rightarrow> bool" for lib where
  network: "\<lbrakk>enabled (sys_sv s) l; l = Receive c line \<or> l = StopCall c; run_label lib l (sys_sv s) = Some (Inr (), sv')\<rbrakk> \<Longrightarrow>
    sys_step lib s (s\<lparr>sys_sv := sv'\<rparr>)"
| destroy: "\<lbrakk>enabled (sys_sv s) (Destroy c); sys_strand s c = None; run_label lib (Destroy c) (sys_sv s) = Some (Inr (), sv')\<rbrakk> \<Longrightarrow>
    sys_step lib s (s\<lparr>sys_sv := sv'\<rparr>)"
| call: "\<lbrakk>enabled (sys_sv s) l; strand_of l = Some c; sys_strand s c = None\<rbrakk> \<Longrightarrow>
    sys_step lib s (s\<lparr>sys_strand := (sys_strand s)(c \<mapsto> label_prog lib l)\<rparr>)"
| strand: "\<lbrakk>sys_strand s c = Some (Atom k); k (sys_sv s) = Some (Inr p, sv')\<rbrakk> \<Longrightarrow>
    sys_step lib s (s\<lparr>sys_sv := sv', sys_strand := (sys_strand s)(c \<mapsto> p)\<rparr>)"
| return: "sys_strand s c = Some (Pure ()) \<Longrightarrow> sys_step lib s (s\<lparr>sys_strand := (sys_strand s)(c := None)\<rparr>)"
| accept: "\<lbrakk>enabled (sys_sv s) l; l = Accept \<or> l = AcceptFails; sys_acc s = None\<rbrakk> \<Longrightarrow>
    sys_step lib s (s\<lparr>sys_acc := Some (label_prog lib l)\<rparr>)"
| acceptor: "\<lbrakk>sys_acc s = Some (Atom k); k (sys_sv s) = Some (Inr p, sv')\<rbrakk> \<Longrightarrow>
    sys_step lib s (s\<lparr>sys_sv := sv', sys_acc := Some p\<rparr>)"
| accepted: "sys_acc s = Some (Pure ()) \<Longrightarrow> sys_step lib s (s\<lparr>sys_acc := None\<rparr>)"

definition start_sys :: "ServerCore \<Rightarrow> Sys" where
  "start_sys core = \<lparr>sys_sv = started_server core, sys_strand = Map.empty, sys_acc = None\<rparr>"


text \<open>A handler that is running lets an exception escape.\<close>

definition handler_throws :: "Sys \<Rightarrow> string \<Rightarrow> bool" where
  "handler_throws s e \<longleftrightarrow> (\<exists>k sv'. ((\<exists>c. sys_strand s c = Some (Atom k)) \<or> sys_acc s = Some (Atom k)) \<and>
     k (sys_sv s) = Some (Inl e, sv'))"

inductive_cases sys_stepE: "sys_step lib s s'"

subsection \<open>The invariant\<close>

fun strand_inv :: "ClientId \<Rightarrow> Server \<Rightarrow> unit prog option \<Rightarrow> bool" where
  "strand_inv c sv None \<longleftrightarrow> (live sv c \<longrightarrow> agree c sv)"
| "strand_inv c sv (Some p) \<longleftrightarrow> c < sv_nextClientId sv \<and> safe (Some c) (\<lambda>_. home c) sv p"

fun acc_inv :: "Server \<Rightarrow> unit prog option \<Rightarrow> bool" where
  "acc_inv sv None \<longleftrightarrow> ready_acc sv"
| "acc_inv sv (Some p) \<longleftrightarrow> safe None (\<lambda>_. ready_acc) sv p"

definition sys_ok :: "nat \<Rightarrow> Sys \<Rightarrow> bool" where
  "sys_ok n s \<longleftrightarrow> sane n (sys_sv s) \<and> (\<forall>c. strand_inv c (sys_sv s) (sys_strand s c)) \<and> acc_inv (sys_sv s) (sys_acc s)"

lemma sys_okD:
  assumes "sys_ok n s"
  shows "sane n (sys_sv s)" "sys_strand s c = None \<Longrightarrow> live (sys_sv s) c \<Longrightarrow> agree c (sys_sv s)"
    "sys_strand s c = Some p \<Longrightarrow> c < sv_nextClientId (sys_sv s) \<and> safe (Some c) (\<lambda>_. home c) (sys_sv s) p"
    "sys_acc s = None \<Longrightarrow> ready_acc (sys_sv s)"
    "sys_acc s = Some q \<Longrightarrow> safe None (\<lambda>_. ready_acc) (sys_sv s) q"
  using assms unfolding sys_ok_def by (metis strand_inv.simps acc_inv.simps)+

lemma sys_ok_mono: "sys_ok n s \<Longrightarrow> m \<le> n \<Longrightarrow> sys_ok m s"
  unfolding sys_ok_def using sane_mono by blast

lemma fr_room: "s_currentRoom (fr s) = s_currentRoom s"
  by (simp add: fr_def)

lemma agree_mine:
  assumes "mine c sv' = mine c sv" "live sv c"
  shows "live sv' c" "agree c sv' = agree c sv"
proof -
  obtain s where s: "sv_sessions sv c = Some s" using assms(2) by (auto simp: live_def)
  then obtain s' where s': "sv_sessions sv' c = Some s'" "fr s' = fr s"
    using arg_cong[OF assms(1), of snd] by (auto simp: mine_def)
  then have "s_currentRoom s' = s_currentRoom s" "queue_ok s' = queue_ok s"
    using s'(2) fr_room fr_queue_ok(1) by metis+
  moreover have "in_room (sv_core sv') room c = in_room (sv_core sv) room c" for room
    using fun_cong[OF arg_cong[OF assms(1), of fst]] by (simp add: mine_def)
  ultimately show "live sv' c" "agree c sv' = agree c sv"
    using s s' by (simp_all add: live_def agree_def the_session_def)
qed

lemma safe_step:
  assumes "safe t Q sv (Atom k)" "sane (Suc n) sv" "k sv = Some (Inr p, sv')"
  shows "sane n sv' \<and> guar t sv sv' \<and> safe t Q sv' p"
  using assms(1)
proof (rule safe_AtomE)
  assume "\<And>n sv1. rely t sv sv1 \<Longrightarrow> sane (Suc n) sv1 \<Longrightarrow> \<exists>r sv2. k sv1 = Some (r, sv2) \<and>
     (\<forall>p. r = Inr p \<longrightarrow> sane n sv2 \<and> guar t sv1 sv2 \<and> safe t Q sv2 p)"
  from this[OF rely_refl assms(2)] show ?thesis using assms(3) by auto
qed

lemma safe_defined: "safe t Q sv (Atom k) \<Longrightarrow> sane (Suc n) sv \<Longrightarrow> k sv \<noteq> None"
  by (erule safe_AtomE) (metis option.distinct(1) rely_refl)

text \<open>An action of \<open>t\<close> keeps what the invariant says of the sessions and of the acceptor, \<open>t\<close> excepted.\<close>

lemma others_ok:
  assumes ok: "sys_ok n s" and g: "guar t (sys_sv s) sv'" and d: "t \<noteq> Some d"
  shows "strand_inv d sv' (sys_strand s d)"
proof -
  let ?sv = "sys_sv s"
  have pr: "progress ?sv sv'" "rooms_kept ?sv sv'" using g by (cases t; simp)+
  have mine: "mine d sv' = mine d ?sv" if "d < sv_nextClientId ?sv"
    using that g d by (cases t) simp_all
  show ?thesis
  proof (cases "sys_strand s d")
    case None
    have "agree d sv'" if "live sv' d"
    proof (cases "d < sv_nextClientId ?sv")
      case True
      then have "live ?sv d" using pr(1) that by (auto simp: progress_def)
      then show ?thesis using agree_mine(2)[OF mine[OF True]] sys_okD(2)[OF ok None] by simp
    next
      case False
      then have "\<not> live ?sv d" using sys_okD(1)[OF ok] by (auto simp: sane_def)
      show ?thesis
      proof (cases t)
        case (Some c)
        then have "mine d sv' = mine d ?sv" using g d by simp
        then have "live ?sv d" using agree_mine(1)[of d ?sv sv'] that by simp
        then show ?thesis using \<open>\<not> live ?sv d\<close> by simp
      qed (use g that False in simp)
    qed
    then show ?thesis using None by simp
  next
    case (Some p)
    have "d < sv_nextClientId ?sv" "safe (Some d) (\<lambda>_. home d) ?sv p" using sys_okD(3)[OF ok Some] by blast+
    moreover have "d < sv_nextClientId sv'" using calculation(1) pr(1) by (auto simp: progress_def)
    ultimately show ?thesis using Some safe_stable[of "Some d" _ ?sv p sv'] mine pr(2) by simp
  qed
qed

lemma acceptor_ok:
  assumes "sys_ok n s" "guar (Some c) (sys_sv s) sv'"
  shows "acc_inv sv' (sys_acc s)"
proof (cases "sys_acc s")
  case None
  then show ?thesis using sys_okD(4)[OF assms(1)] assms(2) by (simp add: ready_acc_def)
next
  case (Some p)
  then show ?thesis using sys_okD(5)[OF assms(1) Some] safe_stable[of None _ "sys_sv s" p sv'] assms(2) by simp
qed

lemma quiet_ok:
  assumes ok: "sys_ok (Suc n) s" and "\<And>d. mine d sv' = mine d (sys_sv s)" "sv_core sv' = sv_core (sys_sv s)"
    "sv_nextClientId sv' = sv_nextClientId (sys_sv s)" "sv_acceptor sv' = sv_acceptor (sys_sv s)"
    "\<And>d. live (sys_sv s) d \<Longrightarrow> prefix (outbox (the_session (sys_sv s) d)) (outbox (the_session sv' d))"
  shows "sys_ok n (s\<lparr>sys_sv := sv'\<rparr>) \<and> progress (sys_sv s) sv'"
proof -
  have q: "sane n sv'" "guar None (sys_sv s) sv'"
    using guar_quiet[OF assms(2-4,6) sys_okD(1)[OF ok]] by blast+
  then have "progress (sys_sv s) sv'" "guar (Some c) (sys_sv s) sv'" for c using assms(2,5) by simp_all
  then show ?thesis using q others_ok[OF ok q(2)] acceptor_ok[OF ok] by (simp add: sys_ok_def del: guar.simps)
qed

lemma destroy_ok:
  assumes ok: "sys_ok (Suc n) s" and "sys_strand s c = None"
    and sv': "sv' = (sys_sv s)\<lparr>sv_sessions := (sv_sessions (sys_sv s))(c := None)\<rparr>"
  shows "sys_ok n (s\<lparr>sys_sv := sv'\<rparr>) \<and> progress (sys_sv s) sv'"
proof -
  have live: "live sv' d \<longleftrightarrow> d \<noteq> c \<and> live (sys_sv s) d" and ses: "d \<noteq> c \<Longrightarrow> the_session sv' d = the_session (sys_sv s) d" for d
    by (auto simp: sv' live_def the_session_def)
  have core: "sv_core sv' = sv_core (sys_sv s)" "sv_nextClientId sv' = sv_nextClientId (sys_sv s)" by (simp_all add: sv')
  have pr: "progress (sys_sv s) sv'" by (simp add: progress_def live ses core)
  then have g: "guar (Some c) (sys_sv s) sv'" by (simp add: sv' mine_def rooms_kept_def)
  have "sane n sv'" using sane_Suc[OF sys_okD(1)[OF ok]] by (simp add: sane_def live core)
  moreover have "strand_inv d sv' (sys_strand s d)" for d
    using others_ok[OF ok g, of d] assms(2) live by (cases "d = c") simp_all
  ultimately show ?thesis using pr acceptor_ok[OF ok g] by (simp add: sys_ok_def)
qed

lemma strand_ok:
  assumes ok: "sys_ok (Suc n) s" and "sys_strand s c = Some (Atom k)" "k (sys_sv s) = Some (Inr p, sv')"
  shows "sys_ok n (s\<lparr>sys_sv := sv', sys_strand := (sys_strand s)(c \<mapsto> p)\<rparr>) \<and> progress (sys_sv s) sv'"
proof -
  have s: "safe (Some c) (\<lambda>_. home c) (sys_sv s) (Atom k)" "c < sv_nextClientId (sys_sv s)"
    using sys_okD(3)[OF ok assms(2)] by blast+
  have st: "sane n sv'" "guar (Some c) (sys_sv s) sv'" "safe (Some c) (\<lambda>_. home c) sv' p"
    using safe_step[OF s(1) sys_okD(1)[OF ok] assms(3)] by blast+
  have pr: "progress (sys_sv s) sv'" using st(2) by simp
  then have "c < sv_nextClientId sv'" using s(2) by (auto simp: progress_def)
  then have "strand_inv d sv' (((sys_strand s)(c \<mapsto> p)) d)" for d
    using others_ok[OF ok st(2), of d] st(3) by (cases "d = c") simp_all
  then show ?thesis using st(1) pr acceptor_ok[OF ok st(2)] by (simp add: sys_ok_def)
qed

lemma acceptor_step_ok:
  assumes ok: "sys_ok (Suc n) s" and "sys_acc s = Some (Atom k)" "k (sys_sv s) = Some (Inr p, sv')"
  shows "sys_ok n (s\<lparr>sys_sv := sv', sys_acc := Some p\<rparr>) \<and> progress (sys_sv s) sv'"
proof -
  have st: "sane n sv'" "guar None (sys_sv s) sv'" "safe None (\<lambda>_. ready_acc) sv' p"
    using safe_step[OF sys_okD(5)[OF ok assms(2)] sys_okD(1)[OF ok] assms(3)] by blast+
  moreover have "progress (sys_sv s) sv'" using st(2) by simp
  ultimately show ?thesis using others_ok[OF ok st(2)] by (simp add: sys_ok_def del: guar.simps)
qed

lemma call_ok:
  assumes ok: "sys_ok n s" and "enabled (sys_sv s) l" "strand_of l = Some c" "sys_strand s c = None"
  shows "sys_ok n (s\<lparr>sys_strand := (sys_strand s)(c \<mapsto> label_prog lib l)\<rparr>)"
proof -
  have lv: "live (sys_sv s) c" using assms(2,3) by (cases l) (auto simp: enabled_def)
  then have "home c (sys_sv s)" using sys_okD(2)[OF ok assms(4)] by (simp add: home_def)
  then have "safe (Some c) (\<lambda>_. home c) (sys_sv s) (label_prog lib l)" by (rule safe_label[OF assms(2,3)])
  moreover have "c < sv_nextClientId (sys_sv s)" using sys_okD(1)[OF ok] lv by (simp add: sane_def)
  ultimately show ?thesis using ok by (simp add: sys_ok_def)
qed

lemma return_ok:
  assumes ok: "sys_ok n s" and "sys_strand s c = Some (Pure ())"
  shows "sys_ok n (s\<lparr>sys_strand := (sys_strand s)(c := None)\<rparr>)"
proof -
  have "home c (sys_sv s)" using conjunct2[OF sys_okD(3)[OF ok assms(2)]] by (rule safe_PureE) simp
  then show ?thesis using ok by (simp add: sys_ok_def home_def)
qed

lemma accept_ok:
  assumes ok: "sys_ok n s" and "sys_acc s = None" "l = Accept \<or> l = AcceptFails"
  shows "sys_ok n (s\<lparr>sys_acc := Some (label_prog lib l)\<rparr>)"
  using ok safe_accept[OF sys_okD(4)[OF ok assms(2)] assms(3)] by (simp add: sys_ok_def)

lemma accepted_ok:
  assumes ok: "sys_ok n s" and "sys_acc s = Some (Pure ())"
  shows "sys_ok n (s\<lparr>sys_acc := None\<rparr>)"
proof -
  have "ready_acc (sys_sv s)" using sys_okD(5)[OF ok assms(2)] by (rule safe_PureE) simp
  then show ?thesis using ok by (simp add: sys_ok_def)
qed

lemma network_ok:
  assumes ok: "sys_ok (Suc n) s" and l: "l = Receive c line \<or> l = StopCall c"
    and run: "run_label lib l (sys_sv s) = Some (Inr (), sv')"
  shows "sys_ok n (s\<lparr>sys_sv := sv'\<rparr>) \<and> progress (sys_sv s) sv'"
proof (rule quiet_ok[OF ok])
  obtain f where sv': "sv' = upd_session c f (sys_sv s)" and f: "\<And>s. fr (f s) = fr s" "\<And>s. outbox (f s) = outbox s"
  proof -
    have "\<exists>f. sv' = upd_session c f (sys_sv s) \<and> (\<forall>s. fr (f s) = fr s) \<and> (\<forall>s. outbox (f s) = outbox s)"
      using l
    proof
      assume "l = Receive c line"
      then show ?thesis using run
        by (intro exI[of _ "\<lambda>s. s\<lparr>s_read := RReady line\<rparr>"]) (simp add: run_label_def outbox_def)
    next
      assume "l = StopCall c"
      then show ?thesis using run
        by (intro exI[of _ "\<lambda>s. s\<lparr>s_posted := s_posted s @ [PostStop]\<rparr>"])
          (simp add: run_label_def session_stop_def post_def outbox_def)
    qed
    then show thesis using that by blast
  qed
  show "mine d sv' = mine d (sys_sv s)" for d
    by (cases "sv_sessions (sys_sv s) c") (simp_all add: sv' mine_def upd_session_def f)
  show "prefix (outbox (the_session (sys_sv s) d)) (outbox (the_session sv' d))" if "live (sys_sv s) d" for d
    using that by (cases "d = c") (simp_all add: sv' f)
  show "sv_core sv' = sv_core (sys_sv s)" "sv_nextClientId sv' = sv_nextClientId (sys_sv s)"
    "sv_acceptor sv' = sv_acceptor (sys_sv s)" by (simp_all add: sv')
qed

lemma sys_ok_step:
  assumes ok: "sys_ok (Suc n) s" and "sys_step lib s s'"
  shows "sys_ok n s' \<and> progress (sys_sv s) (sys_sv s')"
proof -
  have ok': "sys_ok n s" using sys_ok_mono[OF ok] by simp
  have same: "progress sv sv" for sv by (simp add: progress_def)
  show ?thesis using assms(2)
  proof cases
    case (destroy c sv')
    then show ?thesis using destroy_ok[OF ok destroy(3), of sv'] by (simp add: run_label_def)
  qed (use network_ok[OF ok] strand_ok[OF ok] acceptor_step_ok[OF ok] call_ok[OF ok'] return_ok[OF ok'] accept_ok[OF ok']
      accepted_ok[OF ok'] same in simp_all)
qed

lemma start_sys_ok:
  assumes "2 * n + 3 < 2 ^ 64"
  shows "sys_ok n (start_sys (new_core sink))"
  using started_server_inv(1)[OF assms, of sink]
  by (simp add: sys_ok_def start_sys_def sane_def members_inv_def ready_acc_def started_server_def live_def)

lemma sys_run_ok:
  assumes "(sys_step lib ^^ m) s s'" "sys_ok (m + n) s"
  shows "sys_ok n s' \<and> progress (sys_sv s) (sys_sv s')"
  using assms
proof (induction m arbitrary: s' n)
  case 0
  then show ?case by (simp add: progress_def)
next
  case (Suc m)
  then obtain s1 where s1: "(sys_step lib ^^ m) s s1" "sys_step lib s1 s'" by auto
  then have "sys_ok (Suc n) s1" "progress (sys_sv s) (sys_sv s1)" using Suc.IH[of s1 "Suc n"] Suc.prems(2) by simp_all
  then show ?case using sys_ok_step[OF _ s1(2), of n] progress_trans by blast
qed

subsection \<open>Every interleaving\<close>

text \<open>
  C7: Sessions and rooms agree under every interleaving of the server's threads. Whenever a session's
  strand is idle, its \<^verbatim>\<open>currentRoom_\<close> is exactly the room that has its client as a member, and a session that
  is not stopped and has lines queued has a write outstanding, whose line is at the head of the queue. No
  atomic step that a running handler takes next has undefined behaviour (a room that is gone, an index outside
  the stroke vector, \<^verbatim>\<open>pop_front\<close> on an empty queue).
\<close>

theorem threads_consistent:
  assumes "(sys_step lib ^^ m) (start_sys (new_core sink)) s" "2 * m + 5 < 2 ^ 64"
  shows "(\<forall>c room. sys_strand s c = None \<and> live (sys_sv s) c \<longrightarrow>
       in_room (sv_core (sys_sv s)) room c = (s_currentRoom (the_session (sys_sv s) c) = Some room)) \<and>
    (\<forall>c. sys_strand s c = None \<and> live (sys_sv s) c \<longrightarrow> queue_ok (the_session (sys_sv s) c)) \<and>
    (\<forall>k. (\<exists>c. sys_strand s c = Some (Atom k)) \<or> sys_acc s = Some (Atom k) \<longrightarrow> k (sys_sv s) \<noteq> None)"
proof -
  have ok: "sys_ok (Suc 0) s"
    using sys_run_ok[OF assms(1), of "Suc 0"] start_sys_ok[of "m + Suc 0" sink] assms(2) by simp
  have "k (sys_sv s) \<noteq> None" if "(\<exists>c. sys_strand s c = Some (Atom k)) \<or> sys_acc s = Some (Atom k)" for k
    using that
  proof
    assume "\<exists>c. sys_strand s c = Some (Atom k)"
    then obtain c where "sys_strand s c = Some (Atom k)" by blast
    then show ?thesis using sys_okD(3)[OF ok] safe_defined sys_okD(1)[OF ok] by blast
  next
    assume "sys_acc s = Some (Atom k)"
    then show ?thesis using sys_okD(5)[OF ok] safe_defined sys_okD(1)[OF ok] by blast
  qed
  then show ?thesis using sys_okD(2)[OF ok] by (simp add: agree_def)
qed

text \<open>
  C12: Messages to a client are neither lost, reordered nor repeated, whatever the threads do: the lines
  already sent, queued and posted to a session are at any later time the first lines of that session,
  in this order. A line counts as sent when the \<^verbatim>\<open>async_write\<close> it was handed to has completed, so a second write of a line that
  is still being written would send it twice and break the claim.
\<close>

theorem threads_keep_order:
  assumes "(sys_step lib ^^ m) (start_sys (new_core sink)) s" "(sys_step lib ^^ m') s s'"
    and "2 * (m + m') + 3 < 2 ^ 64" "live (sys_sv s) c" "live (sys_sv s') c"
  shows "prefix (s_written (the_session (sys_sv s) c) @ s_writeQueue (the_session (sys_sv s) c) @
      concat (map posted_line (s_posted (the_session (sys_sv s) c)))) (outbox (the_session (sys_sv s') c))"
proof -
  have "sys_ok m' s" using sys_run_ok[OF assms(1), of m'] start_sys_ok[OF assms(3)] by simp
  then have "progress (sys_sv s) (sys_sv s')" "c < sv_nextClientId (sys_sv s)"
    using sys_run_ok[OF assms(2), of 0] sys_okD(1)[of m' s] assms(4) by (auto simp: sane_def)
  then show ?thesis using assms(5) by (simp add: progress_def outbox_def)
qed

text \<open>An accept is always outstanding or being handled, and no step is ever stuck.\<close>

lemma sys_run_accepts:
  assumes "(sys_step lib ^^ m) (start_sys (new_core sink)) s" "2 * m + 3 < 2 ^ 64"
  shows "acc_pending (sv_acceptor (sys_sv s)) \<or> sys_acc s \<noteq> None"
  using sys_run_ok[OF assms(1), of 0] start_sys_ok[OF assms(2), of sink] sys_okD(4)[of 0 s] by (auto simp: ready_acc_def)

lemma sys_run_goes_on:
  assumes "(sys_step lib ^^ m) (start_sys (new_core sink)) s" "2 * m + 5 < 2 ^ 64"
  shows "(\<exists>s'. sys_step lib s s') \<or> (\<exists>e. handler_throws s e)"
proof -
  have ok: "sys_ok (Suc 0) s"
    using sys_run_ok[OF assms(1), of "Suc 0"] start_sys_ok[of "m + Suc 0" sink] assms(2) by simp
  show ?thesis
  proof (cases "sys_acc s")
    case None
    then have "acc_pending (sv_acceptor (sys_sv s))" using sys_okD(4)[OF ok] by (simp add: ready_acc_def)
    then show ?thesis using sys_step.accept[of s Accept lib] None by (auto simp: enabled_def)
  next
    case (Some p)
    show ?thesis
    proof (cases p)
      case (Pure u)
      then show ?thesis using sys_step.accepted[of s lib] Some by auto
    next
      case (Atom k)
      then have "k (sys_sv s) \<noteq> None" using sys_okD(5)[OF ok Some] safe_defined sys_okD(1)[OF ok] by blast
      then obtain r sv' where k: "k (sys_sv s) = Some (r, sv')" by auto
      show ?thesis
      proof (cases r)
        case (Inl e)
        then show ?thesis using k Some Atom by (auto simp: handler_throws_def)
      next
        case (Inr q)
        then show ?thesis using sys_step.acceptor[of s k q sv' lib] k Some Atom by auto
      qed
    qed
  qed
qed

subsection \<open>Uninterrupted handlers\<close>

definition idle_sys :: "Server \<Rightarrow> Sys" where
  "idle_sys sv = \<lparr>sys_sv = sv, sys_strand = Map.empty, sys_acc = None\<rparr>"

lemma exec_runs:
  assumes step: "\<And>k sv q sv1. k sv = Some (Inr q, sv1) \<Longrightarrow> R (cfg sv (Atom k)) (cfg sv1 q)"
    and "exec p sv = Some (Inr a, sv')"
  shows "R\<^sup>*\<^sup>* (cfg sv p) (cfg sv' (Pure a))"
  using assms(2)
proof (induction p arbitrary: sv)
  case (Atom k)
  obtain r sv1 where r: "k sv = Some (r, sv1)" using Atom.prems by (cases "k sv") auto
  obtain q where q: "r = Inr q" using Atom.prems r by (cases r) auto
  have "R\<^sup>*\<^sup>* (cfg sv1 q) (cfg sv' (Pure a))"
    using Atom.IH[of "Some (r, sv1)" "(r, sv1)" r q sv1] r q rangeI[of k sv] Atom.prems by simp
  then show ?case using step[of k sv q sv1] r q by (simp add: converse_rtranclp_into_rtranclp)
qed simp

lemma strand_runs:
  assumes "exec p sv = Some (Inr a, sv')"
  shows "(sys_step lib)\<^sup>*\<^sup>* \<lparr>sys_sv = sv, sys_strand = strands(c \<mapsto> p), sys_acc = acc\<rparr>
    \<lparr>sys_sv = sv', sys_strand = strands(c \<mapsto> Pure a), sys_acc = acc\<rparr>"
proof (rule exec_runs[where cfg = "\<lambda>sv p. \<lparr>sys_sv = sv, sys_strand = strands(c \<mapsto> p), sys_acc = acc\<rparr>", OF _ assms])
  fix k :: "Server \<Rightarrow> (unit prog thrown \<times> Server) option" and sv q sv1 assume "k sv = Some (Inr q, sv1)"
  then show "sys_step lib \<lparr>sys_sv = sv, sys_strand = strands(c \<mapsto> Atom k), sys_acc = acc\<rparr>
      \<lparr>sys_sv = sv1, sys_strand = strands(c \<mapsto> q), sys_acc = acc\<rparr>"
    using sys_step.strand[of "\<lparr>sys_sv = sv, sys_strand = strands(c \<mapsto> Atom k), sys_acc = acc\<rparr>" c k q sv1 lib] by simp
qed

lemma acceptor_runs:
  assumes "exec p sv = Some (Inr a, sv')"
  shows "(sys_step lib)\<^sup>*\<^sup>* \<lparr>sys_sv = sv, sys_strand = strands, sys_acc = Some p\<rparr>
    \<lparr>sys_sv = sv', sys_strand = strands, sys_acc = Some (Pure a)\<rparr>"
proof (rule exec_runs[where cfg = "\<lambda>sv p. \<lparr>sys_sv = sv, sys_strand = strands, sys_acc = Some p\<rparr>", OF _ assms])
  fix k :: "Server \<Rightarrow> (unit prog thrown \<times> Server) option" and sv q sv1 assume "k sv = Some (Inr q, sv1)"
  then show "sys_step lib \<lparr>sys_sv = sv, sys_strand = strands, sys_acc = Some (Atom k)\<rparr>
      \<lparr>sys_sv = sv1, sys_strand = strands, sys_acc = Some q\<rparr>"
    using sys_step.acceptor[of "\<lparr>sys_sv = sv, sys_strand = strands, sys_acc = Some (Atom k)\<rparr>" k q sv1 lib] by simp
qed

lemma label_runs:
  assumes en: "enabled sv l" and run: "run_label lib l sv = Some (Inr (), sv')"
  shows "(sys_step lib)\<^sup>*\<^sup>* (idle_sys sv) (idle_sys sv')"
proof -
  have ex: "exec (label_prog lib l) sv = Some (Inr (), sv')" using run by (simp add: label_exec)
  have strand: ?thesis if c: "strand_of l = Some c" for c
  proof -
    have "sys_step lib (idle_sys sv) \<lparr>sys_sv = sv, sys_strand = Map.empty(c \<mapsto> label_prog lib l), sys_acc = None\<rparr>"
      using sys_step.call[of "idle_sys sv" l c lib] en c by (simp add: idle_sys_def)
    moreover have "sys_step lib \<lparr>sys_sv = sv', sys_strand = Map.empty(c \<mapsto> Pure ()), sys_acc = None\<rparr> (idle_sys sv')"
      using sys_step.return[of "\<lparr>sys_sv = sv', sys_strand = Map.empty(c \<mapsto> Pure ()), sys_acc = None\<rparr>" c lib]
      by (simp add: idle_sys_def)
    ultimately show ?thesis
      by (rule converse_rtranclp_into_rtranclp[OF _ rtranclp.rtrancl_into_rtrancl[OF strand_runs[OF ex]]])
  qed
  have acc: ?thesis if l: "l = Accept \<or> l = AcceptFails"
  proof -
    have "sys_step lib (idle_sys sv) \<lparr>sys_sv = sv, sys_strand = Map.empty, sys_acc = Some (label_prog lib l)\<rparr>"
      using sys_step.accept[of "idle_sys sv" l lib] en l by (simp add: idle_sys_def)
    moreover have "sys_step lib \<lparr>sys_sv = sv', sys_strand = Map.empty, sys_acc = Some (Pure ())\<rparr> (idle_sys sv')"
      using sys_step.accepted[of "\<lparr>sys_sv = sv', sys_strand = Map.empty, sys_acc = Some (Pure ())\<rparr>" lib]
      by (simp add: idle_sys_def)
    ultimately show ?thesis
      by (rule converse_rtranclp_into_rtranclp[OF _ rtranclp.rtrancl_into_rtrancl[OF acceptor_runs[OF ex]]])
  qed
  have net: ?thesis if l: "l = Receive c line \<or> l = StopCall c" for c line
    using sys_step.network[of "idle_sys sv" l c line lib sv'] en run l by (auto simp: idle_sys_def)
  have dtor: ?thesis if l: "l = Destroy c" for c
    using sys_step.destroy[of "idle_sys sv" c lib sv'] en run l by (auto simp: idle_sys_def)
  show ?thesis using strand acc net dtor by (cases l) auto
qed

lemma server_run_interleaves:
  assumes "server_run lib sv0 tr sv"
  shows "(sys_step lib)\<^sup>*\<^sup>* (idle_sys sv0) (idle_sys sv)"
  using assms
proof (induction rule: server_run.induct)
  case (step tr sv l sv')
  then show ?case using label_runs[of sv l lib sv'] by simp
qed simp

text \<open>What the server does with whole handlers as single steps it can do on its threads.\<close>

lemma run_labels_interleave:
  assumes "run_labels lib tr (started_server core) = Some sv"
  shows "(sys_step lib)\<^sup>*\<^sup>* (start_sys core) \<lparr>sys_sv = sv, sys_strand = Map.empty, sys_acc = None\<rparr>"
  using server_run_interleaves[OF run_labels_run[OF assms]] by (simp add: idle_sys_def start_sys_def)

subsection \<open>Schedules\<close>

text \<open>An interleaving is fixed by what begins and by which strand, or the acceptor, takes the next step.\<close>

datatype Choice = Begin ServerLabel | Go ClientId | GoAcceptor

fun step_prog :: "unit prog \<Rightarrow> Server \<Rightarrow> (unit prog option \<times> Server) option" where
  "step_prog (Pure u) sv = Some (None, sv)"
| "step_prog (Atom k) sv = (case k sv of Some (Inr p, sv') \<Rightarrow> Some (Some p, sv') | _ \<Rightarrow> None)"

definition begin_label :: "'j JsonLib \<Rightarrow> ServerLabel \<Rightarrow> Sys \<Rightarrow> Sys option" where
  "begin_label lib l s =
     (if \<not> enabled (sys_sv s) l then None
      else case strand_of l of
        Some c \<Rightarrow> if sys_strand s c = None then Some (s\<lparr>sys_strand := (sys_strand s)(c \<mapsto> label_prog lib l)\<rparr>) else None
      | None \<Rightarrow> (case l of
          Accept \<Rightarrow> if sys_acc s = None then Some (s\<lparr>sys_acc := Some (label_prog lib l)\<rparr>) else None
        | AcceptFails \<Rightarrow> if sys_acc s = None then Some (s\<lparr>sys_acc := Some (label_prog lib l)\<rparr>) else None
        | Destroy c \<Rightarrow> (case (sys_strand s c, run_label lib l (sys_sv s)) of
            (None, Some (Inr _, sv')) \<Rightarrow> Some (s\<lparr>sys_sv := sv'\<rparr>) | _ \<Rightarrow> None)
        | _ \<Rightarrow> (case run_label lib l (sys_sv s) of Some (Inr _, sv') \<Rightarrow> Some (s\<lparr>sys_sv := sv'\<rparr>) | _ \<Rightarrow> None)))"

fun take_choice :: "'j JsonLib \<Rightarrow> Choice \<Rightarrow> Sys \<Rightarrow> Sys option" where
  "take_choice lib (Begin l) s = begin_label lib l s"
| "take_choice lib (Go c) s = (case sys_strand s c of
     None \<Rightarrow> None
   | Some p \<Rightarrow> map_option (\<lambda>(p', sv'). s\<lparr>sys_sv := sv', sys_strand := (sys_strand s)(c := p')\<rparr>) (step_prog p (sys_sv s)))"
| "take_choice lib GoAcceptor s = (case sys_acc s of
     None \<Rightarrow> None
   | Some p \<Rightarrow> map_option (\<lambda>(p', sv'). s\<lparr>sys_sv := sv', sys_acc := p'\<rparr>) (step_prog p (sys_sv s)))"

fun run_choices :: "'j JsonLib \<Rightarrow> Choice list \<Rightarrow> Sys \<Rightarrow> Sys option" where
  "run_choices lib [] s = Some s"
| "run_choices lib (ch # chs) s = (case take_choice lib ch s of None \<Rightarrow> None | Some s' \<Rightarrow> run_choices lib chs s')"

lemma begin_step: "begin_label lib l s = Some s' \<Longrightarrow> sys_step lib s s'"
  by (cases l) (auto simp: begin_label_def split: if_splits option.splits prod.splits sum.splits
      intro: sys_step.intros)

lemma step_prog_cases:
  assumes "step_prog p sv = Some (p', sv')"
  obtains "p = Pure ()" "p' = None" "sv' = sv" | k q where "p = Atom k" "k sv = Some (Inr q, sv')" "p' = Some q"
  using assms by (cases p) (auto split: option.splits prod.splits sum.splits)

lemma take_choice_step: "take_choice lib ch s = Some s' \<Longrightarrow> sys_step lib s s'"
proof (cases ch)
  case (Go c)
  assume "take_choice lib ch s = Some s'"
  then obtain p p' sv' where p: "sys_strand s c = Some p" "step_prog p (sys_sv s) = Some (p', sv')"
    and s': "s' = s\<lparr>sys_sv := sv', sys_strand := (sys_strand s)(c := p')\<rparr>"
    using Go by (auto split: option.splits)
  from p(2) show ?thesis
    by (rule step_prog_cases) (use p s' sys_step.return[of s c lib] sys_step.strand[of s c] in auto)
next
  case GoAcceptor
  assume "take_choice lib ch s = Some s'"
  then obtain p p' sv' where p: "sys_acc s = Some p" "step_prog p (sys_sv s) = Some (p', sv')"
    and s': "s' = s\<lparr>sys_sv := sv', sys_acc := p'\<rparr>"
    using GoAcceptor by (auto split: option.splits)
  from p(2) show ?thesis
    by (rule step_prog_cases) (use p s' sys_step.accepted[of s lib] sys_step.acceptor[of s] in auto)
qed (simp add: begin_step)

lemma run_choices_steps: "run_choices lib chs s = Some s' \<Longrightarrow> (sys_step lib ^^ length chs) s s'"
proof (induction chs arbitrary: s)
  case (Cons ch chs)
  then obtain s1 where "take_choice lib ch s = Some s1" "run_choices lib chs s1 = Some s'" by (auto split: option.splits)
  then show ?case using relpowp_Suc_I2[OF take_choice_step Cons.IH] by simp
qed simp

lemmas prog_eval = server_eval start_sys_def begin_label_def label_prog_def atom_def take_posted_def runPosted_prog_def
  onAccept_prog_def new_client_def accept_again_def take_line_def onReadLine_prog_def handleLine_prog_def
  handleMessage_prog_def load_stopped_def

definition meanwhile :: "string \<Rightarrow> Choice list" where
  "meanwhile line = [Begin Accept, GoAcceptor, GoAcceptor, GoAcceptor, GoAcceptor, GoAcceptor, GoAcceptor, Begin (RunPosted 1), Go 1, Go 1, Go 1,
     Begin (Receive 1 line), Begin (OnRead 0 1), Go 1, Begin Accept, GoAcceptor, Go 1, GoAcceptor, Go 1]"

lemma meanwhile_run:
  assumes "parseClientMessage lib line = Inr CreateRoomRequest" "CHR 0x0A \<notin> set line"
    "\<And>m. serializeServerMessage lib m = Inr (ser m)"
  shows "\<exists>s k. run_choices lib (meanwhile line) (start_sys (new_core sink)) = Some s \<and>
    sys_strand s 1 = Some (Atom k) \<and> sys_strand s 2 = None \<and> live (sys_sv s) 2 \<and> sys_acc s \<noteq> None \<and>
    live (sys_sv s) 1 \<and> room_exists (sv_core (sys_sv s)) 1 \<and> length (outbox (the_session (sys_sv s) 1)) = 1 \<and>
    s_currentRoom (the_session (sys_sv s) 2) = None"
  using assms by (simp add: meanwhile_def prog_eval outbox_def room_exists_def)

lemma run_choices_count: "run_choices lib chs s = Some s' \<Longrightarrow> length chs = n \<Longrightarrow> (sys_step lib ^^ n) s s'"
  using run_choices_steps by blast

lemma plain_meanwhile:
  obtains line s k where "run_choices plain_json (meanwhile line) (start_sys (new_core True)) = Some s"
    "(sys_step plain_json ^^ 19) (start_sys (new_core True)) s"
    "sys_strand s 1 = Some (Atom k)" "sys_strand s 2 = None" "live (sys_sv s) 2" "sys_acc s \<noteq> None"
    "live (sys_sv s) 1" "length (outbox (the_session (sys_sv s) 1)) = 1"
    "s_currentRoom (the_session (sys_sv s) 2) = None"
proof -
  obtain line where line: "CHR 0x0A \<notin> set line" "parseClientMessage plain_json line = Inr CreateRoomRequest"
    by (rule plain_request[of CreateRoomRequest]) simp_all
  obtain ser where ser: "\<And>m. serializeServerMessage plain_json m = Inr (ser m)" using plain_serialize by blast
  obtain s k where s: "run_choices plain_json (meanwhile line) (start_sys (new_core True)) = Some s"
    "sys_strand s 1 = Some (Atom k)" "sys_strand s 2 = None" "live (sys_sv s) 2" "sys_acc s \<noteq> None"
    "live (sys_sv s) 1" "length (outbox (the_session (sys_sv s) 1)) = 1"
    "s_currentRoom (the_session (sys_sv s) 2) = None"
    using meanwhile_run[OF line(2,1) ser, of True] by blast
  have "(sys_step plain_json ^^ 19) (start_sys (new_core True)) s"
    by (rule run_choices_count[OF s(1)]) (simp add: meanwhile_def)
  then show thesis using that s by blast
qed

theorem threads_consistent_witness:
  "\<exists>s k. (sys_step plain_json ^^ 19) (start_sys (new_core True)) s \<and> sys_strand s 1 = Some (Atom k) \<and>
     k (sys_sv s) \<noteq> None \<and> live (sys_sv s) 2 \<and> \<not> in_room (sv_core (sys_sv s)) 1 2 \<and> queue_ok (the_session (sys_sv s) 2)"
proof -
  obtain line s k where s: "run_choices plain_json (meanwhile line) (start_sys (new_core True)) = Some s"
    "(sys_step plain_json ^^ 19) (start_sys (new_core True)) s"
    "sys_strand s 1 = Some (Atom k)" "sys_strand s 2 = None" "live (sys_sv s) 2" "sys_acc s \<noteq> None"
    "live (sys_sv s) 1" "length (outbox (the_session (sys_sv s) 1)) = 1"
    "s_currentRoom (the_session (sys_sv s) 2) = None"
    by (rule plain_meanwhile)
  have "k (sys_sv s) \<noteq> None" "in_room (sv_core (sys_sv s)) 1 2 = (s_currentRoom (the_session (sys_sv s) 2) = Some 1)"
    "queue_ok (the_session (sys_sv s) 2)"
    using threads_consistent[OF s(2)] s(3-5) by auto
  with s(2,3,5,9) show ?thesis by auto
qed

lemma meanwhile_goes_on:
  assumes "parseClientMessage lib line = Inr CreateRoomRequest" "CHR 0x0A \<notin> set line"
    "\<And>m. serializeServerMessage lib m = Inr (ser m)"
    "run_choices lib (meanwhile line) (start_sys (new_core sink)) = Some s"
  shows "\<exists>s'. run_choices lib [Go 1, Go 1, Go 1, Begin (RunPosted 1), Go 1, Go 1, Go 1, Begin (WriteEnds 1 True), Go 1, Go 1] s = Some s' \<and>
    live (sys_sv s') 1 \<and> length (s_written (the_session (sys_sv s') 1)) = 1"
  using assms by (auto simp: meanwhile_def prog_eval onWrite_prog_def pop_line_def take_write_def)

theorem threads_keep_order_witness:
  "\<exists>s s'. (sys_step plain_json ^^ 19) (start_sys (new_core True)) s \<and> (sys_step plain_json ^^ 10) s s' \<and>
     length (outbox (the_session (sys_sv s) 1)) = 1 \<and> length (s_written (the_session (sys_sv s') 1)) = 1 \<and>
     prefix (outbox (the_session (sys_sv s) 1)) (outbox (the_session (sys_sv s') 1))"
proof -
  obtain line where line: "CHR 0x0A \<notin> set line" "parseClientMessage plain_json line = Inr CreateRoomRequest"
    by (rule plain_request[of CreateRoomRequest]) simp_all
  obtain ser where ser: "\<And>m. serializeServerMessage plain_json m = Inr (ser m)" using plain_serialize by blast
  obtain s where s: "run_choices plain_json (meanwhile line) (start_sys (new_core True)) = Some s"
    "live (sys_sv s) 1" "length (outbox (the_session (sys_sv s) 1)) = 1"
    using meanwhile_run[OF line(2,1) ser, of True] by blast
  obtain s' where s': "run_choices plain_json [Go 1, Go 1, Go 1, Begin (RunPosted 1), Go 1, Go 1, Go 1, Begin (WriteEnds 1 True), Go 1, Go 1] s = Some s'"
    "live (sys_sv s') 1" "length (s_written (the_session (sys_sv s') 1)) = 1"
    using meanwhile_goes_on[OF line(2,1) ser s(1)] by blast
  have run: "(sys_step plain_json ^^ 19) (start_sys (new_core True)) s" "(sys_step plain_json ^^ 10) s s'"
    by (rule run_choices_count[OF s(1)], simp add: meanwhile_def, rule run_choices_count[OF s'(1)], simp)
  then have "prefix (outbox (the_session (sys_sv s) 1)) (outbox (the_session (sys_sv s') 1))"
    using threads_keep_order[OF run _ s(2) s'(2)] by (simp add: outbox_def)
  then show ?thesis using run s(3) s'(3) by blast
qed

end
