(* ===== verification/CS_Process.thy ===== *)
theory CS_Process
  imports CS_App CS_System
begin

text \<open>
  The life of the process, the rest of \<^verbatim>\<open>main.cpp\<close>: the worker threads are created one by one, each runs
  \<^verbatim>\<open>ioContext.run()\<close>, and \<^verbatim>\<open>main\<close> joins them. \<^verbatim>\<open>run()\<close> returns when the context has no work left. An
  exception that leaves a handler leaves \<^verbatim>\<open>run()\<close> and the thread's function, and one that leaves \<^verbatim>\<open>main\<close>'s
  loop destroys the threads created so far without joining them; both call \<^verbatim>\<open>std::terminate\<close>.
\<close>

datatype Process = Running Sys | Exited string int | Terminated

fun spawn_workers :: "(nat \<Rightarrow> unit thrown) \<Rightarrow> nat \<Rightarrow> nat \<Rightarrow> (nat \<times> string) + unit" where
  "spawn_workers mk i 0 = Inr ()"
| "spawn_workers mk i (Suc n) = (case mk i of Inl what \<Rightarrow> Inl (i, what) | Inr _ \<Rightarrow> spawn_workers mk (Suc i) n)"

definition main_process :: "Machine \<Rightarrow> string list \<Rightarrow> Process" where
  "main_process mc argv =
     (case main_app mc argv of
        Inl (text, status) \<Rightarrow> Exited text status
      | Inr app \<Rightarrow> (case spawn_workers (mc_thread mc) 0 (unat (app_threads app)) of
          Inl (i, what) \<Rightarrow> if i = 0 then Exited (''Server failed: '' @ what @ [CHR 0x0A]) 1 else Terminated
        | Inr _ \<Rightarrow> Running \<lparr>sys_sv = app_server app, sys_strand = Map.empty, sys_acc = None\<rparr>))"

text \<open>No handler is running or queued and no operation is outstanding: this is when \<^verbatim>\<open>run()\<close> returns.\<close>

definition out_of_work :: "Sys \<Rightarrow> bool" where
  "out_of_work s \<longleftrightarrow> sys_acc s = None \<and> \<not> acc_pending (sv_acceptor (sys_sv s)) \<and> (\<forall>c. sys_strand s c = None) \<and>
     (\<forall>c. live (sys_sv s) c \<longrightarrow> s_read (the_session (sys_sv s) c) = RIdle \<and>
        s_writing (the_session (sys_sv s) c) = [] \<and> s_posted (the_session (sys_sv s) c) = [])"

inductive proc_step :: "'j JsonLib \<Rightarrow> Process \<Rightarrow> Process \<Rightarrow> bool" for lib where
  handler: "sys_step lib s s' \<Longrightarrow> proc_step lib (Running s) (Running s')"
| escape: "handler_throws s e \<Longrightarrow> proc_step lib (Running s) Terminated"
| joined: "out_of_work s \<Longrightarrow> proc_step lib (Running s) (Exited [] 0)"

inductive_cases proc_stepE: "proc_step lib (Running s) p"

inductive_simps proc_ends [simp]: "proc_step lib (Exited text status) p" "proc_step lib Terminated p"

lemma main_process_start:
  assumes "main_process mc argv = Running s"
  shows "s = start_sys (new_core True)"
proof -
  obtain app where app: "main_app mc argv = Inr app" "s = \<lparr>sys_sv = app_server app, sys_strand = Map.empty, sys_acc = None\<rparr>"
    using assms by (auto simp: main_process_def split: sum.splits if_splits)
  then show ?thesis using main_app_server[OF app(1)] by (simp add: start_sys_def)
qed

lemma proc_run:
  assumes "(proc_step lib ^^ m) (Running (start_sys (new_core sink))) p" "2 * m + 5 < 2 ^ 64"
  shows "(\<exists>s. p = Running s \<and> (sys_step lib ^^ m) (start_sys (new_core sink)) s) \<or> p = Terminated"
  using assms
proof (induction m arbitrary: p)
  case (Suc m)
  then obtain p1 where p1: "(proc_step lib ^^ m) (Running (start_sys (new_core sink))) p1" "proc_step lib p1 p" by auto
  then obtain s where s: "p1 = Running s" "(sys_step lib ^^ m) (start_sys (new_core sink)) s"
    using Suc.IH[of p1] Suc.prems(2) by auto
  have "\<not> out_of_work s"
    using sys_run_accepts[OF s(2)] Suc.prems(2) by (auto simp: out_of_work_def)
  then show ?case using p1(2) s by (auto elim!: proc_stepE)
qed simp

text \<open>
  C18: The program never ends by itself. Once \<^verbatim>\<open>main\<close> has started its threads, the process never returns from
  \<^verbatim>\<open>main\<close>: after any number of steps it is running and can go on, or an exception has left a
  handler and it was terminated. The exit status 0 is never reached.
\<close>

theorem process_never_returns:
  assumes "main_process mc argv = Running s0" "(proc_step lib ^^ m) (Running s0) p" "2 * m + 5 < 2 ^ 64"
  shows "(\<exists>s. p = Running s \<and> (\<exists>p'. proc_step lib p p')) \<or> p = Terminated"
proof -
  have run: "(proc_step lib ^^ m) (Running (start_sys (new_core True))) p"
    using assms(1,2) main_process_start by simp
  show ?thesis
  proof (cases "p = Terminated")
    case False
    then obtain s where s: "p = Running s" "(sys_step lib ^^ m) (start_sys (new_core True)) s"
      using proc_run[OF run assms(3)] by blast
    then show ?thesis using sys_run_goes_on[OF s(2) assms(3)] proc_step.handler proc_step.escape by metis
  qed simp
qed

lemma spawn_all: "(\<And>j. i \<le> j \<Longrightarrow> j < i + n \<Longrightarrow> mk j = Inr ()) \<Longrightarrow> spawn_workers mk i n = Inr ()"
  by (induction mk i n rule: spawn_workers.induct) simp_all

lemma spawn_fails:
  "i \<le> j \<Longrightarrow> j < i + n \<Longrightarrow> mk j \<noteq> Inr () \<Longrightarrow> \<exists>k what. spawn_workers mk i n = Inl (k, what) \<and> i \<le> k \<and> mk k = Inl what \<and> k \<le> j"
proof (induction mk i n rule: spawn_workers.induct)
  case (2 mk i n)
  show ?case
  proof (cases "mk i")
    case (Inr u)
    then have "Suc i \<le> j" using 2(2,4) by (cases "i = j") simp_all
    then show ?thesis using 2(1)[OF Inr] 2(3,4) Inr by fastforce
  qed (use 2 in simp)
qed simp

text \<open>How the creation of the threads ends.\<close>

lemma thread_start_outcome:
  assumes "main_app mc argv = Inr app"
  shows "main_process mc argv =
    (if \<forall>i<unat (app_threads app). mc_thread mc i = Inr () then Running (start_sys (new_core True))
     else case mc_thread mc 0 of
         Inl what \<Rightarrow> Exited (''Server failed: '' @ what @ [CHR 0x0A]) 1
       | Inr _ \<Rightarrow> Terminated)"
proof (cases "\<forall>i<unat (app_threads app). mc_thread mc i = Inr ()")
  case True
  then have "spawn_workers (mc_thread mc) 0 (unat (app_threads app)) = Inr ()" by (intro spawn_all) simp
  then show ?thesis using True assms main_app_server[OF assms] by (simp add: main_process_def start_sys_def)
next
  case False
  then obtain j where "j < unat (app_threads app)" "mc_thread mc j \<noteq> Inr ()" by blast
  then obtain k what where k: "spawn_workers (mc_thread mc) 0 (unat (app_threads app)) = Inl (k, what)"
    "mc_thread mc k = Inl what"
    using spawn_fails[of 0 j "unat (app_threads app)" "mc_thread mc"] by auto
  moreover have "k = 0" if "mc_thread mc 0 = Inl w" for w
    using k(1) that \<open>j < unat (app_threads app)\<close> by (cases "unat (app_threads app)") simp_all
  moreover have "k \<noteq> 0" if "mc_thread mc 0 = Inr ()" using k(2) that by (cases "k = 0") simp_all
  ultimately show ?thesis using False assms by (cases "mc_thread mc 0") (auto simp: main_process_def)
qed

text \<open>
  C28: The outcome of \<^verbatim>\<open>main\<close>. It exits with status 1 and the exception's text on standard error when the port does not
  parse, opening or preparing the database fails, the port cannot be listened on or the first thread cannot be created.
  When only a later thread cannot be created, the process is terminated without a report. Otherwise it runs, with all
  its threads, an empty server with an accept outstanding, and a writer over the rows of the file that
  keeps 10 snapshots per room.
\<close>

theorem main_outcome:
  "(case main_process mc argv of
      Exited text status \<Rightarrow> status = 1 \<and> (\<exists>what. text = ''Server failed: '' @ what @ [CHR 0x0A] \<and>
        (arg_port argv = Inl what \<or>
         (\<exists>c\<in>{Open, ExecPragma, ExecDdl}. env_fault (mc_sql mc) c) \<and> what = env_errmsg (mc_sql mc) \<or>
         (\<exists>port. arg_port argv = Inr port \<and> new_server (mc_acceptor mc) port (new_core True) = Inl what) \<or>
         mc_thread mc 0 = Inl what))
    | Terminated \<Rightarrow> mc_thread mc 0 = Inr () \<and> (\<exists>i<unat (max 2 (mc_concurrency mc)). mc_thread mc i \<noteq> Inr ())
    | Running s \<Rightarrow> s = start_sys (new_core True) \<and> (\<forall>i<unat (max 2 (mc_concurrency mc)). mc_thread mc i = Inr ()) \<and>
        (\<exists>app. main_app mc argv = Inr app \<and> arg_port argv = Inr (app_port app) \<and>
           ae_bind (mc_acceptor mc) (app_port app) = Inr () \<and> ae_listen (mc_acceptor mc) = Inr () \<and>
           (\<forall>c\<in>{Open, ExecPragma, ExecDdl}. \<not> env_fault (mc_sql mc) c) \<and> w_keepLatest (app_writer app) = 10 \<and>
           snapshots (w_store (app_writer app)) = Some (rows_of (file_store mc argv))))"
proof (cases "main_app mc argv")
  case (Inl ts)
  then show ?thesis using main_app_outcome[where mc = mc and argv = argv] by (cases ts) (auto simp: main_process_def)
next
  case (Inr app)
  note out = main_app_outcome[where mc = mc and argv = argv, unfolded Inr sum.case]
  show ?thesis
    using thread_start_outcome[OF Inr] out Inr by (cases "mc_thread mc 0") auto
qed

lemma proc_runs: "(sys_step lib ^^ n) s s' \<Longrightarrow> (proc_step lib ^^ n) (Running s) (Running s')"
proof (induction n arbitrary: s')
  case (Suc n)
  then obtain s1 where "(sys_step lib ^^ n) s s1" "sys_step lib s1 s'" by auto
  then show ?case using Suc.IH[of s1] proc_step.handler by (blast intro: relpowp_Suc_I)
qed simp

text \<open>
  C40: One line can end the server for everybody: when a client's line is refused with a message that
  \<^verbatim>\<open>dump\<close> throws on (the parser's message quotes the bytes it stopped at, and \<^verbatim>\<open>dump\<close> throws on
  invalid UTF-8), the exception leaves the read handler, nothing between the handler and the
  thread's \<^verbatim>\<open>ioContext.run()\<close> catches it, and the process is terminated, whatever the other threads are doing.
\<close>

theorem bad_line_terminates:
  assumes "sys_strand s c = None" "live (sys_sv s) c" "s_read (the_session (sys_sv s) c) = RReady line"
    and "parseClientMessage lib line = Inl e"
    and "serializeServerMessage lib (toErrorMessage (protocolToCoreError e)) = Inl what"
  shows "(proc_step lib ^^ 3) (Running s) Terminated"
proof -
  obtain s' k sv' where s': "run_choices lib [Begin (OnRead 0 c), Go c] s = Some s'"
    "sys_strand s' c = Some (Atom k)" "k (sys_sv s') = Some (Inl what, sv')"
    using assms by (simp add: begin_label_def enabled_def label_prog_def atom_def take_line_def onReadLine_prog_def
        handleLine_prog_def sendProtocolError_def sendError_def deliver_def del: protocolToCoreError.simps)
  then have "handler_throws s' what" by (auto simp: handler_throws_def)
  have "(sys_step lib ^^ 2) s s'" by (intro run_choices_count[OF s'(1)]) simp
  then have "(proc_step lib ^^ Suc 2) (Running s) Terminated"
    using proc_step.escape[OF \<open>handler_throws s' what\<close>] by (intro relpowp_Suc_I[OF proc_runs])
  then show ?thesis by simp
qed

definition plain_machine :: "(nat \<Rightarrow> unit thrown) \<Rightarrow> Machine" where
  "plain_machine mk = \<lparr>mc_file = (\<lambda>_. (None, 0)), mc_sql = plain_env 0, mc_acceptor = plain_acceptor, mc_concurrency = 1, mc_thread = mk\<rparr>"

lemma plain_machine_starts: "\<exists>app. main_app (plain_machine mk) [''clearspace''] = Inr app \<and> unat (app_threads app) = 2"
  using plain_acceptor_works[of 5555 "new_core True"]
  by (auto simp: main_app_def app_start_eq plain_machine_def plain_env_def arg_port_def max_def word_le_nat_alt)

lemma plain_machine_runs: "main_process (plain_machine (\<lambda>_. Inr ())) [''clearspace''] = Running (start_sys (new_core True))"
proof -
  obtain app where app: "main_app (plain_machine (\<lambda>_. Inr ())) [''clearspace''] = Inr app" using plain_machine_starts by blast
  show ?thesis using main_app_server[OF app] app spawn_all[of 0 "unat (app_threads app)" "\<lambda>_. Inr ()"]
    by (simp add: main_process_def plain_machine_def start_sys_def)
qed

theorem main_outcome_witness:
  "\<exists>app. main_app (plain_machine (\<lambda>_. Inr ())) [''clearspace''] = Inr app \<and> snapshots (w_store (app_writer app)) = Some [] \<and>
     main_process (plain_machine (\<lambda>i. if i = 1 then Inl ''Resource temporarily unavailable'' else Inr ())) [''clearspace''] = Terminated"
proof -
  let ?mc = "plain_machine (\<lambda>_. Inr ())"
  obtain app where app: "main_process ?mc [''clearspace''] = Running (start_sys (new_core True))" "main_app ?mc [''clearspace''] = Inr app"
    using plain_machine_runs plain_machine_starts by blast
  then have "snapshots (w_store (app_writer app)) = Some []"
    using main_outcome[where mc = ?mc and argv = "[''clearspace'']"] by (simp add: plain_machine_def file_store_def new_store_def rows_of_def)
  moreover have "main_process (plain_machine (\<lambda>i. if i = 1 then Inl ''Resource temporarily unavailable'' else Inr ())) [''clearspace''] = Terminated"
  proof -
    let ?mc = "plain_machine (\<lambda>i. if i = 1 then Inl ''Resource temporarily unavailable'' else Inr ())"
    obtain app where app: "main_app ?mc [''clearspace''] = Inr app" "unat (app_threads app) = 2" using plain_machine_starts by blast
    show ?thesis using thread_start_outcome[OF app(1)] app(2) by (auto simp: plain_machine_def)
  qed
  ultimately show ?thesis using app(2) by blast
qed

theorem process_never_returns_witness:
  "\<exists>s. (proc_step plain_json ^^ 19) (main_process (plain_machine (\<lambda>_. Inr ())) [''clearspace'']) (Running s) \<and>
     live (sys_sv s) 2 \<and> (\<exists>p'. proc_step plain_json (Running s) p')"
proof -
  obtain line s k where s: "run_choices plain_json (meanwhile line) (start_sys (new_core True)) = Some s"
    "(sys_step plain_json ^^ 19) (start_sys (new_core True)) s"
    "sys_strand s 1 = Some (Atom k)" "sys_strand s 2 = None" "live (sys_sv s) 2" "sys_acc s \<noteq> None"
    "live (sys_sv s) 1" "length (outbox (the_session (sys_sv s) 1)) = 1"
    "s_currentRoom (the_session (sys_sv s) 2) = None"
    by (rule plain_meanwhile)
  then have run: "(proc_step plain_json ^^ 19) (Running (start_sys (new_core True))) (Running s)" by (intro proc_runs)
  show ?thesis using process_never_returns[OF plain_machine_runs run] run s(5) plain_machine_runs by auto
qed

definition bad_utf8 :: "JVal JsonLib" where
  "bad_utf8 = plain_json\<lparr>js_parse := (\<lambda>_. Inl ''invalid byte''), js_dump := (\<lambda>_. Inl ''invalid UTF-8'')\<rparr>"

theorem bad_line_terminates_witness:
  "\<exists>s. (sys_step bad_utf8)\<^sup>*\<^sup>* (start_sys (new_core True)) s \<and> (proc_step bad_utf8 ^^ 3) (Running s) Terminated"
proof -
  obtain sv where sv: "run_labels bad_utf8 [Accept, RunPosted 1, Receive 1 ''x''] (started_server (new_core True)) = Some sv"
    "live sv 1" "s_read (the_session sv 1) = RReady ''x''"
    by (simp add: server_eval)
  let ?s = "\<lparr>sys_sv = sv, sys_strand = Map.empty, sys_acc = None\<rparr>"
  have "(proc_step bad_utf8 ^^ 3) (Running ?s) Terminated"
    by (rule bad_line_terminates[where c = 1 and line = "''x''" and what = "''invalid UTF-8''"])
      (use sv(2,3) in \<open>simp_all add: bad_utf8_def plain_json_def parseClientMessage_def serializeServerMessage_def\<close>)
  moreover have "(sys_step bad_utf8)\<^sup>*\<^sup>* (start_sys (new_core True)) ?s" using run_labels_interleave[OF sv(1)] .
  ultimately show ?thesis by blast
qed

end
