(* ===== verification/CS_Room_Property.thy ===== *)
theory CS_Room_Property
  imports CS_System
begin

text \<open>
  Properties of every board, under every interleaving. The locale \<open>room_property\<close> takes a property of rooms that
  a new room has and every operation of \<^verbatim>\<open>Room\<close> keeps, and a property of snapshots that follows from it;
  it shows that all rooms and all snapshots handed to the writer have it whatever the threads do. \<open>keeps\<close> is the
  invariant along one program: each of its atomic actions keeps it, on its own. \<open>CS_Typing\<close> interprets the locale.
\<close>

definition all_have :: "(Room \<Rightarrow> bool) \<Rightarrow> (PersistedBoardSnapshot \<Rightarrow> bool) \<Rightarrow> Server \<Rightarrow> bool" where
  "all_have P S sv \<longleftrightarrow> (\<forall>room r. getRoom (manager (sv_core sv)) room = Some r \<longrightarrow> P r) \<and> (\<forall>sn\<in>set (sv_enqueued sv). S sn)"

inductive keeps :: "(Server \<Rightarrow> bool) \<Rightarrow> ('a \<Rightarrow> bool) \<Rightarrow> 'a prog \<Rightarrow> bool" for I Q where
  pure: "Q a \<Longrightarrow> keeps I Q (Pure a)"
| atom: "(\<And>sv r sv'. I sv \<Longrightarrow> k sv = Some (r, sv') \<Longrightarrow> I sv' \<and> (\<forall>p. r = Inr p \<longrightarrow> keeps I Q p)) \<Longrightarrow> keeps I Q (Atom k)"

inductive_cases keeps_AtomE: "keeps I Q (Atom k)"

lemma keeps_bindp:
  assumes "keeps I R p" "\<And>a. R a \<Longrightarrow> keeps I Q (f a)"
  shows "keeps I Q (bindp p f)"
  using assms(1)
proof (induction rule: keeps.induct)
  case (atom k)
  show ?case unfolding bindp.simps
  proof (rule keeps.atom)
    fix sv r sv' assume "I sv" "map_option (map_prod (map_sum id (\<lambda>p. bindp p f)) id) (k sv) = Some (r, sv')"
    then obtain q where q: "k sv = Some (q, sv')" "r = map_sum id (\<lambda>p. bindp p f) q" by auto
    then show "I sv' \<and> (\<forall>p. r = Inr p \<longrightarrow> keeps I Q p)" using atom[OF \<open>I sv\<close> q(1)] by (cases q) auto
  qed
qed (simp add: assms(2))

lemma keeps_atom:
  assumes "\<And>sv r sv'. I sv \<Longrightarrow> m sv = Some (r, sv') \<Longrightarrow> I sv' \<and> (\<forall>v. r = Inr v \<longrightarrow> Q v)"
  shows "keeps I Q (atom m)"
  unfolding atom_def
proof (rule keeps.atom)
  fix sv r sv' assume "I sv" "map_option (map_prod (map_sum id Pure) id) (m sv) = Some (r, sv')"
  then obtain q where q: "m sv = Some (q, sv')" "r = map_sum id Pure q" by auto
  then show "I sv' \<and> (\<forall>p. r = Inr p \<longrightarrow> keeps I Q p)" using assms[OF \<open>I sv\<close> q(1)] by (cases q) (auto intro: keeps.pure)
qed

locale room_property =
  fixes P :: "Room \<Rightarrow> bool"
    and S :: "PersistedBoardSnapshot \<Rightarrow> bool"
    and ok :: "EventPayload \<Rightarrow> bool"
  assumes P_new: "P (new_room rid)"
    and P_join: "P r \<Longrightarrow> join r c = (res, r') \<Longrightarrow> P r'"
    and P_leave: "P r \<Longrightarrow> leave r c = Some (lres, r') \<Longrightarrow> P r'"
    and P_apply: "P r \<Longrightarrow> ok ev \<Longrightarrow> apply_event r now c ev = Some (ares, r') \<Longrightarrow> P r'"
    and S_snapshot: "P r \<Longrightarrow> S (makePersistedSnapshot r)"
    and ok_request: "toCoreEvent msg = Some (Inr ev) \<Longrightarrow> ok ev"
begin

lemma keeps_other:
  assumes "\<And>sv r sv'. m sv = Some (r, sv') \<Longrightarrow> sv_core sv' = sv_core sv \<and> sv_enqueued sv' = sv_enqueued sv"
  shows "keeps (all_have P S) (\<lambda>_. True) (atom m)"
proof (rule keeps_atom)
  fix sv r sv' assume "all_have P S sv" "m sv = Some (r, sv')"
  then show "all_have P S sv' \<and> (\<forall>v. r = Inr v \<longrightarrow> True)" using assms[of sv r sv'] by (simp add: all_have_def)
qed

lemma all_have_put: "all_have P S sv \<Longrightarrow> P r \<Longrightarrow> all_have P S (put_room room r sv)"
  by (auto simp: all_have_def put_room_def rm.look_store)

lemma keeps_rooms:
  "keeps (all_have P S) (\<lambda>_. True) (atom (room_join c room))"
  "keeps (all_have P S) (\<lambda>_. True) (atom (room_leave c room))"
  "ok ev \<Longrightarrow> keeps (all_have P S) (\<lambda>_. True) (atom (room_apply now c room ev))"
  "keeps (all_have P S) S (atom (room_snapshot room))"
  "S sn \<Longrightarrow> keeps (all_have P S) (\<lambda>_. True) (atom (sink_enqueue sn))"
  "keeps (all_have P S) (\<lambda>_. True) (atom core_createRoom)"
proof -
  have room: "P r" if "all_have P S sv" "getRoom (manager (sv_core sv)) room = Some r" for sv r room
    using that by (auto simp: all_have_def)
  show "keeps (all_have P S) (\<lambda>_. True) (atom (room_join c room))"
    by (rule keeps_atom) (auto simp: room_join_def ret_def split: option.splits prod.splits intro!: all_have_put elim: P_join[OF room])
  show "keeps (all_have P S) (\<lambda>_. True) (atom (room_leave c room))"
    by (rule keeps_atom) (auto simp: room_leave_def ret_def split: option.splits prod.splits intro!: all_have_put elim: P_leave[OF room])
  show "keeps (all_have P S) (\<lambda>_. True) (atom (room_apply now c room ev))" if "ok ev"
    by (rule keeps_atom) (auto simp: room_apply_def ret_def split: option.splits prod.splits intro!: all_have_put elim: P_apply[OF room that])
  show "keeps (all_have P S) S (atom (room_snapshot room))"
    by (rule keeps_atom) (auto simp: room_snapshot_def ret_def split: option.splits dest: room intro: S_snapshot)
  show "keeps (all_have P S) (\<lambda>_. True) (atom (sink_enqueue sn))" if "S sn"
    by (rule keeps_atom) (use that in \<open>auto simp: sink_enqueue_def ret_def all_have_def\<close>)
  show "keeps (all_have P S) (\<lambda>_. True) (atom core_createRoom)"
    by (rule keeps_atom) (auto simp: core_createRoom_def createRoom_def ret_def all_have_def rm.look_create P_new
        split: prod.splits if_splits)
qed

lemma keeps_session:
  "keeps (all_have P S) (\<lambda>_. True) (atom (find_room room))" "keeps (all_have P S) (\<lambda>_. True) (atom (room_count room))"
  "keeps (all_have P S) (\<lambda>_. True) (atom has_sink)" "keeps (all_have P S) (\<lambda>_. True) (atom (reg_find c))"
  "keeps (all_have P S) (\<lambda>_. True) (atom (deliver lib c msg))" "keeps (all_have P S) (\<lambda>_. True) (atom (getCurrentRoom c))"
  "keeps (all_have P S) (\<lambda>_. True) (atom (setCurrentRoom c cur))" "keeps (all_have P S) (\<lambda>_. True) (atom (modify c f))"
  "keeps (all_have P S) (\<lambda>_. True) (atom (exchange_stopped c))" "keeps (all_have P S) (\<lambda>_. True) (atom (load_stopped c))"
  "keeps (all_have P S) (\<lambda>_. True) (atom (pop_line c w))" "keeps (all_have P S) (\<lambda>_. True) (atom (reg_remove c))"
  "keeps (all_have P S) (\<lambda>_. True) (atom (doReadLine c))" "keeps (all_have P S) (\<lambda>_. True) (atom (doWrite c))"
  "keeps (all_have P S) (\<lambda>_. True) (atom (take_line c))" "keeps (all_have P S) (\<lambda>_. True) (atom (take_write c))" "keeps (all_have P S) (\<lambda>_. True) (atom (take_posted c))"
  "keeps (all_have P S) (\<lambda>_. True) (atom new_client)" "keeps (all_have P S) (\<lambda>_. True) (atom (reg_add c))"
  "keeps (all_have P S) (\<lambda>_. True) (atom (session_start c))" "keeps (all_have P S) (\<lambda>_. True) (atom accept_again)"
  "keeps (all_have P S) (\<lambda>_. True) (atom accept_done)" "keeps (all_have P S) (\<lambda>_. True) (atom (session_stop c))"
  by (rule keeps_other; auto simp: find_room_def room_count_def has_sink_def reg_find_def deliver_def getCurrentRoom_def
      setCurrentRoom_def modify_def exchange_stopped_def load_stopped_def pop_line_def reg_remove_def doReadLine_def
      doWrite_def take_line_def take_write_def take_posted_def new_client_def reg_add_def session_start_def session_stop_def accept_again_def accept_done_def
      doAccept_def post_def ret_def Let_def split: option.splits if_splits sum.splits list.splits ReadOp.splits Posted.splits)+

lemmas keeps_atoms = keeps_session keeps_rooms(1,2,6)

lemma keeps_Pure: "keeps (all_have P S) (\<lambda>_. True) (Pure a)"
  by (rule keeps.pure) simp

lemma keeps_then:
  "keeps (all_have P S) (\<lambda>_. True) p \<Longrightarrow> (\<And>a. keeps (all_have P S) (\<lambda>_. True) (f a)) \<Longrightarrow>
   keeps (all_have P S) (\<lambda>_. True) (bindp p f)"
  by (rule keeps_bindp)

lemma keeps_save: "keeps (all_have P S) (\<lambda>_. True) (save_prog room)"
  unfolding save_prog_def by (rule keeps_bindp[OF keeps_rooms(4) keeps_rooms(5)])

lemma keeps_core:
  "keeps (all_have P S) (\<lambda>_. True) (joinRoom_prog c room)"
  "keeps (all_have P S) (\<lambda>_. True) (leaveRoom_prog c room)"
  "ok ev \<Longrightarrow> keeps (all_have P S) (\<lambda>_. True) (handleEvent_prog now c room ev)"
  by (auto simp: joinRoom_prog_def leaveRoom_prog_def handleEvent_prog_def save_when_empty_def save_after_def
      intro!: keeps_then keeps_atoms keeps_rooms(3) keeps_save keeps_Pure split: sum.splits)

lemma keeps_dispatch: "keeps (all_have P S) (\<lambda>_. True) (dispatchOutgoing_prog lib evs)"
  by (induction evs) (auto simp: reg_deliver_prog_def intro!: keeps_then keeps_atoms keeps_Pure)

lemma keeps_error: "keeps (all_have P S) (\<lambda>_. True) (atom (sendError lib c e))"
  by (simp add: sendError_def keeps_atoms)

lemma keeps_requests:
  "keeps (all_have P S) (\<lambda>_. True) (handleJoin_prog lib c room)"
  "keeps (all_have P S) (\<lambda>_. True) (handleLeave_prog lib c room)"
  "(\<And>ev. event = Inr ev \<Longrightarrow> ok ev) \<Longrightarrow> keeps (all_have P S) (\<lambda>_. True) (handleDraw_prog lib now c room event)"
  by (auto simp: handleJoin_prog_def handleLeave_prog_def handleDraw_prog_def
      intro!: keeps_then keeps_atoms keeps_core keeps_dispatch keeps_error split: sum.splits)

lemma keeps_handleLine: "keeps (all_have P S) (\<lambda>_. True) (handleLine_prog lib now c line)"
proof (cases "parseClientMessage lib line")
  case (Inr msg)
  then show ?thesis
    by (cases msg) (auto simp: handleLine_prog_def handleMessage_prog_def simp del: toCoreEvent.simps
        intro!: keeps_then keeps_atoms keeps_requests keeps_Pure elim: ok_request split: option.splits)
qed (simp add: handleLine_prog_def sendProtocolError_def keeps_error del: protocolToCoreError.simps)

lemma keeps_stop: "keeps (all_have P S) (\<lambda>_. True) (stopImpl_prog lib c)"
  by (auto simp: stopImpl_prog_def intro!: keeps_then keeps_atoms keeps_core keeps_dispatch keeps_Pure
      split: option.splits sum.splits)

lemma keeps_label: "keeps (all_have P S) (\<lambda>_. True) (label_prog lib l)"
proof -
  have destroy: "keeps (all_have P S) (\<lambda>_. True) (atom (\<lambda>sv. Some (Inr (), sv\<lparr>sv_sessions := (sv_sessions sv)(c := None)\<rparr>)))" for c
    by (rule keeps_other) auto
  show ?thesis
    by (cases l) (auto simp: label_prog_def onAccept_prog_def onReadLine_prog_def onWrite_prog_def runPosted_prog_def
        intro!: keeps_then keeps_atoms keeps_handleLine keeps_stop keeps_Pure destroy
        split: option.splits Posted.splits)
qed

text \<open>The property, and what is left of every running handler keeps it.\<close>

definition kept :: "Sys \<Rightarrow> bool" where
  "kept s \<longleftrightarrow> all_have P S (sys_sv s) \<and> (\<forall>c p. sys_strand s c = Some p \<longrightarrow> keeps (all_have P S) (\<lambda>_. True) p) \<and>
     (\<forall>p. sys_acc s = Some p \<longrightarrow> keeps (all_have P S) (\<lambda>_. True) p)"

lemma keeps_next:
  "keeps (all_have P S) (\<lambda>_. True) (Atom k) \<Longrightarrow> all_have P S sv \<Longrightarrow> k sv = Some (Inr p, sv') \<Longrightarrow>
   all_have P S sv' \<and> keeps (all_have P S) (\<lambda>_. True) p"
  by (erule keeps_AtomE) auto

lemma keeps_exec:
  assumes "keeps (all_have P S) (\<lambda>_. True) p" "all_have P S sv" "exec p sv = Some (Inr a, sv')"
  shows "all_have P S sv'"
  using assms
proof (induction arbitrary: sv rule: keeps.induct)
  case (atom k)
  obtain r sv1 where r: "k sv = Some (r, sv1)" using atom.prems(2) by (cases "k sv") auto
  obtain q where q: "r = Inr q" using atom.prems(2) r by (cases r) auto
  then show ?case using atom.IH[OF atom.prems(1) r] atom.prems(2) r by auto
qed simp

lemma kept_step:
  assumes "kept s" "sys_step lib s s'"
  shows "kept s'"
  using assms(2)
proof cases
  case (network l c line sv')
  then have "exec (label_prog lib l) (sys_sv s) = Some (Inr (), sv')" by (simp add: label_exec)
  then have "all_have P S sv'" using keeps_exec[OF keeps_label] assms(1) by (auto simp: kept_def)
  then show ?thesis using network assms(1) by (simp add: kept_def)
next
  case (destroy c sv')
  then have "exec (label_prog lib (Destroy c)) (sys_sv s) = Some (Inr (), sv')" by (simp add: label_exec)
  then have "all_have P S sv'" using keeps_exec[OF keeps_label] assms(1) by (auto simp: kept_def)
  then show ?thesis using destroy assms(1) by (simp add: kept_def)
next
  case (strand c k p sv')
  then have "all_have P S sv' \<and> keeps (all_have P S) (\<lambda>_. True) p"
    using assms(1) by (intro keeps_next[of k]) (auto simp: kept_def)
  then show ?thesis using strand assms(1) by (simp add: kept_def)
next
  case (acceptor k p sv')
  then have "all_have P S sv' \<and> keeps (all_have P S) (\<lambda>_. True) p"
    using assms(1) by (intro keeps_next[of k]) (auto simp: kept_def)
  then show ?thesis using acceptor assms(1) by (simp add: kept_def)
qed (use assms(1) in \<open>simp_all add: kept_def keeps_label\<close>)

lemma always_have:
  assumes "(sys_step lib)\<^sup>*\<^sup>* (start_sys (new_core sink)) s"
  shows "all_have P S (sys_sv s)"
proof -
  have "kept s" using assms
  proof (induction rule: rtranclp_induct)
    case base
    show ?case by (simp add: kept_def start_sys_def started_server_def all_have_def new_core_def new_manager_def getRoom_def)
  qed (rule kept_step)
  then show ?thesis by (simp add: kept_def)
qed

end

end
