(* ===== verification/CS_Typing.thy ===== *)
theory CS_Typing
  imports CS_Room_Property
begin

text \<open>
  The boards of the threaded server are well typed, by the locale \<open>room_property\<close>.
\<close>

text \<open>The enumerators, and strokes and events built from them.\<close>

definition stroke_typed :: "Stroke \<Rightarrow> bool" where
  "stroke_typed st \<longleftrightarrow> color st \<in> {Black, Red, Green, Blue} \<and> thickness st \<in> {Thin, Medium, Thick} \<and> points st \<noteq> []"

fun event_typed :: "EventPayload \<Rightarrow> bool" where
  "event_typed (StrokeBegin col th start) \<longleftrightarrow> col \<in> {Black, Red, Green, Blue} \<and> th \<in> {Thin, Medium, Thick}"
| "event_typed _ \<longleftrightarrow> True"

definition board_typed :: "Room \<Rightarrow> bool" where
  "board_typed r \<longleftrightarrow> (\<forall>st\<in>set (strokes (board r)). stroke_typed st)"

definition snapshot_typed :: "PersistedBoardSnapshot \<Rightarrow> bool" where
  "snapshot_typed sn \<longleftrightarrow> (\<forall>st\<in>set (pers_strokes sn). stroke_typed st)"

subsection \<open>Typed boards\<close>

lemma typed_codes:
  "\<not> color_code Blue < c \<Longrightarrow> Color c \<in> {Black, Red, Green, Blue}"
  "\<not> thickness_code Thick < t \<Longrightarrow> Thickness t \<in> {Thin, Medium, Thick}"
proof -
  have small: "x \<le> 3 \<Longrightarrow> x = 0 \<or> x = 1 \<or> x = 2 \<or> x = 3" "x \<le> 2 \<Longrightarrow> x = 0 \<or> x = 1 \<or> x = 2" for x :: u8
    by unat_arith+
  show "\<not> color_code Blue < c \<Longrightarrow> Color c \<in> {Black, Red, Green, Blue}"
    using small(1)[of c] by (auto simp: Black_def Red_def Green_def Blue_def not_less)
  show "\<not> thickness_code Thick < t \<Longrightarrow> Thickness t \<in> {Thin, Medium, Thick}"
    using small(2)[of t] by (auto simp: Thin_def Medium_def Thick_def not_less)
qed

lemma typed_modify:
  assumes "vec_modify ss i f = Some ss'" "\<forall>st\<in>set ss. stroke_typed st" "\<And>st. stroke_typed st \<Longrightarrow> stroke_typed (f st)"
  shows "\<forall>st\<in>set ss'. stroke_typed st"
  using assms set_update_subset_insert[of ss i "f (ss ! i)"] by (auto simp: vec_modify_eq_Some_iff)

lemma stroke_typed_upd [simp]:
  "stroke_typed (s\<lparr>finished := b\<rparr>) = stroke_typed s" "stroke_typed s \<Longrightarrow> stroke_typed (s\<lparr>points := points s @ [p]\<rparr>)"
  by (simp_all add: stroke_typed_def)

lemma typed_finish_active:
  assumes "leave_finish_active r c = Some (out, r')" "board_typed r"
  shows "board_typed r'"
  using assms typed_modify[where f = "\<lambda>s. s\<lparr>finished := True\<rparr>"]
  by (auto simp: leave_finish_active_def board_typed_def Let_def split: option.splits bind_splits)

lemma typed_leave:
  assumes "leave r c = Some (res, r')" "board_typed r"
  shows "board_typed r'"
  using assms typed_finish_active[of r c]
  by (auto simp: leave_def Let_def board_typed_def split: if_splits bind_splits)

lemma typed_apply:
  assumes "apply_event r now c ev = Some (res, r')" "board_typed r" "event_typed ev"
  shows "board_typed r'"
proof (cases ev)
  case (StrokeBegin col th start)
  then show ?thesis using assms
    by (auto simp: apply_event_def ensureMember_def applyStrokeBegin_def board_typed_def stroke_typed_def Let_def split: if_splits)
next
  case (StrokePoint p)
  then show ?thesis using assms typed_modify[where f = "\<lambda>s. s\<lparr>points := points s @ [p]\<rparr>"]
    by (auto simp: apply_event_def ensureMember_def applyStrokePoint_def board_typed_def Let_def
        split: if_splits option.splits bind_splits)
next
  case StrokeEnd
  then show ?thesis using assms typed_modify[where f = "\<lambda>s. s\<lparr>finished := True\<rparr>"]
    by (auto simp: apply_event_def ensureMember_def applyStrokeEnd_def board_typed_def Let_def
        split: if_splits option.splits bind_splits)
next
  case (CursorMove p)
  then show ?thesis using assms
    by (auto simp: apply_event_def ensureMember_def applyCursorMove_def board_typed_def Let_def split: if_splits)
next
  case Clear
  then show ?thesis using assms
    by (auto simp: apply_event_def ensureMember_def applyClear_def board_typed_def Let_def split: if_splits)
qed

interpretation typed: room_property board_typed snapshot_typed event_typed
proof
  show "board_typed (new_room rid)" for rid by (simp add: board_typed_def new_room_def)
  show "board_typed r'" if "board_typed r" "join r c = (res, r')" for r c res r'
    using that by (auto simp: board_typed_def join_def Let_def)
  show "board_typed r'" if "board_typed r" "leave r c = Some (res, r')" for r c res r'
    using typed_leave[OF that(2,1)] .
  show "board_typed r'" if "board_typed r" "event_typed ev" "apply_event r now c ev = Some (res, r')" for r now c ev res r'
    using typed_apply[OF that(3,1,2)] .
  show "snapshot_typed (makePersistedSnapshot r)" if "board_typed r" for r
    using that by (simp add: snapshot_typed_def board_typed_def makePersistedSnapshot_def)
  show "event_typed ev" if "toCoreEvent msg = Some (Inr ev)" for msg ev
  proof (cases msg)
    case (StrokeBeginRequest room col th start)
    then show ?thesis using that typed_codes(1)[of col] typed_codes(2)[of th]
      by (simp add: toColor_def toThickness_def split: if_splits) (metis event_typed.simps(1) insertCI)
  qed (use that in auto)
qed

text \<open>
  C13: Every board is well typed. Under every interleaving each stroke of each room, and of each snapshot handed to
  the writer, has a color and a thickness that are enumerators of their types and at least one point,
  although \<^verbatim>\<open>Color\<close> and \<^verbatim>\<open>Thickness\<close> are made by casts from the numbers a client sends.
\<close>

theorem boards_well_typed:
  assumes "(sys_step lib)\<^sup>*\<^sup>* (start_sys (new_core sink)) s"
  shows "(\<forall>room r. getRoom (manager (sv_core (sys_sv s))) room = Some r \<longrightarrow> (\<forall>st\<in>set (strokes (board r)). stroke_typed st)) \<and>
    (\<forall>sn\<in>set (sv_enqueued (sys_sv s)). \<forall>st\<in>set (pers_strokes sn). stroke_typed st)"
  using typed.always_have[OF assms] by (simp add: all_have_def board_typed_def snapshot_typed_def)

definition paint_run :: "string \<Rightarrow> string \<Rightarrow> string \<Rightarrow> ServerLabel list" where
  "paint_run l1 l2 l3 = [Accept, RunPosted 1, Receive 1 l1, OnRead 0 1, Receive 1 l2, OnRead 0 1, Receive 1 l3, OnRead 0 1]"

lemma paint_run_exec:
  assumes "parseClientMessage lib l1 = Inr CreateRoomRequest" "parseClientMessage lib l2 = Inr (JoinRoomRequest 1)"
    and "parseClientMessage lib l3 = Inr (StrokeBeginRequest 1 3 2 start)"
    and "CHR 0x0A \<notin> set l1" "CHR 0x0A \<notin> set l2" "CHR 0x0A \<notin> set l3" "\<And>m. serializeServerMessage lib m = Inr (ser m)"
  shows "\<exists>sv r st. run_labels lib (paint_run l1 l2 l3) (started_server (new_core sink)) = Some sv \<and>
    getRoom (manager (sv_core sv)) 1 = Some r \<and> strokes (board r) = [st]"
  using assms by (simp add: paint_run_def server_eval handleDraw_def core_handleEvent_def toColor_def toThickness_def
      Blue_def Thick_def)

lemma plain_paint:
  obtains sv r st where
    "(sys_step plain_json)\<^sup>*\<^sup>* (start_sys (new_core True)) \<lparr>sys_sv = sv, sys_strand = Map.empty, sys_acc = None\<rparr>"
    "getRoom (manager (sv_core sv)) 1 = Some r" "strokes (board r) = [st]"
proof -
  obtain l1 where l1: "CHR 0x0A \<notin> set l1" "parseClientMessage plain_json l1 = Inr CreateRoomRequest"
    by (rule plain_request[of CreateRoomRequest]) simp_all
  obtain l2 where l2: "CHR 0x0A \<notin> set l2" "parseClientMessage plain_json l2 = Inr (JoinRoomRequest 1)"
    by (rule plain_request[of "JoinRoomRequest 1"]) simp_all
  let ?req = "StrokeBeginRequest 1 3 2 \<lparr>dto_x = 0, dto_y = 0\<rparr>"
  obtain l3 where l3: "CHR 0x0A \<notin> set l3" "parseClientMessage plain_json l3 = Inr ?req"
    by (rule plain_request[of ?req]) (simp_all add: finite_point_def finite_float_def)
  obtain ser where ser: "\<And>m. serializeServerMessage plain_json m = Inr (ser m)" using plain_serialize by blast
  obtain sv r st where sv: "run_labels plain_json (paint_run l1 l2 l3) (started_server (new_core True)) = Some sv"
    "getRoom (manager (sv_core sv)) 1 = Some r" "strokes (board r) = [st]"
    using paint_run_exec[OF l1(2) l2(2) l3(2) l1(1) l2(1) l3(1) ser] by blast
  then show thesis using that[OF run_labels_interleave[OF sv(1)]] by simp
qed

theorem boards_well_typed_witness:
  "\<exists>s r st. (sys_step plain_json)\<^sup>*\<^sup>* (start_sys (new_core True)) s \<and> getRoom (manager (sv_core (sys_sv s))) 1 = Some r \<and>
     strokes (board r) = [st] \<and> stroke_typed st"
proof -
  obtain sv r st where sv: "(sys_step plain_json)\<^sup>*\<^sup>* (start_sys (new_core True)) \<lparr>sys_sv = sv, sys_strand = Map.empty, sys_acc = None\<rparr>"
    "getRoom (manager (sv_core sv)) 1 = Some r" "strokes (board r) = [st]"
    by (rule plain_paint)
  then show ?thesis using boards_well_typed[OF sv(1)] by fastforce
qed

end
