(* ===== verification/CS_Replies.thy ===== *)
theory CS_Replies
  imports CS_Session_Run
begin

text \<open>
  What a request does, as a pure function: \<open>request_outcome\<close> gives the events to broadcast, the reply to the
  requester, the snapshots to save and the new state of the core and of the session, without sessions, registry,
  queues or serialization. \<open>request_refines\<close> shows that the session layer implements it, line by line for every client.
\<close>

record Outcome =
  oc_events :: "OutgoingEvent list"
  oc_reply :: "ServerMessage list"
  oc_saved :: "PersistedBoardSnapshot list"
  oc_core :: ServerCore
  oc_room :: "RoomId option"

definition refuse :: "ServerCore \<Rightarrow> RoomId option \<Rightarrow> Error \<Rightarrow> Outcome" where
  "refuse core cur e = \<lparr>oc_events = [], oc_reply = [toErrorMessage e], oc_saved = [], oc_core = core, oc_room = cur\<rparr>"

fun request_outcome :: "TimePoint \<Rightarrow> ServerCore \<Rightarrow> RoomId option \<Rightarrow> ClientId \<Rightarrow> ClientMessage \<Rightarrow> Outcome option" where
  "request_outcome now core cur c PingRequest =
     Some \<lparr>oc_events = [], oc_reply = [PongResponse], oc_saved = [], oc_core = core, oc_room = cur\<rparr>"
| "request_outcome now core cur c CreateRoomRequest = (case createRoom core of (rid, core') \<Rightarrow>
     Some \<lparr>oc_events = [], oc_reply = [RoomCreatedResponse rid], oc_saved = [], oc_core = core', oc_room = cur\<rparr>)"
| "request_outcome now core cur c (JoinRoomRequest room) =
     (if cur \<noteq> None \<and> cur \<noteq> Some room
      then Some (refuse core cur (invalidParams ''session already joined to another room''))
      else case joinRoom core c room of
          (Inl e, core') \<Rightarrow> Some (refuse core' cur e)
        | (Inr snap, core') \<Rightarrow> Some \<lparr>oc_events = [], oc_reply = [toSnapshotMessage snap], oc_saved = [],
            oc_core = core', oc_room = Some room\<rparr>)"
| "request_outcome now core cur c (LeaveRoomRequest room) =
     (if cur \<noteq> Some room then Some (refuse core cur notInRoom)
      else case leaveRoom core c room of
          None \<Rightarrow> None
        | Some (Inl e, sn, core') \<Rightarrow> Some ((refuse core' cur e)\<lparr>oc_saved := sn\<rparr>)
        | Some (Inr out, sn, core') \<Rightarrow> Some \<lparr>oc_events = out, oc_reply = [OkResponse ''leave_room'' room],
            oc_saved = sn, oc_core = core', oc_room = None\<rparr>)"
| "request_outcome now core cur c msg =
     (case (request_room msg, toCoreEvent msg) of
        (Some room, Some event) \<Rightarrow>
          if cur \<noteq> Some room then Some (refuse core cur notInRoom)
          else (case event of
              Inl e \<Rightarrow> Some (refuse core cur e)
            | Inr ev \<Rightarrow> (case handleEvent core now c room ev of
                None \<Rightarrow> None
              | Some (Inl e, sn, core') \<Rightarrow> Some ((refuse core' cur e)\<lparr>oc_saved := sn\<rparr>)
              | Some (Inr out, sn, core') \<Rightarrow> Some \<lparr>oc_events = out, oc_reply = [], oc_saved = sn,
                  oc_core = core', oc_room = cur\<rparr>))
      | _ \<Rightarrow> None)"

definition line_of :: "'j JsonLib \<Rightarrow> ServerMessage \<Rightarrow> string" where
  "line_of lib m = projr (serializeServerMessage lib m) @ [CHR 0x0A]"

text \<open>Every live client \<open>d\<close> gets the messages \<open>f d\<close>, in order, and nothing else changes that a request may observe.\<close>

definition gives :: "'j JsonLib \<Rightarrow> (ClientId \<Rightarrow> ServerMessage list) \<Rightarrow> Server \<Rightarrow> Server \<Rightarrow> bool" where
  "gives lib f sv sv' \<longleftrightarrow> sv_core sv' = sv_core sv \<and> sv_enqueued sv' = sv_enqueued sv \<and>
     (\<forall>d. live sv d \<longrightarrow> sv_registry sv' d = sv_registry sv d) \<and>
     (\<forall>d. sv_sessions sv' d = map_option (\<lambda>s. s\<lparr>s_posted := s_posted s @ map (\<lambda>m. PostLine (line_of lib m)) (f d)\<rparr>) (sv_sessions sv d))"

lemma gives_none: "gives lib (\<lambda>_. []) sv sv"
  by (simp add: gives_def option.map_ident_strong)

lemma gives_live: "gives lib f sv sv' \<Longrightarrow> live sv' d = live sv d"
  by (simp add: gives_def live_def)

lemma gives_trans:
  assumes "gives lib f sv sv'" "gives lib g sv' sv''"
  shows "gives lib (\<lambda>d. f d @ g d) sv sv''"
  using assms gives_live[OF assms(1)] by (simp add: gives_def option.map_comp comp_def)

lemma gives_cong: "gives lib f sv sv' \<Longrightarrow> (\<And>d. live sv d \<Longrightarrow> f d = g d) \<Longrightarrow> gives lib g sv sv'"
  by (auto simp: gives_def live_def map_option_case split: option.splits)

lemma gives_deliver:
  assumes "deliver lib c m sv = Some (Inr (), sv')"
  shows "gives lib (\<lambda>d. if d = c then [m] else []) sv sv'"
proof -
  obtain line where line: "serializeServerMessage lib m = Inr line"
    "sv' = upd_session c (\<lambda>s. s\<lparr>s_posted := s_posted s @ [PostLine (line @ [CHR 0x0A])]\<rparr>) sv"
    using assms by (auto simp: deliver_def post_def split: sum.splits)
  then show ?thesis
    by (cases "sv_sessions sv c") (auto simp: gives_def upd_session_def line_of_def option.map_ident_strong)
qed

lemma gives_reg_deliver:
  assumes "reg_deliver lib c m sv = Some (Inr (), sv')"
  shows "gives lib (\<lambda>d. if d = c \<and> sv_registry sv c then [m] else []) sv sv'"
proof (cases "sv_registry sv c \<and> live sv c")
  case True
  then have "deliver lib c m sv = Some (Inr (), sv')" using assms by (auto simp: reg_deliver_def reg_find_def seqn_def live_def)
  from gives_deliver[OF this] show ?thesis using True by simp
next
  case False
  then have "sv' = sv \<or> sv' = sv\<lparr>sv_registry := (sv_registry sv)(c := False)\<rparr> \<and> \<not> live sv c"
    using assms by (auto simp: reg_deliver_def reg_find_def seqn_def live_def split: if_splits)
  then have "gives lib (\<lambda>_. []) sv sv'" using gives_none[of lib sv] by (auto simp: gives_def split: if_splits)
  then show ?thesis by (rule gives_cong) (use False in auto)
qed

lemma gives_dispatch:
  assumes "dispatchOutgoing lib evs sv = Some (Inr (), sv')"
  shows "gives lib (\<lambda>d. if sv_registry sv d then map toServerMessage (filter (\<lambda>ev. ev_to ev = d) evs) else []) sv sv'"
  using assms
proof (induction evs arbitrary: sv)
  case Nil
  then show ?case using gives_none[of lib sv] by (simp add: if_distrib cong: if_cong)
next
  case (Cons ev evs)
  then obtain sv1 where sv1: "reg_deliver lib (ev_to ev) (toServerMessage ev) sv = Some (Inr (), sv1)"
    "dispatchOutgoing lib evs sv1 = Some (Inr (), sv')"
    by (auto simp: seqn_def split: option.splits prod.splits sum.splits)
  have reg: "live sv d \<Longrightarrow> sv_registry sv1 d = sv_registry sv d" for d using gives_reg_deliver[OF sv1(1)] by (simp add: gives_def)
  show ?case
    by (rule gives_cong[OF gives_trans[OF gives_reg_deliver[OF sv1(1)] Cons.IH[OF sv1(2)]]]) (auto simp: reg)
qed

subsection \<open>The session layer implements the outcome\<close>

definition taken :: "ClientId \<Rightarrow> Outcome \<Rightarrow> Server \<Rightarrow> Server" where
  "taken c oc sv = upd_session c (\<lambda>s. s\<lparr>s_currentRoom := oc_room oc\<rparr>)
     (sv\<lparr>sv_core := oc_core oc, sv_enqueued := sv_enqueued sv @ oc_saved oc\<rparr>)"

definition owed :: "ClientId \<Rightarrow> Outcome \<Rightarrow> Server \<Rightarrow> ClientId \<Rightarrow> ServerMessage list" where
  "owed c oc sv d = (if sv_registry sv d then map toServerMessage (filter (\<lambda>ev. ev_to ev = d) (oc_events oc)) else []) @
     (if d = c then oc_reply oc else [])"

lemma same_state: "sv\<lparr>sv_core := sv_core sv, sv_enqueued := sv_enqueued sv\<rparr> = sv"
  by (cases sv) simp

lemma taken_same:
  assumes "oc_core oc = sv_core sv" "oc_saved oc = []" "oc_room oc = s_currentRoom (the_session sv c)"
  shows "taken c oc sv = sv"
  using assms by (simp add: taken_def same_state) (rule upd_session_same, simp)

lemma taken_core:
  assumes "oc_room oc = s_currentRoom (the_session sv c)"
  shows "taken c oc sv = sv\<lparr>sv_core := oc_core oc, sv_enqueued := sv_enqueued sv @ oc_saved oc\<rparr>"
  unfolding taken_def by (rule upd_session_same) (simp add: assms the_session_def)

lemma reply_gives:
  assumes "deliver lib c m (taken c oc sv) = Some (Inr (), sv')" "oc_events oc = []" "oc_reply oc = [m]"
  shows "gives lib (owed c oc sv) (taken c oc sv) sv'"
proof (rule gives_cong[OF gives_deliver[OF assms(1)]])
  show "(if d = c then [m] else []) = owed c oc sv d" for d using assms(2,3) by (simp add: owed_def)
qed

lemma refuse_gives:
  assumes "sendError lib c e sv = Some (Inr (), sv')" "oc = refuse (sv_core sv) (s_currentRoom (the_session sv c)) e"
  shows "gives lib (owed c oc sv) (taken c oc sv) sv'"
proof (rule reply_gives)
  have "taken c oc sv = sv" by (rule taken_same) (simp_all add: assms(2) refuse_def)
  then show "deliver lib c (toErrorMessage e) (taken c oc sv) = Some (Inr (), sv')" using assms(1) by (simp add: sendError_def)
qed (simp_all add: assms(2) refuse_def)

lemma seqn_Inr:
  assumes "seqn m f sv = Some (Inr v, sv'')"
  obtains a sv' where "m sv = Some (Inr a, sv')" "f a sv' = Some (Inr v, sv'')"
  using assms by (auto simp: seqn_def split: option.splits prod.splits sum.splits)

lemma join_refines:
  assumes "handleJoin lib c room sv = Some (Inr (), sv')"
  shows "\<exists>oc. request_outcome now (sv_core sv) (s_currentRoom (the_session sv c)) c (JoinRoomRequest room) = Some oc \<and>
    gives lib (owed c oc sv) (taken c oc sv) sv'"
proof (cases "s_currentRoom (the_session sv c) \<noteq> None \<and> s_currentRoom (the_session sv c) \<noteq> Some room")
  case True
  then have "sendError lib c (invalidParams ''session already joined to another room'') sv = Some (Inr (), sv')"
    using assms by (simp add: handleJoin_def getCurrentRoom_def seqn_def)
  from refuse_gives[OF this refl] show ?thesis using True by simp
next
  case False
  obtain res core' where j: "joinRoom (sv_core sv) c room = (res, core')" by (cases "joinRoom (sv_core sv) c room")
  show ?thesis
  proof (cases res)
    case (Inl e)
    let ?oc = "refuse core' (s_currentRoom (the_session sv c)) e"
    have "taken c ?oc sv = sv\<lparr>sv_core := core'\<rparr>" by (simp add: refuse_def taken_core)
    then have "deliver lib c (toErrorMessage e) (taken c ?oc sv) = Some (Inr (), sv')"
      using assms False j Inl by (auto simp: handleJoin_def getCurrentRoom_def seqn_def core_joinRoom_def sendError_def)
    then have "gives lib (owed c ?oc sv) (taken c ?oc sv) sv'" by (rule reply_gives) (simp_all add: refuse_def)
    then show ?thesis using False j Inl by auto
  next
    case (Inr snap)
    let ?oc = "\<lparr>oc_events = [], oc_reply = [toSnapshotMessage snap], oc_saved = [], oc_core = core', oc_room = Some room\<rparr>"
    have "deliver lib c (toSnapshotMessage snap) (taken c ?oc sv) = Some (Inr (), sv')"
      using assms False j Inr by (auto simp: handleJoin_def getCurrentRoom_def seqn_def core_joinRoom_def setCurrentRoom_def taken_def)
    then have "gives lib (owed c ?oc sv) (taken c ?oc sv) sv'" by (rule reply_gives) simp_all
    then show ?thesis using False j Inr by auto
  qed
qed

lemma events_gives:
  assumes "dispatchOutgoing lib out (taken c oc sv) = Some (Inr (), sv1)" "oc_events oc = out" "oc_reply oc = []"
  shows "gives lib (owed c oc sv) (taken c oc sv) sv1"
proof (rule gives_cong[OF gives_dispatch[OF assms(1)]])
  have "sv_registry (taken c oc sv) = sv_registry sv" by (simp add: taken_def)
  then show "(if sv_registry (taken c oc sv) d then map toServerMessage (filter (\<lambda>ev. ev_to ev = d) out) else []) = owed c oc sv d" for d
    using assms(2,3) by (simp add: owed_def)
qed

lemma leave_refines:
  assumes "handleLeave lib c room sv = Some (Inr (), sv')"
  shows "\<exists>oc. request_outcome now (sv_core sv) (s_currentRoom (the_session sv c)) c (LeaveRoomRequest room) = Some oc \<and>
    gives lib (owed c oc sv) (taken c oc sv) sv'"
proof (cases "s_currentRoom (the_session sv c) = Some room")
  case False
  then have "sendError lib c notInRoom sv = Some (Inr (), sv')"
    using assms by (simp add: handleLeave_def getCurrentRoom_def seqn_def)
  from refuse_gives[OF this refl] show ?thesis using False by simp
next
  case True
  obtain res sn core' where l: "leaveRoom (sv_core sv) c room = Some (res, sn, core')"
    using assms True by (cases "leaveRoom (sv_core sv) c room") (auto simp: handleLeave_def getCurrentRoom_def seqn_def core_leaveRoom_def)
  show ?thesis
  proof (cases res)
    case (Inl e)
    let ?oc = "(refuse core' (Some room) e)\<lparr>oc_saved := sn\<rparr>"
    have "deliver lib c (toErrorMessage e) (taken c ?oc sv) = Some (Inr (), sv')"
      using assms True l Inl
      by (auto simp: handleLeave_def getCurrentRoom_def seqn_def core_leaveRoom_def sendError_def refuse_def taken_core)
    then have "gives lib (owed c ?oc sv) (taken c ?oc sv) sv'" by (rule reply_gives) (simp_all add: refuse_def)
    then show ?thesis using True l Inl by auto
  next
    case (Inr out)
    let ?oc = "\<lparr>oc_events = out, oc_reply = [], oc_saved = sn, oc_core = core', oc_room = None\<rparr>"
    let ?oc' = "?oc\<lparr>oc_reply := [OkResponse ''leave_room'' room]\<rparr>"
    have same: "taken c ?oc' sv = taken c ?oc sv" by (simp add: taken_def)
    obtain sv1 where d: "dispatchOutgoing lib out (taken c ?oc sv) = Some (Inr (), sv1)"
      "deliver lib c (OkResponse ''leave_room'' room) sv1 = Some (Inr (), sv')"
      using assms True l Inr
      by (auto simp: handleLeave_def getCurrentRoom_def core_leaveRoom_def setCurrentRoom_def taken_def elim!: seqn_Inr)
    have "gives lib (\<lambda>d. owed c ?oc sv d @ (if d = c then [OkResponse ''leave_room'' room] else [])) (taken c ?oc sv) sv'"
      using events_gives[OF d(1)] by (intro gives_trans[OF _ gives_deliver[OF d(2)]]) simp
    then have "gives lib (owed c ?oc' sv) (taken c ?oc' sv) sv'"
      unfolding same by (rule gives_cong) (simp add: owed_def)
    then show ?thesis using True l Inr by auto
  qed
qed

lemma outcome_draw:
  assumes "request_room msg = Some room" "toCoreEvent msg = Some event"
  shows "request_outcome now core cur c msg =
      (if cur \<noteq> Some room then Some (refuse core cur notInRoom)
       else case event of
           Inl e \<Rightarrow> Some (refuse core cur e)
         | Inr ev \<Rightarrow> (case handleEvent core now c room ev of
             None \<Rightarrow> None
           | Some (Inl e, sn, core') \<Rightarrow> Some ((refuse core' cur e)\<lparr>oc_saved := sn\<rparr>)
           | Some (Inr out, sn, core') \<Rightarrow> Some \<lparr>oc_events = out, oc_reply = [], oc_saved = sn, oc_core = core', oc_room = cur\<rparr>))"
  using assms by (cases msg) auto

lemma draw_refines:
  assumes "handleDraw lib now c room event sv = Some (Inr (), sv')"
    and "request_room msg = Some room" "toCoreEvent msg = Some event"
  shows "\<exists>oc. request_outcome now (sv_core sv) (s_currentRoom (the_session sv c)) c msg = Some oc \<and>
    gives lib (owed c oc sv) (taken c oc sv) sv'"
proof -
  let ?cur = "s_currentRoom (the_session sv c)"
  note oc = outcome_draw[OF assms(2,3), of now "sv_core sv" ?cur c]
  consider "?cur \<noteq> Some room" | e where "?cur = Some room" "event = Inl e" | ev where "?cur = Some room" "event = Inr ev"
    by (cases event) auto
  then show ?thesis
  proof cases
    case 1
    then have "sendError lib c notInRoom sv = Some (Inr (), sv')"
      using assms(1) by (simp add: handleDraw_def getCurrentRoom_def seqn_def)
    from refuse_gives[OF this refl] show ?thesis using 1 oc by simp
  next
    case (2 e)
    then have "sendError lib c e sv = Some (Inr (), sv')"
      using assms(1) by (simp add: handleDraw_def getCurrentRoom_def seqn_def)
    from refuse_gives[OF this refl] show ?thesis using 2 oc by simp
  next
    case (3 ev)
    obtain res sn core' where h: "handleEvent (sv_core sv) now c room ev = Some (res, sn, core')"
      using assms(1) 3 by (cases "handleEvent (sv_core sv) now c room ev")
        (auto simp: handleDraw_def getCurrentRoom_def seqn_def core_handleEvent_def)
    show ?thesis
    proof (cases res)
      case (Inl e)
      let ?oc = "(refuse core' ?cur e)\<lparr>oc_saved := sn\<rparr>"
      have "deliver lib c (toErrorMessage e) (taken c ?oc sv) = Some (Inr (), sv')"
        using assms(1) 3 h Inl
        by (auto simp: handleDraw_def getCurrentRoom_def seqn_def core_handleEvent_def sendError_def refuse_def taken_core)
      then have "gives lib (owed c ?oc sv) (taken c ?oc sv) sv'" by (rule reply_gives) (simp_all add: refuse_def)
      then show ?thesis using 3 h Inl oc by auto
    next
      case (Inr out)
      let ?oc = "\<lparr>oc_events = out, oc_reply = [], oc_saved = sn, oc_core = core', oc_room = ?cur\<rparr>"
      have "dispatchOutgoing lib out (taken c ?oc sv) = Some (Inr (), sv')"
        using assms(1) 3 h Inr by (auto simp: handleDraw_def getCurrentRoom_def seqn_def core_handleEvent_def taken_core)
      then have "gives lib (owed c ?oc sv) (taken c ?oc sv) sv'" by (rule events_gives) simp_all
      then show ?thesis using 3 h Inr oc by auto
    qed
  qed
qed

lemma message_gives:
  assumes "handleMessage lib now c msg sv = Some (Inr (), sv')"
  shows "\<exists>oc. request_outcome now (sv_core sv) (s_currentRoom (the_session sv c)) c msg = Some oc \<and>
    gives lib (owed c oc sv) (taken c oc sv) sv'"
proof -
  let ?cur = "s_currentRoom (the_session sv c)"
  have draw: ?thesis if "handleMessage lib now c msg = handleDraw lib now c room event"
    "request_room msg = Some room" "toCoreEvent msg = Some event" for room event
    using draw_refines[OF _ that(2,3), of lib now c sv sv'] assms that(1) by simp
  show ?thesis
  proof (cases msg)
    case PingRequest
    let ?oc = "\<lparr>oc_events = [], oc_reply = [PongResponse], oc_saved = [], oc_core = sv_core sv, oc_room = ?cur\<rparr>"
    have "taken c ?oc sv = sv" by (rule taken_same) simp_all
    then have "deliver lib c PongResponse (taken c ?oc sv) = Some (Inr (), sv')"
      using assms PingRequest by (simp add: handleMessage_def)
    then have "gives lib (owed c ?oc sv) (taken c ?oc sv) sv'" by (rule reply_gives) simp_all
    then show ?thesis using PingRequest by auto
  next
    case CreateRoomRequest
    obtain rid core' where cr: "createRoom (sv_core sv) = (rid, core')" by (cases "createRoom (sv_core sv)")
    let ?oc = "\<lparr>oc_events = [], oc_reply = [RoomCreatedResponse rid], oc_saved = [], oc_core = core', oc_room = ?cur\<rparr>"
    have "deliver lib c (RoomCreatedResponse rid) (taken c ?oc sv) = Some (Inr (), sv')"
      using assms CreateRoomRequest cr by (simp add: handleMessage_def core_createRoom_def seqn_def taken_core)
    then have "gives lib (owed c ?oc sv) (taken c ?oc sv) sv'" by (rule reply_gives) simp_all
    then show ?thesis using CreateRoomRequest cr by auto
  next
    case (JoinRoomRequest room)
    then show ?thesis using join_refines[of lib c room sv sv' now] assms by (simp add: handleMessage_def)
  next
    case (LeaveRoomRequest room)
    then show ?thesis using leave_refines[of lib c room sv sv' now] assms by (simp add: handleMessage_def)
  qed (rule draw; simp add: handleMessage_def)+
qed

text \<open>
  C5: A handled request does exactly what the pure function \<open>request_outcome\<close> says. The core, the saved snapshots and the
  session's room are those of the outcome; every live client whose session is registered is posted the lines of the events
  addressed to it, the requester also the reply, in this order; nothing else is posted to anyone.
\<close>

theorem request_refines:
  assumes "live sv c" "handleMessage lib now c msg sv = Some (Inr (), sv')"
  shows "\<exists>oc. request_outcome now (sv_core sv) (s_currentRoom (the_session sv c)) c msg = Some oc \<and>
    sv_core sv' = oc_core oc \<and> sv_enqueued sv' = sv_enqueued sv @ oc_saved oc \<and>
    s_currentRoom (the_session sv' c) = oc_room oc \<and>
    (\<forall>d. live sv d \<longrightarrow> live sv' d \<and> s_posted (the_session sv' d) = s_posted (the_session sv d) @
       map (\<lambda>m. PostLine (line_of lib m))
         ((if sv_registry sv d then map toServerMessage (filter (\<lambda>ev. ev_to ev = d) (oc_events oc)) else []) @
          (if d = c then oc_reply oc else [])))"
proof -
  obtain oc where oc: "request_outcome now (sv_core sv) (s_currentRoom (the_session sv c)) c msg = Some oc"
    "gives lib (owed c oc sv) (taken c oc sv) sv'" using message_gives[OF assms(2)] by blast
  have ses: "the_session sv' d = (the_session (taken c oc sv) d)\<lparr>s_posted := s_posted (the_session (taken c oc sv) d) @
      map (\<lambda>m. PostLine (line_of lib m)) (owed c oc sv d)\<rparr>" "live sv' d" if "live sv d" for d
  proof -
    have "live (taken c oc sv) d" using that by (auto simp: taken_def live_def)
    then show "the_session sv' d = (the_session (taken c oc sv) d)\<lparr>s_posted := s_posted (the_session (taken c oc sv) d) @
        map (\<lambda>m. PostLine (line_of lib m)) (owed c oc sv d)\<rparr>" "live sv' d"
      using oc(2) by (auto simp: gives_def the_session_def live_def)
  qed
  have t: "sv_core (taken c oc sv) = oc_core oc" "sv_enqueued (taken c oc sv) = sv_enqueued sv @ oc_saved oc"
    "s_posted (the_session (taken c oc sv) d) = s_posted (the_session sv d)"
    "s_currentRoom (the_session (taken c oc sv) c) = oc_room oc" for d
    using assms(1) by (cases "d = c"; auto simp: taken_def live_def the_session_def upd_session_def)+
  show ?thesis using oc ses t assms(1) by (intro exI[of _ oc]) (simp add: gives_def owed_def)
qed

text \<open>Two clients in one room; the first clears the board.\<close>

definition pair_run :: "string \<Rightarrow> string \<Rightarrow> ServerLabel list" where
  "pair_run l1 l2 = [Accept, Accept, RunPosted 1, RunPosted 2, Receive 1 l1, OnRead 0 1, Receive 1 l2, OnRead 0 1,
     Receive 2 l2, OnRead 0 2]"

lemma pair_run_exec:
  assumes "parseClientMessage lib l1 = Inr CreateRoomRequest" "parseClientMessage lib l2 = Inr (JoinRoomRequest 1)"
    and "CHR 0x0A \<notin> set l1" "CHR 0x0A \<notin> set l2" "\<And>m. serializeServerMessage lib m = Inr (ser m)"
  shows "\<exists>sv sv' oc. run_labels lib (pair_run l1 l2) (started_server (new_core sink)) = Some sv \<and> live sv 1 \<and> live sv 2 \<and>
    sv_registry sv 2 \<and> handleMessage lib 0 1 (ClearRequest 1) sv = Some (Inr (), sv') \<and>
    request_outcome 0 (sv_core sv) (s_currentRoom (the_session sv 1)) 1 (ClearRequest 1) = Some oc \<and>
    oc_reply oc = [] \<and> map (\<lambda>ev. (ev_to ev, toServerMessage ev)) (oc_events oc) = [(2, ClearEvent 1 1 1)]"
  using assms by (simp add: pair_run_def server_eval handleDraw_def core_handleEvent_def dispatchOutgoing.simps reg_deliver_def
      reg_find_def toServerMessage_def shouldSave_def)

theorem request_refines_witness:
  "\<exists>l1 l2 sv sv'. server_run plain_json (started_server (new_core True)) (pair_run l1 l2) sv \<and>
     handleMessage plain_json 0 1 (ClearRequest 1) sv = Some (Inr (), sv') \<and>
     s_posted (the_session sv' 2) = s_posted (the_session sv 2) @ [PostLine (line_of plain_json (ClearEvent 1 1 1))] \<and>
     s_posted (the_session sv' 1) = s_posted (the_session sv 1)"
proof -
  obtain l1 where l1: "CHR 0x0A \<notin> set l1" "parseClientMessage plain_json l1 = Inr CreateRoomRequest"
    by (rule plain_request[of CreateRoomRequest]) simp_all
  obtain l2 where l2: "CHR 0x0A \<notin> set l2" "parseClientMessage plain_json l2 = Inr (JoinRoomRequest 1)"
    by (rule plain_request[of "JoinRoomRequest 1"]) simp_all
  obtain ser where ser: "\<And>m. serializeServerMessage plain_json m = Inr (ser m)" using plain_serialize by blast
  obtain sv sv' oc where sv: "run_labels plain_json (pair_run l1 l2) (started_server (new_core True)) = Some sv"
    "live sv 1" "live sv 2" "sv_registry sv 2" "handleMessage plain_json 0 1 (ClearRequest 1) sv = Some (Inr (), sv')"
    "request_outcome 0 (sv_core sv) (s_currentRoom (the_session sv 1)) 1 (ClearRequest 1) = Some oc"
    "oc_reply oc = []" "map (\<lambda>ev. (ev_to ev, toServerMessage ev)) (oc_events oc) = [(2, ClearEvent 1 1 1)]"
    using pair_run_exec[OF l1(2) l2(2) l1(1) l2(1) ser, of True] by (elim exE conjE)
  obtain ev where ev: "oc_events oc = [ev]" "ev_to ev = 2" "toServerMessage ev = ClearEvent 1 1 1" using sv(8) by auto
  have "s_posted (the_session sv' d) = s_posted (the_session sv d) @ map (\<lambda>m. PostLine (line_of plain_json m))
      ((if sv_registry sv d then map toServerMessage (filter (\<lambda>ev. ev_to ev = d) (oc_events oc)) else []) @
       (if d = 1 then oc_reply oc else []))" if "live sv d" for d
    using request_refines[OF sv(2,5)] sv(6) that by auto
  from this[OF sv(3)] this[OF sv(2)] show ?thesis
    using run_labels_run[OF sv(1)] sv(4,5,7) ev by (intro exI conjI) (assumption | simp)+
qed

end
