(* ===== verification/CS_Writer_Stop.thy ===== *)
theory CS_Writer_Stop
  imports CS_Writer
begin

text \<open>
  The end of the writer: the destructor of \<^verbatim>\<open>SnapshotWriter\<close> sets \<^verbatim>\<open>stop_\<close>, notifies the worker and joins it.
  It terminates, and it does so only after the queue was drained.
\<close>

text \<open>Steps of the worker, the destructor and of callers of \<^verbatim>\<open>enqueue\<close> still inside it; not those of \<^verbatim>\<open>flush\<close>.\<close>

fun ending_step :: "'e wlabel \<Rightarrow> bool" where
  "ending_step (FlushStart _) = False"
| "ending_step (FlushReturn _) = False"
| "ending_step (FlushWait _) = False"
| "ending_step (FlushBlock _) = False"
| "ending_step (WakeFlush _) = False"
| "ending_step _ = True"

fun worker_rank :: "WorkerPc \<Rightarrow> nat" where
  "worker_rank (WSaving _) = 4" | "worker_rank WSaved = 3" | "worker_rank WNotify = 2" | "worker_rank WAsleep = 2"
| "worker_rank WReady = 1" | "worker_rank WExited = 0"

fun dtor_rank :: "DtorPc \<Rightarrow> nat" where
  "dtor_rank DNone = 3" | "dtor_rank DStopped = 2" | "dtor_rank DJoining = 1" | "dtor_rank DFinished = 0"

definition steps_left :: "'s Writer \<Rightarrow> nat" where
  "steps_left w = 4 * length (w_q w) + worker_rank (w_worker w) + w_notifying w + dtor_rank (w_dtor w)"

lemma ending_decreases:
  assumes "writer_step ops w l w'" "w_stop w" "w_entering w = []" "\<And>snap. l \<noteq> EnqAdd snap"
  shows "steps_left w' + of_bool (ending_step l) \<le> steps_left w \<and> w_stop w' \<and> w_entering w' = [] \<and> pushed1 l = []"
  using assms by (elim writer_stepEs) (auto simp: steps_left_def)

lemma ending_run:
  assumes "writer_run ops w tr w'" "w_stop w" "w_entering w = []" "\<And>snap. EnqAdd snap \<notin> set tr"
  shows "steps_left w' + length (filter ending_step tr) \<le> steps_left w \<and> w_stop w' \<and> w_entering w' = [] \<and> pushed tr = []"
  using assms
proof (induction rule: writer_run.induct)
  case (extend tr w1 l w2)
  then have "steps_left w1 + length (filter ending_step tr) \<le> steps_left w" "w_stop w1" "w_entering w1 = []" "pushed tr = []"
    by simp_all
  moreover have "l \<noteq> EnqAdd snap" for snap using extend.prems(3)[of snap] by auto
  ultimately show ?case using ending_decreases[OF extend.hyps(2)] by force
qed simp

lemma writer_run_append:
  assumes "writer_run ops w tr' w'" "writer_run ops w0 tr w"
  shows "writer_run ops w0 (tr @ tr') w'"
  using assms
proof (induction rule: writer_run.induct)
  case (extend tr' w1 l w2)
  then show ?case using writer_run.extend[of ops w0 "tr @ tr'" w1 l w2] by simp
qed simp

lemma ending_goes_on:
  assumes "awake w" "w_stop w" "w_dtor w \<noteq> DFinished"
    and "\<And>snap. in_hand (w_worker w) = [snap] \<Longrightarrow> process_task ops (w_keepLatest w) (w_store w) snap e1 e2 \<noteq> None"
  shows "\<exists>l w'. ending_step l \<and> l \<noteq> WakeWorker \<and> (\<forall>snap. l \<noteq> EnqAdd snap) \<and> writer_step ops w l w'"
proof -
  have go: ?thesis if "run_step ops w l w' \<or> dtor_step w l w' \<or> enqueue_step w l w'" "ending_step l"
    "l \<noteq> WakeWorker" "\<And>snap. l \<noteq> EnqAdd snap" for l w'
    using that writer_step.intros by metis
  have d: "w_dtor w = DStopped \<or> w_dtor w = DJoining" using assms(1-3) by (cases "w_dtor w") (simp_all add: awake_def)
  have stopped: ?thesis if "w_dtor w = DStopped"
    using go dtor_step.intros(2)[OF that] by (metis ending_step.simps wlabel.distinct)
  show ?thesis
  proof (cases "w_worker w")
    case WReady
    then show ?thesis
      using go[OF disjI1[OF run_step.intros(1)[of w]]] go[OF disjI1[OF run_step.intros(3)[of w]]] assms(2)
      by (cases "w_q w") simp_all
  next
    case WAsleep
    then have "0 < w_notifying w \<or> w_dtor w = DStopped" using assms(1,2) by (simp add: awake_def)
    then show ?thesis
      using stopped go[OF disjI2[OF disjI2[OF enqueue_step.intros(3)[of w]]]] by (cases "w_notifying w") auto
  next
    case (WSaving snap)
    then show ?thesis using go[OF disjI1[OF run_step.intros(4)[of w snap]]] assms(4)[of snap] by fastforce
  next
    case WSaved
    then show ?thesis using go[OF disjI1[OF run_step.intros(5)[of w]]] by simp
  next
    case WNotify
    then show ?thesis using go[OF disjI1[OF run_step.intros(6)[of w]]] by simp
  next
    case WExited
    then show ?thesis using d stopped go[OF disjI2[OF disjI1[OF dtor_step.intros(3)[of w]]]] by auto
  qed
qed

lemma exited_empty:
  assumes "writer_run ops w tr w'" "w_stop w" "w_entering w = []" "\<And>snap. EnqAdd snap \<notin> set tr"
    and "w_worker w \<noteq> WExited" "w_dtor w \<noteq> DFinished"
  shows "(w_worker w' = WExited \<longrightarrow> w_q w' = []) \<and> (w_dtor w' = DFinished \<longrightarrow> w_worker w' = WExited)"
  using assms
proof (induction rule: writer_run.induct)
  case (extend tr w1 l w2)
  then have ih: "(w_worker w1 = WExited \<longrightarrow> w_q w1 = []) \<and> (w_dtor w1 = DFinished \<longrightarrow> w_worker w1 = WExited)" by simp
  have "w_entering w1 = []" using ending_run[OF extend.hyps(1)] extend.prems by simp
  with extend.hyps(2) ih show ?case by (elim writer_stepEs) auto
qed simp

lemma dtor_starts:
  assumes "new_writer (Some ops) e st keep = Inr w0" "writer_run ops w0 (tr @ [DtorStop]) w"
  shows "w_stop w" "w_worker w \<noteq> WExited" "w_dtor w = DStopped" "awake w"
proof -
  obtain v where v: "writer_run ops w0 tr v" "writer_step ops v DtorStop w"
    using writer_run_snocD[OF assms(2)] by blast
  show "awake w" using run_awake[OF assms(2)] new_writer_fields(5)[OF assms(1)] by blast
  have "awake v" using run_awake[OF v(1)] new_writer_fields(5)[OF assms(1)] by blast
  then show "w_stop w" "w_worker w \<noteq> WExited" "w_dtor w = DStopped"
    using v(2) by (auto elim!: writer_stepEs simp: awake_def)
qed

text \<open>
  C17: The destructor terminates and loses nothing. When it begins while no caller is inside \<^verbatim>\<open>enqueue\<close> before
  its push, then in every interleaving, waiting \<^verbatim>\<open>flush\<close> calls and spurious wakeups included, the worker, the
  destructor and the pending notifications take at most \<open>4 n + k + 6\<close> steps, where \<open>n\<close> snapshots are queued and
  \<open>k\<close> notifications outstanding. As long as the destructor has not returned, one of these steps is possible without
  a spurious wakeup. When it has returned, every pushed snapshot was handed to the store.
\<close>

theorem destructor_terminates:
  assumes "new_writer (Some ops) e st keep = Inr w0" "writer_run ops w0 (tr @ [DtorStop]) w" "w_entering w = []"
    and "writer_run ops w tr' w'" "\<And>snap. EnqAdd snap \<notin> set tr'"
    and "\<And>s snap. snap \<in> set (pushed tr) \<Longrightarrow> process_task ops keep s snap e1 e2 \<noteq> None"
  shows "length (filter ending_step tr') \<le> 4 * length (w_q w) + w_notifying w + 6 \<and>
    (if w_dtor w' = DFinished then map fst (processed (tr @ tr')) = pushed tr
     else \<exists>l w''. ending_step l \<and> l \<noteq> WakeWorker \<and> (\<forall>snap. l \<noteq> EnqAdd snap) \<and> writer_step ops w' l w'')"
proof -
  note new = new_writer_fields[OF assms(1)] and st = dtor_starts[OF assms(1,2)]
  have rank: "steps_left w \<le> 4 * length (w_q w) + w_notifying w + 6"
    using st(3) by (cases "w_worker w") (simp_all add: steps_left_def)
  note run = ending_run[OF assms(4) st(1) assms(3,5)]
  have whole: "writer_run ops w0 ((tr @ [DtorStop]) @ tr') w'" by (rule writer_run_append[OF assms(4,2)])
  have fifo: "map fst (processed (tr @ tr')) @ in_hand (w_worker w') @ w_q w' = pushed tr"
    using run_fifo[OF whole new(1,2)] run by simp
  have keep: "w_keepLatest w' = keep" using run_store[OF whole] new(6) by simp
  have "\<exists>l w''. ending_step l \<and> l \<noteq> WakeWorker \<and> (\<forall>snap. l \<noteq> EnqAdd snap) \<and> writer_step ops w' l w''"
    if "w_dtor w' \<noteq> DFinished"
  proof (rule ending_goes_on[OF _ _ that])
    show "awake w'" using run_awake[OF whole new(5)] .
    show "w_stop w'" using run by simp
    show "process_task ops (w_keepLatest w') (w_store w') snap e1 e2 \<noteq> None" if "in_hand (w_worker w') = [snap]" for snap
      unfolding keep by (rule assms(6)) (use that in \<open>simp flip: fifo\<close>)
  qed
  moreover have "map fst (processed (tr @ tr')) = pushed tr" if "w_dtor w' = DFinished"
    using exited_empty[OF assms(4) st(1) assms(3,5) st(2)] st(3) that fifo by simp
  ultimately show ?thesis using rank run by simp
qed

theorem destructor_terminates_witness:
  "\<exists>w w'. writer_run sqlite_ops sample_w0 ([EnqAdd sample_task, EnqPush sample_task] @ [DtorStop]) w \<and>
     writer_run sqlite_ops w [DtorNotify, EnqNotify, Take sample_task, Process sample_task (plain_env 100) (plain_env 101),
       Sub, NotifyAll, Exit, DtorJoin] w' \<and> w_dtor w' = DFinished \<and> 8 \<le> 4 * length (w_q w) + w_notifying w + 6 \<and>
     map fst (processed ([EnqAdd sample_task, EnqPush sample_task] @ [DtorNotify, EnqNotify, Take sample_task,
       Process sample_task (plain_env 100) (plain_env 101), Sub, NotifyAll, Exit, DtorJoin])) = [sample_task]"
proof -
  let ?tr = "[EnqAdd sample_task, EnqPush sample_task] :: SqliteEnv wlabel list"
  let ?tr' = "[DtorNotify, EnqNotify, Take sample_task, Process sample_task (plain_env 100) (plain_env 101),
       Sub, NotifyAll, Exit, DtorJoin] :: SqliteEnv wlabel list"
  obtain st where "process_task sqlite_ops 10 (ready (new_store None 0)) sample_task (plain_env 100) (plain_env 101) = Some st"
    using sample_process by blast
  then obtain w w' where w: "writer_run sqlite_ops sample_w0 (?tr @ [DtorStop]) w" "w_entering w = []"
    "writer_run sqlite_ops w ?tr' w'" "w_dtor w' = DFinished"
    by (simp add: sample_w0_def writer_eval wake_flushers_def wake_worker_def)
  from destructor_terminates[OF sample_new w(1-3), of "plain_env 100" "plain_env 101"] w(4)
  have "length (filter ending_step ?tr') \<le> 4 * length (w_q w) + w_notifying w + 6"
    "map fst (processed (?tr @ ?tr')) = pushed ?tr"
    using sample_process by simp_all
  then show ?thesis using w by (intro exI[of _ w] exI[of _ w']) simp
qed

end
