(* ===== verification/CS_Saved.thy ===== *)
theory CS_Saved
  imports CS_System CS_Replies
begin

text \<open>
  Saving under every interleaving of the whole server. \<open>will_save room sn p\<close> says of the rest \<open>p\<close> of a running handler
  that it goes on to hand \<open>sn\<close> to the writer, if the room stays without members until then; \<open>dutiful p\<close> that
  whenever an action of \<open>p\<close> leaves a room without members, the rest of \<open>p\<close> will save it. All handlers are dutiful, so a
  room without members is new, or saved, or about to be saved by a running handler.
\<close>

inductive will_save :: "RoomId \<Rightarrow> PersistedBoardSnapshot \<Rightarrow> 'a prog \<Rightarrow> bool" for room sn where
  "(\<And>sv r p sv'. \<lbrakk>getRoom (manager (sv_core sv)) room = Some r; members r = []; makePersistedSnapshot r = sn;
       snapshotSink (sv_core sv); k sv = Some (Inr p, sv')\<rbrakk> \<Longrightarrow> sn \<in> set (sv_enqueued sv') \<or> will_save room sn p) \<Longrightarrow>
   will_save room sn (Atom k)"

inductive_simps will_save_simps [simp]: "will_save room sn (Pure a)"
inductive_cases will_save_AtomE: "will_save room sn (Atom k)"

text \<open>One action, from \<open>sv\<close> to \<open>sv'\<close>, with the rest \<open>p\<close> of its program.\<close>

definition leaves_saved :: "Server \<Rightarrow> Server \<Rightarrow> 'a prog \<Rightarrow> bool" where
  "leaves_saved sv sv' p \<longleftrightarrow> snapshotSink (sv_core sv') \<and> set (sv_enqueued sv) \<subseteq> set (sv_enqueued sv') \<and>
     (\<forall>room r. getRoom (manager (sv_core sv')) room = Some r \<and> members r = [] \<longrightarrow>
        getRoom (manager (sv_core sv)) room = Some r \<or> r = new_room room \<or> will_save room (makePersistedSnapshot r) p)"

inductive dutiful :: "'a prog \<Rightarrow> bool" where
  pure: "dutiful (Pure a)"
| atom: "(\<And>sv p sv'. snapshotSink (sv_core sv) \<Longrightarrow> k sv = Some (Inr p, sv') \<Longrightarrow> leaves_saved sv sv' p \<and> dutiful p) \<Longrightarrow>
    dutiful (Atom k)"

inductive_cases dutiful_AtomE: "dutiful (Atom k)"

lemma dutiful_step:
  "dutiful (Atom k) \<Longrightarrow> snapshotSink (sv_core sv) \<Longrightarrow> k sv = Some (Inr p, sv') \<Longrightarrow> leaves_saved sv sv' p \<and> dutiful p"
  by (erule dutiful_AtomE) blast

subsection \<open>Sequential composition\<close>

lemma bindp_next:
  assumes "map_option (map_prod (map_sum id (\<lambda>p. bindp p f)) id) (k sv) = Some (Inr q, sv')"
  obtains p where "k sv = Some (Inr p, sv')" "q = bindp p f"
proof -
  obtain r where "k sv = Some (r, sv')" "map_sum id (\<lambda>p. bindp p f) r = Inr q" using assms by auto
  then show thesis using that by (cases r) auto
qed

lemma will_save_bindp: "will_save room sn p \<Longrightarrow> will_save room sn (bindp p f)"
proof (induction rule: will_save.induct)
  case (1 k)
  show ?case unfolding bindp.simps
    by (rule will_save.intros, erule bindp_next) (use 1 in blast)
qed

lemma leaves_saved_bindp: "leaves_saved sv sv' p \<Longrightarrow> leaves_saved sv sv' (bindp p f)"
  unfolding leaves_saved_def using will_save_bindp by blast

lemma dutiful_bindp:
  assumes "dutiful p" "\<And>a. dutiful (f a)"
  shows "dutiful (bindp p f)"
  using assms(1)
proof (induction rule: dutiful.induct)
  case (atom k)
  show ?case unfolding bindp.simps
    by (rule dutiful.atom, erule bindp_next) (use atom leaves_saved_bindp in blast)
qed (simp add: assms(2))

lemma atom_next:
  assumes "map_option (map_prod (map_sum id Pure) id) (m sv) = Some (Inr q, sv')"
  obtains v where "m sv = Some (Inr v, sv')" "q = Pure v"
proof -
  obtain r where "m sv = Some (r, sv')" "map_sum id Pure r = Inr q" using assms by auto
  then show thesis using that by (cases r) auto
qed

lemma will_save_then:
  assumes "\<And>sv r v sv'. \<lbrakk>getRoom (manager (sv_core sv)) room = Some r; members r = []; makePersistedSnapshot r = sn;
      snapshotSink (sv_core sv); m sv = Some (Inr v, sv')\<rbrakk> \<Longrightarrow> will_save room sn (f v)"
  shows "will_save room sn (bindp (atom m) f)"
  unfolding atom_def bindp.simps
  by (rule will_save.intros, erule bindp_next, erule atom_next) (use assms in auto)

lemma dutiful_then:
  assumes "\<And>sv v sv'. snapshotSink (sv_core sv) \<Longrightarrow> m sv = Some (Inr v, sv') \<Longrightarrow> leaves_saved sv sv' (f v)"
    and "\<And>v. dutiful (f v)"
  shows "dutiful (bindp (atom m) f)"
  unfolding atom_def bindp.simps
  by (rule dutiful.atom, erule bindp_next, erule atom_next) (use assms in auto)

lemma dutiful_single:
  assumes "\<And>sv v sv'. snapshotSink (sv_core sv) \<Longrightarrow> m sv = Some (Inr v, sv') \<Longrightarrow> leaves_saved sv sv' (Pure v)"
  shows "dutiful (atom m)"
  unfolding atom_def by (rule dutiful.atom, erule atom_next) (use assms in \<open>auto intro: dutiful.pure\<close>)

subsection \<open>The handlers\<close>

lemma will_save_leaver: "will_save room sn (save_when_empty room)"
proof -
  have enq: "will_save room sn (atom (sink_enqueue sn))"
    unfolding atom_def
    by (rule will_save.intros, erule atom_next) (auto simp: sink_enqueue_def)
  have "will_save room sn (save_prog room)"
    unfolding save_prog_def by (rule will_save_then) (use enq in \<open>auto simp: room_snapshot_def\<close>)
  then show ?thesis
    unfolding save_when_empty_def
    by (intro will_save_then) (auto simp: has_sink_def room_count_def memberCount_def intro!: will_save_then)
qed

lemma dutiful_other:
  assumes "\<And>sv r sv'. m sv = Some (r, sv') \<Longrightarrow> sv_core sv' = sv_core sv \<and> sv_enqueued sv' = sv_enqueued sv"
  shows "dutiful (atom m)"
proof (rule dutiful_single)
  fix sv v sv' assume "snapshotSink (sv_core sv)" "m sv = Some (Inr v, sv')"
  then show "leaves_saved sv sv' (Pure v)" using assms[of sv "Inr v" sv'] by (simp add: leaves_saved_def)
qed

lemma leaves_saved_put:
  assumes "snapshotSink (sv_core sv)" "getRoom (manager (sv_core sv)) room = Some r"
    and "members r' = [] \<Longrightarrow> r' = r \<or> will_save room (makePersistedSnapshot r') p"
  shows "leaves_saved sv (put_room room r' sv) p"
  using assms by (auto simp: leaves_saved_def put_room_def rm.look_store split: if_splits)

lemma dutiful_rooms:
  "dutiful (atom (room_join c room))" "dutiful (atom (room_apply now c room ev))"
  "dutiful (atom core_createRoom)" "dutiful (atom (sink_enqueue sn))"
proof -
  have "members r' \<noteq> []" if "join r c = (res, r')" for r r' res
    using that by (auto simp: join_def Let_def List.insert_def split: if_splits)
  then show "dutiful (atom (room_join c room))"
    by (intro dutiful_single)
      (auto simp: room_join_def split: option.splits prod.splits intro!: leaves_saved_put)
  show "dutiful (atom (room_apply now c room ev))"
  proof (rule dutiful_single)
    fix sv v sv' assume sv: "snapshotSink (sv_core sv)" "room_apply now c room ev sv = Some (Inr v, sv')"
    then obtain r r' where r: "getRoom (manager (sv_core sv)) room = Some r" "apply_event r now c ev = Some (v, r')"
      "sv' = put_room room r' sv" by (auto simp: room_apply_def split: option.splits)
    have "r' = r" if "members r' = []"
      using that apply_keeps_members[OF r(2)] empty_refuses(1)[of r now c ev] r(2) by simp
    then show "leaves_saved sv sv' (Pure v)" unfolding r(3) by (intro leaves_saved_put[OF sv(1) r(1)]) simp
  qed
  show "dutiful (atom core_createRoom)"
    by (rule dutiful_single) (auto simp: core_createRoom_def createRoom_def leaves_saved_def rm.look_create
        split: prod.splits if_splits)
  show "dutiful (atom (sink_enqueue sn))"
    by (rule dutiful_single) (auto simp: sink_enqueue_def leaves_saved_def)
qed

lemma dutiful_session:
  "dutiful (atom (find_room room))" "dutiful (atom (room_count room))" "dutiful (atom (room_snapshot room))"
  "dutiful (atom has_sink)" "dutiful (atom (reg_find c))"
  "dutiful (atom (deliver lib c msg))" "dutiful (atom (getCurrentRoom c))"
  "dutiful (atom (setCurrentRoom c cur))" "dutiful (atom (modify c f))"
  "dutiful (atom (exchange_stopped c))" "dutiful (atom (load_stopped c))"
  "dutiful (atom (pop_line c w))" "dutiful (atom (reg_remove c))"
  "dutiful (atom (doReadLine c))" "dutiful (atom (doWrite c))"
  "dutiful (atom (take_line c))" "dutiful (atom (take_write c))" "dutiful (atom (take_posted c))"
  "dutiful (atom new_client)" "dutiful (atom (reg_add c))"
  "dutiful (atom (session_start c))" "dutiful (atom accept_again)"
  "dutiful (atom accept_done)" "dutiful (atom (session_stop c))"
  by (rule dutiful_other; auto simp: find_room_def room_count_def room_snapshot_def has_sink_def reg_find_def deliver_def getCurrentRoom_def
      setCurrentRoom_def modify_def exchange_stopped_def load_stopped_def pop_line_def reg_remove_def doReadLine_def
      doWrite_def take_line_def take_write_def take_posted_def new_client_def reg_add_def session_start_def session_stop_def accept_again_def accept_done_def
      doAccept_def post_def ret_def Let_def split: option.splits if_splits sum.splits list.splits ReadOp.splits Posted.splits)+

lemmas dutiful_rules = dutiful_bindp dutiful.pure dutiful_rooms dutiful_session

lemma dutiful_leave: "dutiful (leaveRoom_prog c room)"
proof -
  let ?rest = "\<lambda>res :: OutgoingEvent list expected. case res of
      Inl e \<Rightarrow> Pure (Inl e) | Inr out \<Rightarrow> bindp (save_when_empty room) (\<lambda>_. Pure (Inr out))"
  have "leaves_saved sv sv' (?rest res)"
    if sink: "snapshotSink (sv_core sv)" and l: "room_leave c room sv = Some (Inr res, sv')" for sv sv' res
  proof -
    obtain r r' where r: "getRoom (manager (sv_core sv)) room = Some r" "leave r c = Some (res, r')" "sv' = put_room room r' sv"
      using l by (auto simp: room_leave_def split: option.splits)
    have "r' = r \<or> will_save room (makePersistedSnapshot r') (?rest res)"
      using refused_same(2)[of r c _ r'] r(2) will_save_bindp[OF will_save_leaver] by (cases res) auto
    then show ?thesis unfolding r(3) by (intro leaves_saved_put[OF sink r(1)])
  qed
  moreover have "dutiful (save_when_empty room)"
    by (auto simp: save_when_empty_def save_prog_def intro!: dutiful_rules)
  ultimately have "dutiful (bindp (atom (room_leave c room)) ?rest)"
    by (intro dutiful_then) (auto intro!: dutiful_rules split: sum.splits)
  then show ?thesis by (auto simp: leaveRoom_prog_def intro!: dutiful_rules)
qed

lemma dutiful_core: "dutiful (joinRoom_prog c room)" "dutiful (handleEvent_prog now c room ev)"
  by (auto simp: joinRoom_prog_def handleEvent_prog_def save_after_def save_prog_def intro!: dutiful_rules split: sum.splits)

lemma dutiful_dispatch: "dutiful (dispatchOutgoing_prog lib evs)"
  by (induction evs) (auto simp: reg_deliver_prog_def intro!: dutiful_rules)

lemma dutiful_requests:
  "dutiful (handleJoin_prog lib c room)" "dutiful (handleLeave_prog lib c room)"
  "dutiful (handleDraw_prog lib now c room event)"
  by (auto simp: handleJoin_prog_def handleLeave_prog_def handleDraw_prog_def sendError_def
      intro!: dutiful_rules dutiful_core dutiful_leave dutiful_dispatch split: sum.splits)

lemma dutiful_handleLine: "dutiful (handleLine_prog lib now c line)"
  by (auto simp: handleLine_prog_def handleMessage_prog_def sendProtocolError_def sendError_def simp del: protocolToCoreError.simps
      toCoreEvent.simps intro!: dutiful_rules dutiful_requests split: sum.splits ClientMessage.splits option.splits)

lemma dutiful_stop: "dutiful (stopImpl_prog lib c)"
  by (auto simp: stopImpl_prog_def intro!: dutiful_rules dutiful_leave dutiful_dispatch split: option.splits sum.splits)

lemma dutiful_label: "dutiful (label_prog lib l)"
proof -
  have destroy: "dutiful (atom (\<lambda>sv. Some (Inr (), sv\<lparr>sv_sessions := (sv_sessions sv)(c := None)\<rparr>)))" for c
    by (rule dutiful_other) auto
  show ?thesis
    by (cases l) (auto simp: label_prog_def onAccept_prog_def onReadLine_prog_def onWrite_prog_def runPosted_prog_def
        intro!: dutiful_rules dutiful_handleLine dutiful_stop destroy split: option.splits Posted.splits)
qed

subsection \<open>All handlers together\<close>

definition saved_with :: "Server \<Rightarrow> unit prog set \<Rightarrow> bool" where
  "saved_with sv R \<longleftrightarrow> snapshotSink (sv_core sv) \<and> (\<forall>p\<in>R. dutiful p) \<and>
     (\<forall>room r. getRoom (manager (sv_core sv)) room = Some r \<and> members r = [] \<longrightarrow>
        r = new_room room \<or> makePersistedSnapshot r \<in> set (sv_enqueued sv) \<or>
        (\<exists>p\<in>R. will_save room (makePersistedSnapshot r) p))"

definition running :: "Sys \<Rightarrow> unit prog set" where
  "running s = ran (sys_strand s) \<union> set_option (sys_acc s)"

text \<open>Whoever was to save a room has done so or still will, and an action that empties a room is followed by its saving.\<close>

lemma saved_act:
  assumes "saved_with sv R" "Atom k \<in> R" "k sv = Some (Inr p, sv')"
    and R': "R \<subseteq> insert (Atom k) R'" "p \<in> R'" "R' \<subseteq> insert p R"
  shows "saved_with sv' R'"
proof -
  have d: "leaves_saved sv sv' p" "dutiful p"
    using dutiful_step[of k sv p sv'] assms(1-3) by (auto simp: saved_with_def)
  have "r = new_room room \<or> makePersistedSnapshot r \<in> set (sv_enqueued sv') \<or>
      (\<exists>q\<in>R'. will_save room (makePersistedSnapshot r) q)"
    if r: "getRoom (manager (sv_core sv')) room = Some r" "members r = []" for room r
  proof (cases "getRoom (manager (sv_core sv)) room = Some r")
    case True
    let ?sn = "makePersistedSnapshot r"
    have "?sn \<in> set (sv_enqueued sv') \<or> will_save room ?sn p" if "will_save room ?sn (Atom k)"
      using that True r(2) assms(1,3) by (auto simp: saved_with_def elim!: will_save_AtomE)
    moreover have "r = new_room room \<or> ?sn \<in> set (sv_enqueued sv) \<or> (\<exists>q\<in>R. will_save room ?sn q)"
      using assms(1) True r(2) unfolding saved_with_def by blast
    ultimately show ?thesis using d(1) R' unfolding leaves_saved_def by blast
  next
    case False
    then show ?thesis using d(1) r R'(2) by (auto simp: leaves_saved_def)
  qed
  then show ?thesis using assms(1) d R'(3) by (auto simp: saved_with_def leaves_saved_def)
qed

lemma saved_same:
  assumes "saved_with sv R" "sv_core sv' = sv_core sv" "sv_enqueued sv' = sv_enqueued sv"
    and "R \<subseteq> insert (Pure ()) R'" "\<And>p. p \<in> R' \<Longrightarrow> p \<in> R \<or> dutiful p"
  shows "saved_with sv' R'"
  using assms unfolding saved_with_def by (metis insertE subsetD will_save_simps)

lemma ran_upd: "ran m \<subseteq> set_option (m c) \<union> ran (m(c := v))" "ran (m(c := v)) \<subseteq> set_option v \<union> ran m"
  by (force simp: ran_def split: if_splits)+

lemma saved_step:
  assumes "saved_with (sys_sv s) (running s)" "sys_step lib s s'"
  shows "saved_with (sys_sv s') (running s')"
  using assms(2)
proof cases
  case (network l c line sv')
  then have "sv_core sv' = sv_core (sys_sv s)" "sv_enqueued sv' = sv_enqueued (sys_sv s)"
    by (auto simp: run_label_def session_stop_def post_def)
  then show ?thesis using network(1) by (intro saved_same[OF assms(1)]) (auto simp: running_def)
next
  case (destroy c sv')
  then have "sv_core sv' = sv_core (sys_sv s)" "sv_enqueued sv' = sv_enqueued (sys_sv s)"
    by (auto simp: run_label_def)
  then show ?thesis using destroy(1) by (intro saved_same[OF assms(1)]) (auto simp: running_def)
next
  case (call l c)
  then show ?thesis using ran_upd[of "sys_strand s" c "Some (label_prog lib l)"]
    by (intro saved_same[OF assms(1)]) (auto simp: running_def dutiful_label)
next
  case (strand c k p sv')
  show ?thesis
  proof (rule saved_act[OF assms(1)])
    show "Atom k \<in> running s" using strand(2) by (auto simp: running_def intro: ranI)
    show "k (sys_sv s) = Some (Inr p, sys_sv s')" using strand by simp
    show "p \<in> running s'" using strand(1) by (auto simp: running_def intro: ranI[of _ c])
  qed (use strand ran_upd[of "sys_strand s" c "Some p"] in \<open>auto simp: running_def\<close>)
next
  case (return c)
  then show ?thesis using ran_upd[of "sys_strand s" c None]
    by (intro saved_same[OF assms(1)]) (auto simp: running_def)
next
  case (acceptor k p sv')
  show ?thesis
  proof (rule saved_act[OF assms(1)])
    show "Atom k \<in> running s" using acceptor(2) by (auto simp: running_def)
    show "k (sys_sv s) = Some (Inr p, sys_sv s')" using acceptor by simp
  qed (use acceptor in \<open>auto simp: running_def\<close>)
qed (auto simp: running_def dutiful_label intro!: saved_same[OF assms(1)])

lemma saved_run:
  assumes "(sys_step lib)\<^sup>*\<^sup>* (start_sys (new_core True)) s"
  shows "saved_with (sys_sv s) (running s)"
  using assms
proof (induction rule: rtranclp_induct)
  case base
  show ?case by (simp add: saved_with_def running_def start_sys_def started_server_def new_core_def new_manager_def getRoom_def)
qed (rule saved_step)

text \<open>
  C11: The board of a room that everyone has left is saved, whatever the threads do. In every interleaving of the whole
  server with a snapshot sink, requests, failing connections and stops of any number of sessions included, whenever no
  handler is running, a room without members is either as it was created or a snapshot of exactly its present board was handed
  to the writer.
\<close>

theorem idle_server_saved_empty_rooms:
  assumes "(sys_step lib)\<^sup>*\<^sup>* (start_sys (new_core True)) s" "sys_strand s = Map.empty" "sys_acc s = None"
    and "getRoom (manager (sv_core (sys_sv s))) rid = Some r" "members r = []"
  shows "r = new_room rid \<or> makePersistedSnapshot r \<in> set (sv_enqueued (sys_sv s))"
  using saved_run[OF assms(1)] assms(2-5) by (auto simp: saved_with_def running_def)

text \<open>Two members, one still drawing, leave at the same time: both are out of the room before either counts the members.\<close>

definition drawing_pair :: "string \<Rightarrow> string \<Rightarrow> string \<Rightarrow> string \<Rightarrow> ServerLabel list" where
  "drawing_pair l1 l2 l3 l4 = pair_run l1 l2 @ [Receive 1 l3, OnRead 0 1, Receive 1 l4, Receive 2 l4]"

definition leave_turns :: "Choice list" where
  "leave_turns = [Begin (OnRead 0 1), Begin (OnRead 0 2), Go 1, Go 2, Go 1, Go 2, Go 1, Go 2, Go 1, Go 2] @
     replicate 13 (Go 1) @ replicate 9 (Go 2)"

lemmas leave_eval = prog_eval handleLeave_prog_def leaveRoom_prog_def find_room_def room_leave_def save_when_empty_def
  has_sink_def room_count_def save_prog_def room_snapshot_def sink_enqueue_def reg_deliver_prog_def reg_find_def put_room_def

lemma drawing_pair_run:
  assumes "parseClientMessage lib l1 = Inr CreateRoomRequest" "parseClientMessage lib l2 = Inr (JoinRoomRequest 1)"
    and "parseClientMessage lib l3 = Inr (StrokeBeginRequest 1 3 2 start)" "parseClientMessage lib l4 = Inr (LeaveRoomRequest 1)"
    and "CHR 0x0A \<notin> set l1" "CHR 0x0A \<notin> set l2" "CHR 0x0A \<notin> set l3" "CHR 0x0A \<notin> set l4"
    and "\<And>m. serializeServerMessage lib m = Inr (ser m)"
  shows "\<exists>sv s r. run_labels lib (drawing_pair l1 l2 l3 l4) (started_server (new_core True)) = Some sv \<and>
    run_choices lib leave_turns (idle_sys sv) = Some s \<and> sys_strand s = Map.empty \<and> sys_acc s = None \<and>
    getRoom (manager (sv_core (sys_sv s))) 1 = Some r \<and> members r = [] \<and> length (strokes (board r)) = 1"
  using assms
  by (simp add: drawing_pair_def pair_run_def handleDraw_def core_handleEvent_def reg_deliver_def
      toServerMessage_def shouldSave_def toColor_def toThickness_def Blue_def Thick_def
      leave_turns_def leave_eval idle_sys_def numeral_eq_Suc fun_eq_iff)

theorem idle_server_saved_empty_rooms_witness:
  "\<exists>s r sn. (sys_step plain_json)\<^sup>*\<^sup>* (start_sys (new_core True)) s \<and>
     getRoom (manager (sv_core (sys_sv s))) 1 = Some r \<and> members r = [] \<and> length (strokes (board r)) = 1 \<and>
     sn \<in> set (sv_enqueued (sys_sv s)) \<and> pers_strokes sn = strokes (board r)"
proof -
  obtain l1 where l1: "CHR 0x0A \<notin> set l1" "parseClientMessage plain_json l1 = Inr CreateRoomRequest"
    by (rule plain_request[of CreateRoomRequest]) simp_all
  obtain l2 where l2: "CHR 0x0A \<notin> set l2" "parseClientMessage plain_json l2 = Inr (JoinRoomRequest 1)"
    by (rule plain_request[of "JoinRoomRequest 1"]) simp_all
  let ?req = "StrokeBeginRequest 1 3 2 \<lparr>dto_x = 0, dto_y = 0\<rparr>"
  obtain l3 where l3: "CHR 0x0A \<notin> set l3" "parseClientMessage plain_json l3 = Inr ?req"
    by (rule plain_request[of ?req]) (simp_all add: finite_point_def finite_float_def)
  obtain l4 where l4: "CHR 0x0A \<notin> set l4" "parseClientMessage plain_json l4 = Inr (LeaveRoomRequest 1)"
    by (rule plain_request[of "LeaveRoomRequest 1"]) simp_all
  obtain ser where ser: "\<And>m. serializeServerMessage plain_json m = Inr (ser m)" using plain_serialize by blast
  obtain sv s r where s: "run_labels plain_json (drawing_pair l1 l2 l3 l4) (started_server (new_core True)) = Some sv"
    "run_choices plain_json leave_turns (idle_sys sv) = Some s" "sys_strand s = Map.empty" "sys_acc s = None"
    "getRoom (manager (sv_core (sys_sv s))) 1 = Some r" "members r = []" "length (strokes (board r)) = 1"
    using drawing_pair_run[OF l1(2) l2(2) l3(2) l4(2) l1(1) l2(1) l3(1) l4(1) ser] by (elim exE conjE)
  have run: "(sys_step plain_json)\<^sup>*\<^sup>* (start_sys (new_core True)) s"
    using run_labels_interleave[OF s(1)] relpowp_imp_rtranclp[OF run_choices_steps[OF s(2)]]
    by (simp add: idle_sys_def)
  have "r \<noteq> new_room 1" using s(7) by (auto simp: new_room_def)
  then have "makePersistedSnapshot r \<in> set (sv_enqueued (sys_sv s))"
    using idle_server_saved_empty_rooms[OF run s(3-6)] by simp
  then show ?thesis using run s(5-7)
    by (intro exI[of _ s] exI[of _ r] exI[of _ "makePersistedSnapshot r"]) (simp add: makePersistedSnapshot_def)
qed

end
