(* ===== verification/CS_Screen.thy ===== *)
theory CS_Screen
  imports CS_Replies
begin

text \<open>
  What a connected client shows, from the requests of all clients to the lines on its socket. \<open>screen\<close> is a client that reads
  the protocol: a snapshot replaces what it shows, an event changes it, every other message is ignored. The theory follows one
  client through any run of the server in which it only watches: its session stays registered (\<open>rests\<close>), its room moves by
  operations of other clients (\<open>room_moves\<close>), and exactly the events of these operations are posted to it (\<open>watches\<close>).
\<close>

definition show_message :: "View \<Rightarrow> ServerMessage \<Rightarrow> View" where
  "show_message v m = (case m of
     SnapshotResponse resp \<Rightarrow> readSnapshot resp
   | _ \<Rightarrow> (case readEvent m of None \<Rightarrow> v | Some (room, seq, p) \<Rightarrow> replay v p))"

definition screen :: "View \<Rightarrow> ServerMessage list \<Rightarrow> View" where
  "screen v ms = foldl show_message v ms"

definition message_seq :: "ServerMessage \<Rightarrow> nat" where
  "message_seq m = (case readEvent m of None \<Rightarrow> 0 | Some (room, seq, p) \<Rightarrow> unat seq)"

lemma message_seq_event [simp]: "message_seq (toServerMessage ev) = unat (ev_seq ev)"
  by (simp add: message_seq_def readEvent_toServerMessage)

lemma show_event: "show_message v (toServerMessage ev) = replay v (ev_payload ev)"
  using readEvent_toServerMessage[of ev] by (cases "toServerMessage ev") (auto simp: show_message_def)

lemma screen_events: "screen v (map toServerMessage evs) = foldl replay v (map ev_payload evs)"
  unfolding screen_def by (induction evs arbitrary: v) (simp_all add: show_event)

subsection \<open>A session stays registered until it is stopped\<close>

definition rests :: "ClientId \<Rightarrow> Server \<Rightarrow> Server \<Rightarrow> bool" where
  "rests c sv sv' \<longleftrightarrow> live sv' c = live sv c \<and>
     (s_stopped (the_session sv c) \<longrightarrow> s_stopped (the_session sv' c)) \<and>
     (live sv c \<and> \<not> s_stopped (the_session sv' c) \<longrightarrow> sv_registry sv' c = sv_registry sv c)"

text \<open>\<open>tame c b m\<close>: the action \<open>m\<close> keeps this of \<open>c\<close>, where \<open>b\<close> says that \<open>c\<close> is stopped already.\<close>

definition tame :: "ClientId \<Rightarrow> bool \<Rightarrow> 'a act \<Rightarrow> bool" where
  "tame c b m \<longleftrightarrow> (\<forall>sv r sv'. (b \<longrightarrow> s_stopped (the_session sv c)) \<longrightarrow> m sv = Some (r, sv') \<longrightarrow> rests c sv sv')"

named_theorems tame_rules \<open>actions that keep the registration of a session\<close>

lemma rests_refl: "rests c sv sv"
  by (simp add: rests_def)

lemma rests_trans: "rests c sv sv' \<Longrightarrow> rests c sv' sv'' \<Longrightarrow> rests c sv sv''"
  by (auto simp: rests_def)

lemma tameD: "tame c b m \<Longrightarrow> (b \<Longrightarrow> s_stopped (the_session sv c)) \<Longrightarrow> m sv = Some (r, sv') \<Longrightarrow> rests c sv sv'"
  by (auto simp: tame_def)

lemma tame_seqn [tame_rules]:
  assumes "tame c b m" "\<And>v. tame c b (f v)"
  shows "tame c b (seqn m f)"
  unfolding tame_def
proof (intro allI impI)
  fix sv r sv' assume b: "b \<longrightarrow> s_stopped (the_session sv c)" and run: "seqn m f sv = Some (r, sv')"
  obtain q sv1 where q: "m sv = Some (q, sv1)" using run by (cases "m sv") (auto simp: seqn_def)
  have r1: "rests c sv sv1" using tameD[OF assms(1) _ q] b by blast
  show "rests c sv sv'"
  proof (cases q)
    case (Inr v)
    then have "f v sv1 = Some (r, sv')" using run q by (simp add: seqn_def)
    moreover have "b \<Longrightarrow> s_stopped (the_session sv1 c)" using r1 b by (simp add: rests_def)
    ultimately show ?thesis using rests_trans[OF r1] tameD[OF assms(2)] by blast
  qed (use run q r1 in \<open>simp add: seqn_def\<close>)
qed

lemma tame_modify [tame_rules]: "(\<And>s. s_stopped s \<Longrightarrow> s_stopped (f s)) \<Longrightarrow> tame c b (modify d f)"
  by (cases "d = c") (auto simp: tame_def rests_def the_session_def split: option.splits)

lemma tame_same:
  assumes "\<And>sv r sv'. m sv = Some (r, sv') \<Longrightarrow> sv_sessions sv' = sv_sessions sv \<and>
    (live sv c \<longrightarrow> sv_registry sv' c = sv_registry sv c)"
  shows "tame c b m"
  using assms by (fastforce simp: tame_def rests_def live_def the_session_def)

lemma tame_simple [tame_rules]:
  "tame c b (ret v)" "tame c b (getCurrentRoom d)" "tame c b core_createRoom" "tame c b (core_joinRoom d room)"
  "tame c b (core_leaveRoom d room)" "tame c b (core_handleEvent now d room ev)" "tame c b (reg_find d)"
  "c \<noteq> d \<Longrightarrow> tame c b (reg_remove d)"
  by (rule tame_same; auto simp: getCurrentRoom_def core_createRoom_def core_joinRoom_def core_leaveRoom_def
      core_handleEvent_def reg_find_def reg_remove_def live_def split: prod.splits option.splits if_splits)+

lemma tame_reg_remove [tame_rules]: "tame c True (reg_remove c)"
  by (auto simp: tame_def rests_def reg_remove_def live_def the_session_def)

lemma tame_setCurrentRoom [tame_rules]: "tame c b (setCurrentRoom d room)"
  unfolding setCurrentRoom_def by (rule tame_modify) simp

lemma tame_deliver [tame_rules]: "tame c b (deliver lib d msg)"
proof -
  have "tame c b (post d h)" for h unfolding post_def by (rule tame_modify) simp
  then show ?thesis by (auto simp: tame_def deliver_def rests_refl split: sum.splits)
qed

lemma tame_sendError [tame_rules]: "tame c b (sendError lib d e)"
  unfolding sendError_def by (rule tame_deliver)

lemma tame_dispatch [tame_rules]: "tame c b (dispatchOutgoing lib evs)"
  by (induction evs) (auto simp: reg_deliver_def simp del: act_simps intro!: tame_rules)

lemma tame_requests:
  "tame c b (handleJoin lib d room)" "tame c b (handleLeave lib d room)" "tame c b (handleDraw lib now d room event)"
  unfolding handleJoin_def handleLeave_def handleDraw_def by (auto intro!: tame_rules split: sum.splits)

lemma tame_handleLine [tame_rules]: "tame c b (handleLine lib now d line)"
  unfolding handleLine_def handleMessage_def sendProtocolError_def
  by (auto simp del: protocolToCoreError.simps toCoreEvent.simps intro!: tame_rules tame_requests
      split: sum.splits ClientMessage.splits option.splits)

text \<open>A handler that first looks at the state.\<close>

lemma tame_look: "(\<And>sv. \<exists>m'. m sv = m' sv \<and> tame c b m') \<Longrightarrow> tame c b m"
  unfolding tame_def by metis

lemma tame_doReadLine [tame_rules]: "tame c b (doReadLine d)"
proof (rule tame_look)
  show "\<exists>m'. doReadLine d sv = m' sv \<and> tame c b m'" for sv
    by (cases "s_stopped (the_session sv d)")
      (auto simp: doReadLine_def simp del: act_simps intro!: exI tame_rules)
qed

lemma tame_doWrite [tame_rules]: "tame c b (doWrite d)"
proof (rule tame_look)
  show "\<exists>m'. doWrite d sv = m' sv \<and> tame c b m'" for sv
    by (cases "s_writeQueue (the_session sv d) = [] \<or> s_stopped (the_session sv d)")
      (auto simp: doWrite_def simp del: act_simps intro!: exI tame_rules)
qed

definition stop_rest :: "'j JsonLib \<Rightarrow> ClientId \<Rightarrow> unit act" where
  "stop_rest lib d = seqn (getCurrentRoom d) (\<lambda>cur.
     seqn (case cur of
             None \<Rightarrow> ret ()
           | Some room \<Rightarrow> seqn (core_leaveRoom d room) (\<lambda>res.
               seqn (case res of Inl _ \<Rightarrow> ret () | Inr out \<Rightarrow> dispatchOutgoing lib out) (\<lambda>_.
               setCurrentRoom d None))) (\<lambda>_.
     seqn (modify d (\<lambda>s. s\<lparr>s_open := False\<rparr>)) (\<lambda>_.
     reg_remove d)))"

lemma stopImpl_eq: "stopImpl lib d sv = (if s_stopped (the_session sv d) then Some (Inr (), sv)
    else stop_rest lib d (upd_session d (\<lambda>s. s\<lparr>s_stopped := True\<rparr>) sv))"
  by (simp add: stopImpl_def stop_rest_def)

lemma tame_stop_rest: "c = d \<longrightarrow> b \<Longrightarrow> tame c b (stop_rest lib d)"
  unfolding stop_rest_def
  by (cases "c = d") (auto simp del: act_simps intro!: tame_rules split: option.splits sum.splits)

lemma stopImpl_rests:
  assumes "stopImpl lib d sv = Some (r, sv')" "live sv d"
  shows "rests c sv sv'" "s_stopped (the_session sv' d)"
proof -
  let ?sv1 = "upd_session d (\<lambda>s. s\<lparr>s_stopped := True\<rparr>) sv"
  have r1: "rests c sv ?sv1" using tameD[OF tame_modify[of "\<lambda>s. s\<lparr>s_stopped := True\<rparr>" c False d], of sv] by simp
  have "rests c sv sv' \<and> s_stopped (the_session sv' d)"
  proof (cases "s_stopped (the_session sv d)")
    case False
    then have run: "stop_rest lib d ?sv1 = Some (r, sv')" using assms by (simp add: stopImpl_eq)
    have "rests c ?sv1 sv'" by (rule tameD[OF tame_stop_rest[of c d "c = d"] _ run]) (use assms(2) in auto)
    moreover have "rests d ?sv1 sv'" by (rule tameD[OF tame_stop_rest[of d d True] _ run]) (use assms(2) in auto)
    ultimately show ?thesis using rests_trans[OF r1] assms(2) by (auto simp: rests_def)
  qed (use assms rests_refl in \<open>simp add: stopImpl_eq\<close>)
  then show "rests c sv sv'" "s_stopped (the_session sv' d)" by blast+
qed

lemma onReadLine_rests: "onReadLine lib now d input sv = Some (r, sv') \<Longrightarrow> live sv d \<Longrightarrow> rests c sv sv'"
proof (cases input)
  case (Some line)
  have "tame c False (\<lambda>sv. if s_stopped (the_session sv d) then ret () sv else doReadLine d sv)"
    by (rule tame_look) (metis tame_simple(1) tame_doReadLine)
  then have "tame c False (onReadLine lib now d (Some line))"
    unfolding onReadLine_def by (auto simp del: act_simps intro!: tame_rules)
  then show "onReadLine lib now d input sv = Some (r, sv') \<Longrightarrow> rests c sv sv'" using Some by (auto simp: tame_def)
qed (simp add: onReadLine_def stopImpl_rests)

lemma onWrite_rests: "onWrite lib d res sv = Some (r, sv') \<Longrightarrow> live sv d \<Longrightarrow> rests c sv sv'"
proof (cases res)
  case (Some w)
  have more: "tame c False (\<lambda>sv. if s_writeQueue (the_session sv d) \<noteq> [] then doWrite d sv else ret () sv)"
    by (rule tame_look) (metis tame_simple(1) tame_doWrite)
  assume run: "onWrite lib d res sv = Some (r, sv')"
  then obtain line rest where "s_writeQueue (the_session sv d) = line # rest"
    using Some by (cases "s_writeQueue (the_session sv d)") (auto simp: onWrite_def)
  then have "seqn (modify d (\<lambda>s. s\<lparr>s_writeQueue := rest, s_written := s_written s @ [w]\<rparr>)) (\<lambda>_ sv.
      if s_writeQueue (the_session sv d) \<noteq> [] then doWrite d sv else ret () sv) sv = Some (r, sv')"
    using run Some by (simp add: onWrite_def del: act_simps)
  from tameD[OF tame_seqn[OF tame_modify more] _ this] show "rests c sv sv'" by simp
qed (simp add: onWrite_def stopImpl_rests)

lemma runPosted_rests: "runPosted lib d h sv = Some (r, sv') \<Longrightarrow> live sv d \<Longrightarrow> rests c sv sv'"
proof (cases h)
  case (PostLine line)
  have "tame c False (seqn (modify d (\<lambda>s. s\<lparr>s_writeQueue := s_writeQueue s @ [line]\<rparr>)) (\<lambda>_. if idle then doWrite d else ret ()))" for idle
    by (auto simp del: act_simps intro!: tame_rules)
  then have "tame c False (runPosted lib d h)"
    by (simp only: PostLine runPosted_def Posted.case Let_def) (rule tame_look, blast)
  then show "runPosted lib d h sv = Some (r, sv') \<Longrightarrow> rests c sv sv'" by (auto simp: tame_def)
qed (use tameD[OF tame_doReadLine[of c False d]] in \<open>auto simp: runPosted_def stopImpl_rests\<close>)

lemma label_rests:
  assumes "enabled sv l" "run_label lib l sv = Some (Inr (), sv')" "l \<noteq> Destroy c"
    and "l = Accept \<longrightarrow> c \<noteq> sv_nextClientId sv"
  shows "rests c sv sv'"
proof -
  have upd: "rests c sv (upd_session d f sv)" if "\<And>s. s_stopped (f s) = s_stopped s" for d f
    using tameD[OF tame_modify[of f c False d], of sv] that by simp
  show ?thesis
  proof (cases l)
    case (Receive d line)
    then show ?thesis using assms(2) upd by (auto simp: run_label_def)
  next
    case (StopCall d)
    then show ?thesis using assms(2) upd by (auto simp: run_label_def session_stop_def post_def)
  next
    case (OnRead now d)
    then show ?thesis using assms(1,2) onReadLine_rests[of lib now d _ _ _ sv' c] rests_trans[OF upd[of "\<lambda>s. s\<lparr>s_read := RIdle\<rparr>" d]]
      by (auto simp: run_label_def enabled_def split: ReadOp.splits)
  next
    case (ReadFails d)
    then show ?thesis using assms(1,2) onReadLine_rests[of lib 0 d _ _ _ sv' c] rests_trans[OF upd[of "\<lambda>s. s\<lparr>s_read := RIdle\<rparr>" d]]
      by (auto simp: run_label_def enabled_def)
  next
    case (WriteEnds d ok)
    then obtain w ws where "s_writing (the_session sv d) = w # ws" "live sv d"
      using assms(1) by (cases "s_writing (the_session sv d)") (auto simp: enabled_def)
    then show ?thesis using WriteEnds assms(2) onWrite_rests[of lib d "if ok then Some w else None" _ _ sv' c]
        rests_trans[OF upd[of "\<lambda>s. s\<lparr>s_writing := ws\<rparr>" d]] by (auto simp: run_label_def)
  next
    case (RunPosted d)
    then obtain h hs where h: "s_posted (the_session sv d) = h # hs" "live sv d"
      using assms(1) by (cases "s_posted (the_session sv d)") (auto simp: enabled_def)
    then show ?thesis
      using RunPosted assms(2) runPosted_rests[of lib d h _ _ sv' c] rests_trans[OF upd[of "\<lambda>s. s\<lparr>s_posted := hs\<rparr>" d]]
      by (auto simp: run_label_def)
  qed (use assms in \<open>auto simp: run_label_def post_def accept_done_def onAccept_def add_session_def Let_def
        seqn_def reg_add_def session_start_def doAccept_def rests_def live_def the_session_def upd_session_def split: if_splits\<close>)
qed

lemma stays_registered:
  assumes "server_run lib (started_server core) tr sv" "live sv c" "\<not> s_stopped (the_session sv c)"
  shows "sv_registry sv c"
  using assms
proof (induction rule: server_run.induct)
  case idle
  then show ?case by (simp add: started_server_def live_def)
next
  case (step tr sv l sv')
  have nd: "l \<noteq> Destroy c" using step.hyps(3) step.prems(1) by (auto simp: run_label_def live_def)
  show ?case
  proof (cases "l = Accept \<and> c = sv_nextClientId sv")
    case True
    then show ?thesis using step.hyps(3)
      by (auto simp: run_label_def accept_done_def onAccept_def add_session_def Let_def seqn_def reg_add_def session_start_def
          post_def doAccept_def)
  next
    case False
    then have r: "rests c sv sv'" using label_rests[OF step.hyps(2,3) nd] by blast
    then have "live sv c" "\<not> s_stopped (the_session sv c)" using step.prems by (auto simp: rests_def)
    then have "sv_registry sv c" by (rule step.IH)
    then show ?thesis using r step.prems by (auto simp: rests_def)
  qed
qed

subsection \<open>A room moves by the operations of its members\<close>

definition room_moves :: "nat \<Rightarrow> ClientId \<Rightarrow> RoomId \<Rightarrow> ServerCore \<Rightarrow> ServerCore \<Rightarrow> OutgoingEvent list \<Rightarrow> bool" where
  "room_moves n c room core core' evs \<longleftrightarrow> (\<exists>ops out r r'. getRoom (manager core) room = Some r \<and>
     getRoom (manager core') room = Some r' \<and> length ops \<le> n \<and> (\<forall>op\<in>set ops. op_client op \<noteq> c) \<and>
     run_room r ops = Some (out, r') \<and> received c out = received c evs)"

definition only_in :: "ClientId \<Rightarrow> RoomId \<Rightarrow> ServerCore \<Rightarrow> bool" where
  "only_in c room core \<longleftrightarrow> (\<forall>room'. in_room core room' c \<longleftrightarrow> room' = room)"

lemma only_inD: "only_in c room core \<Longrightarrow> getRoom (manager core) room = Some r \<Longrightarrow> c \<in> set (members r)"
  unfolding only_in_def in_room_def by (metis option.inject)

lemma moves_same:
  assumes "only_in c room core" "getRoom (manager core') room = getRoom (manager core) room" "received c evs = []"
  shows "room_moves n c room core core' evs"
proof -
  obtain r where "getRoom (manager core) room = Some r" using assms(1) by (auto simp: only_in_def in_room_def)
  then show ?thesis unfolding room_moves_def using assms(2,3)
    by (intro exI[of _ "[]"] exI[of _ r]) (simp add: received_def)
qed

lemma run_room_append:
  "run_room r a = Some (out, r1) \<Longrightarrow> run_room r1 b = Some (out', r2) \<Longrightarrow> run_room r (a @ b) = Some (out @ out', r2)"
  by (induction a arbitrary: r out) (auto split: bind_splits)

lemma moves_trans:
  assumes "room_moves m c room core core' evs" "room_moves n c room core' core'' evs'"
  shows "room_moves (m + n) c room core core'' (evs @ evs')"
proof -
  obtain a out r r1 where a: "getRoom (manager core) room = Some r" "getRoom (manager core') room = Some r1" "length a \<le> m"
    "\<forall>op\<in>set a. op_client op \<noteq> c" "run_room r a = Some (out, r1)" "received c out = received c evs"
    using assms(1) unfolding room_moves_def by blast
  obtain b out' r2 where b: "getRoom (manager core'') room = Some r2" "length b \<le> n"
    "\<forall>op\<in>set b. op_client op \<noteq> c" "run_room r1 b = Some (out', r2)" "received c out' = received c evs'"
    using assms(2) a(2) unfolding room_moves_def by auto
  show ?thesis unfolding room_moves_def
    by (intro exI[of _ "a @ b"] exI[of _ "out @ out'"] exI[of _ r] exI[of _ r2])
      (use a b run_room_append[OF a(5) b(4)] in auto)
qed

lemma moves_op:
  assumes "core_ok (Suc n) core" "only_in c room core" "getRoom (manager core) room' = Some r"
    and "run_op r op = Some (out, r')" "op_client op \<noteq> c"
  shows "room_moves 1 c room core (core\<lparr>manager := setRoom (manager core) room' r'\<rparr>) out"
proof (cases "room' = room")
  case True
  then show ?thesis unfolding room_moves_def using assms(3-5)
    by (intro exI[of _ "[op]"] exI[of _ out] exI[of _ r] exI[of _ r']) (simp add: rm.look_store)
next
  case False
  note D = core_okD[OF assms(1,3)]
  obtain ps where "logs r r' (op_client op) out ps" using run_op_log[OF D(1,5), of op] assms(4) by auto
  moreover have "c \<notin> set (members r)" using assms(2,3) False by (auto simp: only_in_def in_room_def)
  ultimately have "received c out = []" by (simp add: logs_def)
  then show ?thesis using False by (intro moves_same[OF assms(2)]) (simp_all add: rm.look_store)
qed

lemma moves_leave:
  assumes "core_ok (Suc n) core" "only_in c room core" "d \<noteq> c" "leaveRoom core d room' = Some (res, sn, core')"
  shows "room_moves 1 c room core core' (sent res)"
proof (cases "getRoom (manager core) room'")
  case None
  then show ?thesis using assms(2,4) by (intro moves_same) (auto simp: leaveRoom_def sent_def)
next
  case (Some r)
  then obtain r' where r': "leave r d = Some (res, r')" "core' = core\<lparr>manager := setRoom (manager core) room' r'\<rparr>"
    using assms(4) by (auto simp: leaveRoom_def Let_def split: bind_splits sum.splits)
  show ?thesis unfolding r'(2) by (rule moves_op[OF assms(1,2) Some, of "Leave d"]) (use r'(1) assms(3) in simp_all)
qed

lemma moves_event:
  assumes "core_ok (Suc n) core" "only_in c room core" "d \<noteq> c" "handleEvent core now d room' ev = Some (res, sn, core')"
  shows "room_moves 1 c room core core' (sent res)"
proof (cases "getRoom (manager core) room'")
  case None
  then show ?thesis using assms(2,4) by (intro moves_same) (auto simp: handleEvent_def sent_def)
next
  case (Some r)
  then obtain r' where r': "apply_event r now d ev = Some (res, r')" "core' = core\<lparr>manager := setRoom (manager core) room' r'\<rparr>"
    using assms(4) by (auto simp: handleEvent_def Let_def split: bind_splits sum.splits)
  show ?thesis unfolding r'(2) by (rule moves_op[OF assms(1,2) Some, of "Apply d now ev"]) (use r'(1) assms(3) in simp_all)
qed

lemma moves_join:
  assumes "core_ok (Suc n) core" "only_in c room core" "d \<noteq> c" "joinRoom core d room' = (res, core')"
  shows "room_moves 1 c room core core' []"
proof (cases "getRoom (manager core) room'")
  case None
  then show ?thesis using assms(2,4) by (intro moves_same) (auto simp: joinRoom_def)
next
  case (Some r)
  then have core': "core' = core\<lparr>manager := setRoom (manager core) room' (snd (join r d))\<rparr>"
    using assms(4) by (auto simp: joinRoom_def split: prod.splits)
  show ?thesis unfolding core' by (rule moves_op[OF assms(1,2) Some, of "Join d"]) (use assms(3) in simp_all)
qed

lemma moves_create:
  assumes "core_ok (Suc n) core" "only_in c room core" "createRoom core = (rid, core')"
  shows "room_moves 1 c room core core' []"
proof (rule moves_same[OF assms(2)])
  have "room_exists core room" using assms(2) by (auto simp: only_in_def in_room_def room_exists_def)
  then have "rid \<noteq> room" using createRoom_ok[OF assms(1,3)] by auto
  then show "getRoom (manager core') room = getRoom (manager core) room"
    using assms(3) by (auto simp: createRoom_def rm.look_create split: prod.splits)
qed simp

lemma outcome_draw_moves:
  assumes ok: "core_ok (Suc n) core" and only: "only_in c room core" and d: "d \<noteq> c"
    and oc: "request_outcome now core cur d msg = Some oc"
    and msg: "request_room msg = Some rm" "toCoreEvent msg = Some event"
  shows "room_moves 1 c room core (oc_core oc) (oc_events oc)"
proof -
  have idle: "room_moves 1 c room core core []" by (rule moves_same[OF only]) simp_all
  note eq = outcome_draw[OF msg, of now core cur d]
  show ?thesis
  proof (cases "handleEvent core now d rm (projr event)")
    case None
    then show ?thesis using oc idle unfolding eq by (auto simp: refuse_def split: if_splits sum.splits)
  next
    case (Some q)
    obtain res sn core' where "q = (res, sn, core')" by (cases q)
    then show ?thesis using oc idle moves_event[OF ok only d, of now rm "projr event" res sn core'] Some unfolding eq
      by (cases res) (auto simp: refuse_def sent_def split: if_splits sum.splits)
  qed
qed

lemma outcome_moves:
  assumes ok: "core_ok (Suc n) core" and only: "only_in c room core" and d: "d \<noteq> c"
    and oc: "request_outcome now core cur d msg = Some oc"
  shows "room_moves 1 c room core (oc_core oc) (oc_events oc)"
proof -
  have idle: "room_moves 1 c room core core []" by (rule moves_same[OF only]) simp_all
  show ?thesis
  proof (cases msg)
    case PingRequest
    then show ?thesis using oc idle by auto
  next
    case CreateRoomRequest
    then show ?thesis using oc moves_create[OF ok only] by (auto split: prod.splits)
  next
    case (JoinRoomRequest rm)
    then show ?thesis using oc idle moves_join[OF ok only d, of rm]
      by (auto simp: refuse_def split: if_splits prod.splits sum.splits)
  next
    case (LeaveRoomRequest rm)
    show ?thesis
    proof (cases "leaveRoom core d rm")
      case None
      then show ?thesis using oc idle LeaveRoomRequest by (auto simp: refuse_def split: if_splits)
    next
      case (Some q)
      obtain res sn core' where "q = (res, sn, core')" by (cases q)
      then show ?thesis using oc idle moves_leave[OF ok only d, of rm res sn core'] Some LeaveRoomRequest
        by (cases res) (auto simp: refuse_def sent_def split: if_splits)
    qed
  qed (rule outcome_draw_moves[OF assms]; simp)+
qed

subsection \<open>What is posted to a client that watches\<close>

definition watches :: "'j JsonLib \<Rightarrow> ClientId \<Rightarrow> RoomId \<Rightarrow> nat \<Rightarrow> Server \<Rightarrow> Server \<Rightarrow> bool" where
  "watches lib c room n sv sv' \<longleftrightarrow> (\<exists>evs. room_moves n c room (sv_core sv) (sv_core sv') evs \<and>
     outbox (the_session sv' c) = outbox (the_session sv c) @ map (line_of lib \<circ> toServerMessage) (received c evs))"

definition hushed :: "ClientId \<Rightarrow> Server \<Rightarrow> Server \<Rightarrow> bool" where
  "hushed c sv sv' \<longleftrightarrow> sv_core sv' = sv_core sv \<and> outbox (the_session sv' c) = outbox (the_session sv c)"

lemma watches_hushed: "only_in c room (sv_core sv) \<Longrightarrow> hushed c sv sv' \<Longrightarrow> watches lib c room n sv sv'"
  unfolding watches_def hushed_def by (intro exI[of _ "[]"]) (simp add: moves_same)

lemma watches_trans:
  assumes "watches lib c room m sv sv'" "watches lib c room n sv' sv''"
  shows "watches lib c room (m + n) sv sv''"
  using assms moves_trans unfolding watches_def by (fastforce simp del: map_map)

lemma watches_around:
  "hushed c sv sv1 \<Longrightarrow> watches lib c room n sv1 sv2 \<Longrightarrow> hushed c sv2 sv3 \<Longrightarrow> watches lib c room n sv sv3"
  by (auto simp: hushed_def watches_def)

lemma hushed_refl [simp]: "hushed c sv sv"
  by (simp add: hushed_def)

lemma hushed_trans: "hushed c sv sv' \<Longrightarrow> hushed c sv' sv'' \<Longrightarrow> hushed c sv sv''"
  by (simp add: hushed_def)

lemma hushed_upd: "(c = d \<Longrightarrow> live sv d \<Longrightarrow> outbox (f (the_session sv d)) = outbox (the_session sv d)) \<Longrightarrow> hushed c sv (upd_session d f sv)"
  by (cases "c = d"; cases "live sv d") (simp_all add: hushed_def, simp add: upd_session_def live_def the_session_def split: option.splits)

lemma gives_outbox:
  assumes "gives lib f sv sv'" "live sv c"
  shows "outbox (the_session sv' c) = outbox (the_session sv c) @ map (line_of lib) (f c)"
proof -
  have "concat (map posted_line (map (\<lambda>m. PostLine (line_of lib m)) ms)) = map (line_of lib) ms" for ms
    by (induction ms) simp_all
  moreover have "the_session sv' c = (the_session sv c)\<lparr>s_posted := s_posted (the_session sv c) @
      map (\<lambda>m. PostLine (line_of lib m)) (f c)\<rparr>"
    using assms by (auto simp: gives_def live_def the_session_def)
  ultimately show ?thesis by (simp add: outbox_def del: map_map)
qed

lemma watches_line:
  assumes "core_ok (Suc n) (sv_core sv)" "only_in c room (sv_core sv)" "d \<noteq> c" "live sv c" "sv_registry sv c"
    and "handleLine lib now d line sv = Some (Inr (), sv')"
  shows "watches lib c room 1 sv sv'"
proof (cases "parseClientMessage lib line")
  case (Inl e)
  then have "deliver lib d (toErrorMessage (protocolToCoreError e)) sv = Some (Inr (), sv')"
    using assms(6) by (simp add: handleLine_def sendProtocolError_def sendError_def del: protocolToCoreError.simps)
  then have g: "gives lib (\<lambda>x. if x = d then [toErrorMessage (protocolToCoreError e)] else []) sv sv'" by (rule gives_deliver)
  then have "hushed c sv sv'" using gives_outbox[OF g assms(4)] assms(3) by (simp add: hushed_def gives_def)
  then show ?thesis by (rule watches_hushed[OF assms(2)])
next
  case (Inr msg)
  then obtain oc where oc: "request_outcome now (sv_core sv) (s_currentRoom (the_session sv d)) d msg = Some oc"
    "gives lib (owed d oc sv) (taken d oc sv) sv'"
    using message_gives[of lib now d msg sv sv'] assms(6) by (auto simp: handleLine_def)
  have t: "live (taken d oc sv) c" "the_session (taken d oc sv) c = the_session sv c"
    using assms(3,4) by (auto simp: taken_def live_def the_session_def upd_session_def split: option.splits)
  have "outbox (the_session sv' c) = outbox (the_session sv c) @ map (line_of lib \<circ> toServerMessage) (received c (oc_events oc))"
    using gives_outbox[OF oc(2) t(1)] t(2) assms(3,5) by (simp add: owed_def received_def)
  moreover have "sv_core sv' = oc_core oc" using oc(2) by (simp add: gives_def taken_def)
  ultimately show ?thesis unfolding watches_def using outcome_moves[OF assms(1-3) oc(1)] by auto
qed

lemma watches_stop:
  assumes "core_ok (Suc n) (sv_core sv)" "only_in c room (sv_core sv)" "d \<noteq> c" "live sv c" "sv_registry sv c"
    and "stopImpl lib d sv = Some (Inr (), sv')"
  shows "watches lib c room 1 sv sv'"
proof (cases "s_stopped (the_session sv d)")
  case True
  then show ?thesis using assms(2,6) by (simp add: stopImpl_eq watches_hushed)
next
  case False
  let ?sv1 = "upd_session d (\<lambda>s. s\<lparr>s_stopped := True\<rparr>) sv"
  have pre: "hushed c sv ?sv1" using assms(3) by (intro hushed_upd) simp
  have post: "hushed c sv2 ((upd_session d (\<lambda>s. s\<lparr>s_open := False\<rparr>) sv2)\<lparr>sv_registry := reg\<rparr>)" for sv2 reg
    using hushed_upd[of c d sv2 "\<lambda>s. s\<lparr>s_open := False\<rparr>"] assms(3) by (simp add: hushed_def the_session_def)
  have run: "stop_rest lib d ?sv1 = Some (Inr (), sv')" using assms(6) False by (simp add: stopImpl_eq)
  show ?thesis
  proof (cases "s_currentRoom (the_session ?sv1 d)")
    case None
    then have "hushed c ?sv1 sv'"
      using run post[of ?sv1] by (auto simp: stop_rest_def getCurrentRoom_def seqn_def reg_remove_def)
    then show ?thesis using watches_hushed[OF assms(2)] hushed_trans[OF pre] by blast
  next
    case (Some room')
    obtain res sn core' where l: "leaveRoom (sv_core sv) d room' = Some (res, sn, core')"
      using run Some by (cases "leaveRoom (sv_core sv) d room'")
        (auto simp: stop_rest_def getCurrentRoom_def core_leaveRoom_def seqn_def)
    let ?sv2 = "?sv1\<lparr>sv_core := core', sv_enqueued := sv_enqueued sv @ sn\<rparr>"
    obtain sv3 where sv3: "dispatchOutgoing lib (sent res) ?sv2 = Some (Inr (), sv3)"
      "sv' = (upd_session d (\<lambda>s. s\<lparr>s_open := False\<rparr>) (upd_session d (\<lambda>s. s\<lparr>s_currentRoom := None\<rparr>) sv3))
        \<lparr>sv_registry := (sv_registry sv3)(d := False)\<rparr>"
      using run l by (cases res) (auto simp: Some stop_rest_def getCurrentRoom_def core_leaveRoom_def setCurrentRoom_def
          reg_remove_def sent_def seqn_def split: option.splits prod.splits sum.splits)
    have g: "gives lib (\<lambda>x. if sv_registry ?sv2 x then map toServerMessage (filter (\<lambda>ev. ev_to ev = x) (sent res)) else []) ?sv2 sv3"
      by (rule gives_dispatch[OF sv3(1)])
    have "hushed c sv3 sv'" unfolding sv3(2)
      using assms(3) by (intro hushed_trans[OF hushed_upd post]) simp_all
    moreover have "watches lib c room 1 ?sv1 sv3"
      unfolding watches_def using gives_outbox[OF g, of c] assms(3-5) moves_leave[OF assms(1-3) l] g
      by (intro exI[of _ "sent res"]) (simp add: received_def gives_def the_session_def live_def)
    ultimately show ?thesis using watches_around[OF pre] by blast
  qed
qed

lemma hushed_doWrite: "doWrite d sv = Some (Inr (), sv') \<Longrightarrow> hushed c sv sv'"
  using hushed_upd[of c d sv "\<lambda>s. s\<lparr>s_writing := s_writing s @ [hd (s_writeQueue s)]\<rparr>"] by (auto simp: doWrite_def outbox_def split: if_splits)

lemma hushed_doReadLine: "doReadLine d sv = Some (Inr (), sv') \<Longrightarrow> hushed c sv sv'"
  using hushed_upd[of c d sv "\<lambda>s. s\<lparr>s_read := RPending\<rparr>"] by (auto simp: doReadLine_def outbox_def split: if_splits)

lemma hushed_written:
  assumes "onWrite lib d (Some line) sv = Some (Inr (), sv')" and q: "s_writeQueue (the_session sv d) = line # rest"
  shows "hushed c sv sv'"
proof -
  let ?sv1 = "upd_session d (\<lambda>s. s\<lparr>s_writeQueue := rest, s_written := s_written s @ [line]\<rparr>) sv"
  have "hushed c sv ?sv1" by (rule hushed_upd) (simp add: outbox_def q)
  moreover have "hushed c ?sv1 sv'"
    using assms hushed_doWrite[of d ?sv1 sv' c] by (auto simp: onWrite_def split: if_splits)
  ultimately show ?thesis by (rule hushed_trans)
qed

text \<open>Moving a posted line into the write queue.\<close>

lemma hushed_line:
  assumes "s_posted (the_session sv d) = PostLine line # hs"
    and "runPosted lib d (PostLine line) (upd_session d (\<lambda>s. s\<lparr>s_posted := hs\<rparr>) sv) = Some (Inr (), sv')"
  shows "hushed c sv sv'"
proof -
  let ?sv1 = "upd_session d (\<lambda>s. s\<lparr>s_writeQueue := s_writeQueue s @ [line]\<rparr>) (upd_session d (\<lambda>s. s\<lparr>s_posted := hs\<rparr>) sv)"
  have "hushed c sv ?sv1" unfolding upd_session_twice by (rule hushed_upd) (simp add: outbox_def assms(1))
  moreover have "hushed c ?sv1 sv'"
    using assms(2) hushed_doWrite[of d ?sv1 sv' c] by (auto simp: runPosted_def Let_def split: if_splits)
  ultimately show ?thesis by (rule hushed_trans)
qed

text \<open>\<open>watched n c room sv\<close>: client \<open>c\<close> is connected, registered and a member of \<open>room\<close> alone.\<close>

definition watched :: "nat \<Rightarrow> ClientId \<Rightarrow> RoomId \<Rightarrow> Server \<Rightarrow> bool" where
  "watched n c room sv \<longleftrightarrow> members_inv (Suc n) sv \<and> only_in c room (sv_core sv) \<and> live sv c \<and> sv_registry sv c"

lemma watchedD:
  assumes "watched n c room sv"
  shows "core_ok (Suc n) (sv_core sv)" "only_in c room (sv_core sv)" "live sv c" "sv_registry sv c" "c < sv_nextClientId sv"
  using assms by (simp_all add: watched_def members_inv_def)

lemma stop_watches:
  assumes "watched n c room sv" "stopImpl lib d (upd_session d f sv) = Some (Inr (), sv')" "live sv d"
    and "outbox (f (the_session sv d)) = outbox (the_session sv d)" "\<not> s_stopped (the_session sv' c)"
  shows "watches lib c room 1 sv sv'"
proof -
  have "d \<noteq> c" using stopImpl_rests(2)[OF assms(2)] assms(3,5) by auto
  then have "watches lib c room 1 (upd_session d f sv) sv'"
    using watches_stop[OF _ _ _ _ _ assms(2)] watchedD[OF assms(1)] by simp
  moreover have "hushed c sv (upd_session d f sv)" by (rule hushed_upd) (rule assms(4))
  ultimately show ?thesis using watches_around hushed_refl by blast
qed

lemma read_watches:
  assumes w: "watched n c room sv" and d: "d \<noteq> c"
    and run: "enabled sv (OnRead now d)" "run_label lib (OnRead now d) sv = Some (Inr (), sv')"
  shows "watches lib c room 1 sv sv'"
proof -
  obtain line where line: "s_read (the_session sv d) = RReady line" "live sv d"
    using run(1) by (auto simp: enabled_def split: ReadOp.splits)
  let ?sv1 = "upd_session d (\<lambda>s. s\<lparr>s_read := RIdle\<rparr>) sv"
  obtain sv2 where sv2: "handleLine lib now d line ?sv1 = Some (Inr (), sv2)"
    "(if s_stopped (the_session sv2 d) then ret () sv2 else doReadLine d sv2) = Some (Inr (), sv')"
    using run(2) line(1) by (auto simp: run_label_def onReadLine_def simp del: act_simps(1) elim!: seqn_Inr)
  have "hushed c sv2 sv'" using sv2(2) hushed_doReadLine by (auto split: if_splits)
  moreover have "watches lib c room 1 ?sv1 sv2" using watches_line[OF _ _ d _ _ sv2(1)] watchedD[OF w] by simp
  ultimately show ?thesis using watches_around[OF hushed_upd[of c d sv]] d by blast
qed

lemma posted_watches:
  assumes w: "watched n c room sv" and run: "enabled sv (RunPosted d)" "run_label lib (RunPosted d) sv = Some (Inr (), sv')"
    and "\<not> s_stopped (the_session sv' c)"
  shows "watches lib c room 1 sv sv'"
proof -
  obtain h hs where h: "s_posted (the_session sv d) = h # hs" "live sv d"
    using run(1) by (cases "s_posted (the_session sv d)") (auto simp: enabled_def)
  let ?sv1 = "upd_session d (\<lambda>s. s\<lparr>s_posted := hs\<rparr>) sv"
  have run': "runPosted lib d h ?sv1 = Some (Inr (), sv')" using run(2) h(1) by (simp add: run_label_def)
  note quiet = watches_hushed[OF watchedD(2)[OF w]]
  show ?thesis
  proof (cases h)
    case PostRead
    have "hushed c sv ?sv1" by (rule hushed_upd) (simp add: outbox_def h(1) PostRead)
    moreover have "hushed c ?sv1 sv'" using run' PostRead by (intro hushed_doReadLine) (simp add: runPosted_def)
    ultimately show ?thesis using quiet hushed_trans by blast
  next
    case (PostLine line)
    then show ?thesis using quiet hushed_line h(1) run' by blast
  next
    case PostStop
    then show ?thesis using run' h
      by (intro stop_watches[OF w _ h(2) _ assms(4), where f = "\<lambda>s. s\<lparr>s_posted := hs\<rparr>"]) (auto simp: runPosted_def outbox_def)
  qed
qed

lemma write_watches:
  assumes w: "watched n c room sv" and run: "enabled sv (WriteEnds d ok)" "run_label lib (WriteEnds d ok) sv = Some (Inr (), sv')"
    and "\<not> s_stopped (the_session sv' c)" "queues_inv sv"
  shows "watches lib c room 1 sv sv'"
proof -
  have d: "live sv d" "s_writing (the_session sv d) \<noteq> []" using run(1) by (auto simp: enabled_def)
  then obtain line ws where "s_writing (the_session sv d) = line # ws" by (cases "s_writing (the_session sv d)") auto
  then obtain rest where q: "s_writing (the_session sv d) = [line]" "s_writeQueue (the_session sv d) = line # rest"
    using writes_frontD[of "the_session sv d" line ws] assms(5) d(1) by (auto simp: queues_inv_def queue_ok_def)
  show ?thesis
  proof (cases ok)
    case True
    let ?sv1 = "upd_session d (\<lambda>s. s\<lparr>s_writing := []\<rparr>) sv"
    have "hushed c sv ?sv1" by (rule hushed_upd) (simp add: outbox_def)
    then have "hushed c sv sv'"
      using run(2) True q d hushed_written[of lib d line ?sv1 sv' rest c] hushed_trans by (auto simp: run_label_def)
    then show ?thesis by (rule watches_hushed[OF watchedD(2)[OF w]])
  next
    case False
    then show ?thesis using run q d
      by (intro stop_watches[OF w _ _ _ assms(4), where d = d and f = "\<lambda>s. s\<lparr>s_writing := []\<rparr>"])
        (auto simp: run_label_def onWrite_def outbox_def)
  qed
qed

lemma label_watches:
  assumes w: "watched n c room sv" and run: "enabled sv l" "run_label lib l sv = Some (Inr (), sv')"
    and l: "\<forall>now. l \<noteq> OnRead now c" and c': "live sv' c" "\<not> s_stopped (the_session sv' c)" and inv: "queues_inv sv"
  shows "watches lib c room 1 sv sv'"
proof -
  note quiet = watches_hushed[OF watchedD(2)[OF w]]
  show ?thesis
  proof (cases l)
    case (OnRead now d)
    then show ?thesis using read_watches[OF w] run l by blast
  next
    case (ReadFails d)
    then show ?thesis using run by (intro stop_watches[OF w _ _ _ c'(2), where d = d and f = "\<lambda>s. s\<lparr>s_read := RIdle\<rparr>"])
      (auto simp: run_label_def onReadLine_def enabled_def outbox_def)
  next
    case (WriteEnds d ok)
    then show ?thesis using write_watches[OF w _ _ c'(2) inv] run by blast
  next
    case (RunPosted d)
    then show ?thesis using posted_watches[OF w _ _ c'(2)] run by blast
  next
    case (Receive d line)
    then show ?thesis using run quiet hushed_upd[of c d sv "\<lambda>s. s\<lparr>s_read := RReady line\<rparr>"]
      by (auto simp: run_label_def outbox_def)
  next
    case (StopCall d)
    then show ?thesis using run quiet hushed_upd[of c d sv "\<lambda>s. s\<lparr>s_posted := s_posted s @ [PostStop]\<rparr>"]
      by (auto simp: run_label_def session_stop_def post_def outbox_def)
  next
    case (Destroy d)
    then have "d \<noteq> c" using run(2) c'(1) by (auto simp: run_label_def live_def)
    then show ?thesis using run(2) Destroy by (intro quiet) (auto simp: run_label_def hushed_def the_session_def)
  qed (rule quiet, use run(2) watchedD(5)[OF w] in \<open>auto simp: run_label_def accept_done_def onAccept_def add_session_def Let_def
        seqn_def reg_add_def session_start_def post_def doAccept_def hushed_def the_session_def upd_session_def\<close>)+
qed

lemma watches_member:
  assumes "watches lib c room 1 sv sv'" "watched n c room sv"
  shows "in_room (sv_core sv') room c"
proof -
  obtain ops out r r' where r: "getRoom (manager (sv_core sv)) room = Some r" "getRoom (manager (sv_core sv')) room = Some r'"
    "length ops \<le> 1" "\<forall>op\<in>set ops. op_client op \<noteq> c" "run_room r ops = Some (out, r')"
    using assms(1) unfolding watches_def room_moves_def by blast
  note D = core_okD[OF watchedD(1)[OF assms(2)] r(1)]
  have "seq_room r (2 * length ops)" using D(5) by (rule seq_room_mono) (use r(3) in simp)
  moreover have "c \<in> set (members r)" using only_inD[OF watchedD(2)[OF assms(2)] r(1)] .
  ultimately have "c \<in> set (members r')" using run_room_observer[OF D(1) _ _ r(4,5)] by blast
  then show ?thesis using r(2) by (auto simp: in_room_def)
qed

lemma run_rests:
  assumes "server_run lib sv0 tr sv" "members_inv (length tr + n) sv0" "queues_inv sv0" "c < sv_nextClientId sv0" "live sv c"
  shows "rests c sv0 sv"
  using assms
proof (induction arbitrary: n rule: server_run.induct)
  case (step tr sv l sv')
  have "progress sv0 sv" using server_run_inv[OF step.hyps(1), of "Suc n"] step.prems(1,2) by simp
  then have "c < sv_nextClientId sv" using step.prems(3) by (auto simp: progress_def)
  moreover have "l \<noteq> Destroy c" using step.hyps(3) step.prems(4) by (auto simp: run_label_def live_def)
  ultimately have r: "rests c sv sv'" using label_rests[OF step.hyps(2,3)] by blast
  then have "live sv c" using step.prems(4) by (simp add: rests_def)
  then show ?case using rests_trans[OF step.IH[of "Suc n"] r] step.prems by simp
qed (simp add: rests_refl)

lemma run_watches:
  assumes "server_run lib sv0 tr sv" "members_inv (Suc (length tr + n)) sv0" "queues_inv sv0" "watched 0 c room sv0"
    and "\<forall>now. OnRead now c \<notin> set tr" "live sv c" "\<not> s_stopped (the_session sv c)"
  shows "watched n c room sv \<and> watches lib c room (length tr) sv0 sv"
  using assms
proof (induction arbitrary: n rule: server_run.induct)
  case idle
  then show ?case using watches_hushed[OF watchedD(2)[OF idle(3)] hushed_refl] by (simp add: watched_def)
next
  case (step tr sv l sv')
  have inv: "members_inv (Suc (Suc n)) sv" "queues_inv sv" "progress sv0 sv"
    using server_run_inv[OF step.hyps(1), of "Suc (Suc n)"] step.prems(1,2) by simp_all
  have one: "server_run lib sv [l] sv'" using server_run.step[OF server_run.idle step.hyps(2,3)] by simp
  have inv': "members_inv (Suc n) sv'" using server_run_inv[OF one, of "Suc n"] inv by simp
  have "c < sv_nextClientId sv" using watchedD(5)[OF step.prems(3)] inv(3) by (auto simp: progress_def)
  then have r: "rests c sv sv'" using run_rests[OF one, of "Suc n"] inv step.prems(5) by simp
  then have alive: "live sv c" "\<not> s_stopped (the_session sv c)" using step.prems(5,6) by (auto simp: rests_def)
  have ih: "watched (Suc n) c room sv" "watches lib c room (length tr) sv0 sv"
    using step.IH[of "Suc n"] step.prems(1-4) alive by auto
  have w: "watches lib c room 1 sv sv'"
    using label_watches[OF ih(1) step.hyps(2,3) _ _ _ inv(2)] step.prems(4-6) by auto
  have "only_in c room (sv_core sv')"
    using watches_member[OF w ih(1)] inv' step.prems(5) by (auto simp: only_in_def members_inv_def)
  moreover have "sv_registry sv' c" using r watchedD(4)[OF ih(1)] step.prems(6) alive by (auto simp: rests_def)
  ultimately show ?case using inv' step.prems(5) watches_trans[OF ih(2) w] by (simp add: watched_def)
qed

subsection \<open>From the join to the screen\<close>

lemma taken_session:
  assumes "gives lib f (taken c oc sv) sv'" "live sv c"
  shows "s_currentRoom (the_session sv' c) = oc_room oc" "sv_core sv' = oc_core oc"
    "outbox (the_session sv' c) = outbox (the_session sv c) @ map (line_of lib) (f c)" "live sv' c"
proof -
  have t: "the_session (taken c oc sv) c = (the_session sv c)\<lparr>s_currentRoom := oc_room oc\<rparr>" "live (taken c oc sv) c"
    using assms(2) by (auto simp: taken_def the_session_def live_def upd_session_def)
  have "outbox (the_session (taken c oc sv) c) = outbox (the_session sv c)" unfolding t(1) by (simp add: outbox_def)
  then show "outbox (the_session sv' c) = outbox (the_session sv c) @ map (line_of lib) (f c)"
    using gives_outbox[OF assms(1) t(2)] by simp
  have "the_session sv' c = (the_session (taken c oc sv) c)\<lparr>s_posted := s_posted (the_session (taken c oc sv) c) @
      map (\<lambda>m. PostLine (line_of lib m)) (f c)\<rparr>"
    using assms(1) t(2) by (auto simp: gives_def the_session_def live_def)
  then show "s_currentRoom (the_session sv' c) = oc_room oc" using t(1) by simp
  show "sv_core sv' = oc_core oc" using assms(1) by (simp add: gives_def taken_def)
  show "live sv' c" using gives_live[OF assms(1)] t(2) by simp
qed

lemma join_outcome:
  assumes "members_inv n sv" "live sv c" "handleJoin lib c room sv = Some (Inr (), sv')"
    and "s_currentRoom (the_session sv' c) = Some room"
  shows "\<exists>r snap r0. getRoom (manager (sv_core sv)) room = Some r \<and> join r c = (Inr snap, r0) \<and>
    getRoom (manager (sv_core sv')) room = Some r0 \<and> live sv' c \<and>
    outbox (the_session sv' c) = outbox (the_session sv c) @ [line_of lib (toSnapshotMessage snap)]"
proof -
  let ?cur = "s_currentRoom (the_session sv c)"
  obtain oc where oc: "request_outcome 0 (sv_core sv) ?cur c (JoinRoomRequest room) = Some oc"
    "gives lib (owed c oc sv) (taken c oc sv) sv'" using join_refines[OF assms(3)] by blast
  note T = taken_session[OF oc(2) assms(2)]
  have room: "oc_room oc = Some room" using T(1) assms(4) by simp
  have cur: "?cur = None \<or> ?cur = Some room" using oc(1) room by (auto simp: refuse_def split: if_splits)
  have "in_room (sv_core sv) room c" if "?cur = Some room" using assms(1,2) that by (simp add: members_inv_def)
  then have "getRoom (manager (sv_core sv)) room \<noteq> None"
    using oc(1) room cur by (cases "getRoom (manager (sv_core sv)) room") (auto simp: joinRoom_def refuse_def in_room_def)
  then obtain r where r: "getRoom (manager (sv_core sv)) room = Some r" by blast
  obtain snap r0 where j: "join r c = (Inr snap, r0)" by (simp add: join_def Let_def)
  have "oc = \<lparr>oc_events = [], oc_reply = [toSnapshotMessage snap], oc_saved = [],
      oc_core = (sv_core sv)\<lparr>manager := setRoom (manager (sv_core sv)) room r0\<rparr>, oc_room = Some room\<rparr>"
    using oc(1) cur r j by (auto simp: joinRoom_def split: if_splits)
  then show ?thesis using T r j by (auto simp: owed_def rm.look_store)
qed

lemma read_join:
  assumes "members_inv n sv" "enabled sv (OnRead t c)" "run_label lib (OnRead t c) sv = Some (Inr (), sv')"
    and "s_read (the_session sv c) = RReady line" "parseClientMessage lib line = Inr (JoinRoomRequest room)"
    and "s_currentRoom (the_session sv' c) = Some room"
  shows "\<exists>r snap r0. getRoom (manager (sv_core sv)) room = Some r \<and> join r c = (Inr snap, r0) \<and>
    getRoom (manager (sv_core sv')) room = Some r0 \<and>
    outbox (the_session sv' c) = outbox (the_session sv c) @ [line_of lib (toSnapshotMessage snap)]"
proof -
  let ?sv1 = "upd_session c (\<lambda>s. s\<lparr>s_read := RIdle\<rparr>) sv"
  have c: "live sv c" using assms(2) by (simp add: enabled_def)
  obtain sv2 where sv2: "handleJoin lib c room ?sv1 = Some (Inr (), sv2)"
    "(if s_stopped (the_session sv2 c) then ret () sv2 else doReadLine c sv2) = Some (Inr (), sv')"
    using assms(3-5) by (auto simp: run_label_def onReadLine_def handleLine_def handleMessage_def simp del: act_simps(1)
        elim!: seqn_Inr)
  have h: "hushed c sv2 sv'" using sv2(2) hushed_doReadLine by (auto split: if_splits)
  have "s_currentRoom (the_session sv' c) = s_currentRoom (the_session sv2 c)"
    using sv2(2) by (cases "live sv2 c")
      (auto simp: doReadLine_def upd_session_def live_def the_session_def split: if_splits option.splits)
  then show ?thesis using join_outcome[OF _ _ sv2(1), of n] assms(1,6) c h by (auto simp: hushed_def outbox_def)
qed

lemma joined_live: "s_currentRoom (the_session sv c) = Some room \<Longrightarrow> live sv c"
  by (cases "sv_sessions sv c") (simp_all add: live_def the_session_def new_session_def)

lemma joined_watched:
  assumes run: "server_run lib (started_server core) before sv2" and room: "s_currentRoom (the_session sv2 c) = Some room"
    and inv: "members_inv (Suc (Suc (length after))) sv2" "queues_inv sv2"
    and after: "server_run lib sv2 after sv" "live sv c" "\<not> s_stopped (the_session sv c)"
  shows "watched (length after) c room sv2" "watched 0 c room sv2"
proof -
  have c2: "live sv2 c" by (rule joined_live[OF room])
  have "rests c sv2 sv" using run_rests[OF after(1), of 2 c] inv c2 after(2) by (simp add: members_inv_def)
  then have "\<not> s_stopped (the_session sv2 c)" using after(3) by (auto simp: rests_def)
  then have "sv_registry sv2 c" by (rule stays_registered[OF run c2])
  moreover have "only_in c room (sv_core sv2)" using inv(1) c2 room by (auto simp: only_in_def members_inv_def)
  ultimately show "watched (length after) c room sv2" "watched 0 c room sv2"
    using c2 members_mono[OF inv(1)] by (simp_all add: watched_def)
qed

lemma watched_screen:
  assumes "watches lib c room n sv0 sv" "core_ok (Suc n) (sv_core sv0)" "only_in c room (sv_core sv0)"
    and "getRoom (manager (sv_core sv0)) room = Some r0"
  shows "\<exists>msgs r. getRoom (manager (sv_core sv)) room = Some r \<and>
    outbox (the_session sv c) = outbox (the_session sv0 c) @ map (line_of lib) msgs \<and>
    screen (board_view (board r0)) msgs = board_view (board r) \<and>
    map message_seq msgs = [unat (nextSeq r0)..<unat (nextSeq r)]"
proof -
  obtain evs where evs: "room_moves n c room (sv_core sv0) (sv_core sv) evs"
    "outbox (the_session sv c) = outbox (the_session sv0 c) @ map (line_of lib \<circ> toServerMessage) (received c evs)"
    using assms(1) by (auto simp: watches_def)
  obtain ops out r where r: "getRoom (manager (sv_core sv)) room = Some r" "length ops \<le> n"
    "\<forall>op\<in>set ops. op_client op \<noteq> c" "run_room r0 ops = Some (out, r)" "received c out = received c evs"
    using evs(1) assms(4) unfolding room_moves_def by auto
  note D = core_okD[OF assms(2,4)]
  have seq: "seq_room r0 (2 * length ops)" using D(3) by (rule seq_room_mono) (use r(2) in simp)
  have obs: "board_view (board r) = foldl replay (board_view (board r0)) (map ev_payload (received c evs))"
    "map (\<lambda>e. unat (ev_seq e)) (received c evs) = [unat (nextSeq r0)..<unat (nextSeq r)]"
    using run_room_observer[OF D(1) seq only_inD[OF assms(3,4)] r(3,4)] r(5) by simp_all
  show ?thesis
    by (intro exI[of _ "map toServerMessage (received c evs)"] exI[of _ r])
      (use r(1) evs(2) obs in \<open>simp add: screen_events comp_def\<close>)
qed

text \<open>
  C1: A connected client shows the board. Take any run of the server in which handlers run one at a time, a client that joins a
  room and then only watches, and any further requests, failures, joins and departures of all other clients. The lines for
  this client since its join, sent, queued and posted, are those of one snapshot and of a list of events; a client that reads
  them in this order, whatever it showed before, shows exactly the room's strokes and cursors, and the events are
  numbered from the snapshot's last number on without a gap.
\<close>

theorem screen_converges:
  assumes "server_run lib (started_server (new_core sink)) before sv1" "enabled sv1 (OnRead t c)"
    and "s_read (the_session sv1 c) = RReady line" "parseClientMessage lib line = Inr (JoinRoomRequest room)"
    and "run_label lib (OnRead t c) sv1 = Some (Inr (), sv2)" "s_currentRoom (the_session sv2 c) = Some room"
    and "server_run lib sv2 after sv" "\<forall>now. OnRead now c \<notin> set after" "live sv c" "\<not> s_stopped (the_session sv c)"
    and "2 * (length before + length after) + 9 < 2 ^ 64"
  shows "\<exists>resp msgs r. getRoom (manager (sv_core sv)) room = Some r \<and>
    outbox (the_session sv c) = outbox (the_session sv1 c) @ map (line_of lib) (SnapshotResponse resp # msgs) \<and>
    screen v (SnapshotResponse resp # msgs) = board_view (board r) \<and>
    map message_seq msgs = [unat (resp_lastSeq resp) + 1..<unat (nextSeq r)]"
proof -
  note run2 = server_run.step[OF assms(1,2,5)]
  have start: "members_inv (length before + (length after + 3)) (started_server (new_core sink))" "queues_inv (started_server (new_core sink))"
    using started_server_inv[of "length before + (length after + 3)" sink] assms(11) by simp_all
  have inv1: "members_inv (length after + 3) sv1" using server_run_inv[OF assms(1)] start by blast
  have inv2: "members_inv (length after + 2) sv2" "queues_inv sv2"
    using server_run_inv[OF run2, of "length after + 2"] start by (simp_all add: eval_nat_numeral)
  have w2: "watched (length after) c room sv2" "watched 0 c room sv2"
    using joined_watched[OF run2 assms(6) _ inv2(2) assms(7,9,10)] inv2(1) by simp_all
  obtain r snap r0 where j: "getRoom (manager (sv_core sv1)) room = Some r" "join r c = (Inr snap, r0)"
    "getRoom (manager (sv_core sv2)) room = Some r0"
    "outbox (the_session sv2 c) = outbox (the_session sv1 c) @ [line_of lib (toSnapshotMessage snap)]"
    using read_join[OF inv1 assms(2,5,3,4,6)] by blast
  obtain resp where resp: "toSnapshotMessage snap = SnapshotResponse resp" by (simp add: toSnapshotMessage_def)
  have "core_ok (Suc (length after + 2)) (sv_core sv1)" using inv1 by (simp add: members_inv_def numeral_3_eq_3)
  then have "room_inv r" using core_okD(1) j(1) by blast
  then have view: "readSnapshot resp = board_view (board r0)" "unat (resp_lastSeq resp) + 1 = unat (nextSeq r0)"
    using snapshot_message_view[OF _ j(2) resp] snap_lastSeq_join[OF _ j(2)] j(2) resp
    by (auto simp: toSnapshotMessage_def join_def Let_def)
  have "watches lib c room (length after) sv2 sv"
    using run_watches[OF assms(7), of 0] inv2 members_mono[OF inv2(1), of "Suc (length after)"] w2(2) assms(8-10) by simp
  then obtain msgs r' where "getRoom (manager (sv_core sv)) room = Some r'"
    "outbox (the_session sv c) = outbox (the_session sv2 c) @ map (line_of lib) msgs"
    "screen (board_view (board r0)) msgs = board_view (board r')"
    "map message_seq msgs = [unat (nextSeq r0)..<unat (nextSeq r')]"
    using watched_screen[OF _ watchedD(1,2)[OF w2(1)] j(3)] by blast
  then show ?thesis using j(4) resp view
    by (intro exI[of _ resp] exI[of _ msgs] exI[of _ r']) (simp add: screen_def show_message_def)
qed

text \<open>Client 2 joins the room of client 1 and watches it begin a stroke.\<close>

definition watch_before :: "string \<Rightarrow> string \<Rightarrow> ServerLabel list" where
  "watch_before l1 l2 = [Accept, Accept, RunPosted 1, RunPosted 2, Receive 1 l1, OnRead 0 1, Receive 1 l2, OnRead 0 1, Receive 2 l2]"

lemma watch_exec:
  assumes "parseClientMessage lib l1 = Inr CreateRoomRequest" "parseClientMessage lib l2 = Inr (JoinRoomRequest 1)"
    and "parseClientMessage lib l3 = Inr (StrokeBeginRequest 1 3 2 start)"
    and "CHR 0x0A \<notin> set l1" "CHR 0x0A \<notin> set l2" "CHR 0x0A \<notin> set l3" "\<And>m. serializeServerMessage lib m = Inr (ser m)"
  shows "\<exists>sv1 sv2 sv r. run_labels lib (watch_before l1 l2) (started_server (new_core sink)) = Some sv1 \<and>
    enabled sv1 (OnRead 0 2) \<and> s_read (the_session sv1 2) = RReady l2 \<and>
    run_label lib (OnRead 0 2) sv1 = Some (Inr (), sv2) \<and> s_currentRoom (the_session sv2 2) = Some 1 \<and>
    run_labels lib [Receive 1 l3, OnRead 0 1] sv2 = Some sv \<and> live sv 2 \<and> \<not> s_stopped (the_session sv 2) \<and>
    getRoom (manager (sv_core sv)) 1 = Some r \<and> length (strokes (board r)) = 1 \<and>
    length (outbox (the_session sv1 2)) = 0 \<and> length (outbox (the_session sv 2)) = 2"
  using assms by (simp add: watch_before_def server_eval handleDraw_def core_handleEvent_def dispatchOutgoing.simps reg_deliver_def
      reg_find_def toServerMessage_def shouldSave_def toColor_def toThickness_def Blue_def Thick_def outbox_def)

theorem screen_converges_witness:
  "\<exists>l1 l2 sv1 sv resp m r. server_run plain_json (started_server (new_core True)) (watch_before l1 l2) sv1 \<and>
     getRoom (manager (sv_core sv)) 1 = Some r \<and> length (strokes (board r)) = 1 \<and>
     outbox (the_session sv 2) = outbox (the_session sv1 2) @ map (line_of plain_json) [SnapshotResponse resp, m] \<and>
     screen \<lparr>view_strokes = [], view_cursors = Map.empty\<rparr> [SnapshotResponse resp, m] = board_view (board r)"
proof -
  obtain l1 where l1: "CHR 0x0A \<notin> set l1" "parseClientMessage plain_json l1 = Inr CreateRoomRequest"
    by (rule plain_request[of CreateRoomRequest]) simp_all
  obtain l2 where l2: "CHR 0x0A \<notin> set l2" "parseClientMessage plain_json l2 = Inr (JoinRoomRequest 1)"
    by (rule plain_request[of "JoinRoomRequest 1"]) simp_all
  let ?req = "StrokeBeginRequest 1 3 2 \<lparr>dto_x = 0, dto_y = 0\<rparr>"
  obtain l3 where l3: "CHR 0x0A \<notin> set l3" "parseClientMessage plain_json l3 = Inr ?req"
    by (rule plain_request[of ?req]) (simp_all add: finite_point_def finite_float_def)
  obtain ser where ser: "\<And>m. serializeServerMessage plain_json m = Inr (ser m)" using plain_serialize by blast
  obtain sv1 sv2 sv r where sv: "run_labels plain_json (watch_before l1 l2) (started_server (new_core True)) = Some sv1"
    "enabled sv1 (OnRead 0 2)" "s_read (the_session sv1 2) = RReady l2"
    "run_label plain_json (OnRead 0 2) sv1 = Some (Inr (), sv2)" "s_currentRoom (the_session sv2 2) = Some 1"
    "run_labels plain_json [Receive 1 l3, OnRead 0 1] sv2 = Some sv" "live sv 2" "\<not> s_stopped (the_session sv 2)"
    "getRoom (manager (sv_core sv)) 1 = Some r" "length (strokes (board r)) = 1"
    "length (outbox (the_session sv1 2)) = 0" "length (outbox (the_session sv 2)) = 2"
    using watch_exec[OF l1(2) l2(2) l3(2) l1(1) l2(1) l3(1) ser, of True] by (elim exE conjE)
  let ?v = "\<lparr>view_strokes = [], view_cursors = Map.empty\<rparr> :: View"
  obtain resp msgs where res: "outbox (the_session sv 2) = outbox (the_session sv1 2) @ map (line_of plain_json) (SnapshotResponse resp # msgs)"
    "screen ?v (SnapshotResponse resp # msgs) = board_view (board r)"
    using screen_converges[OF run_labels_run[OF sv(1)] sv(2,3) l2(2) sv(4,5) run_labels_run[OF sv(6)] _ sv(7,8), of ?v] sv(9)
    by (auto simp: watch_before_def simp del: list.map)
  have "length msgs = 1" using res(1) sv(11,12) by simp
  then obtain m where "msgs = [m]" by (auto simp: length_Suc_conv)
  then show ?thesis using run_labels_run[OF sv(1)] sv(9,10) res by (intro exI conjI) simp_all
qed

end
