(* ===== verification/CS_Delivery.thy ===== *)
theory CS_Delivery
  imports CS_Screen
begin

text \<open>
  Lines posted to a session reach its client, if the connection works: the posted handlers of the session and the completions of its
  writes alone send everything, in order. \<open>pending c sv\<close> counts what is left to do, and every step makes it smaller.
\<close>

definition connected :: "ClientId \<Rightarrow> Server \<Rightarrow> bool" where
  "connected c sv \<longleftrightarrow> live sv c \<and> \<not> s_stopped (the_session sv c) \<and> PostStop \<notin> set (s_posted (the_session sv c)) \<and>
     queue_ok (the_session sv c)"

definition pending :: "ClientId \<Rightarrow> Server \<Rightarrow> nat" where
  "pending c sv = 2 * length (s_posted (the_session sv c)) + length (s_writeQueue (the_session sv c))"

lemma posted_drains:
  assumes "connected c sv" "s_posted (the_session sv c) = h # hs"
  shows "\<exists>sv'. run_label lib (RunPosted c) sv = Some (Inr (), sv') \<and> connected c sv' \<and>
    outbox (the_session sv' c) = outbox (the_session sv c) \<and> pending c sv' < pending c sv"
  using assms by (cases h) (auto simp: run_label_def runPosted_def doReadLine_def doWrite_def connected_def pending_def
      outbox_def queue_ok_def writes_front_def Let_def seqn_def Suc_le_eq)

lemma written_drains:
  assumes "connected c sv" "s_writeQueue (the_session sv c) = line # rest"
  shows "\<exists>sv'. run_label lib (WriteEnds c True) sv = Some (Inr (), sv') \<and> connected c sv' \<and>
    outbox (the_session sv' c) = outbox (the_session sv c) \<and> pending c sv' < pending c sv"
proof -
  have q: "writes_front (the_session sv c)" "s_writing (the_session sv c) \<noteq> []" using assms by (auto simp: connected_def queue_ok_def)
  then have "s_writing (the_session sv c) = [line]" using assms(2) by (simp add: writes_front_def)
  then show ?thesis using assms
    by (cases rest) (auto simp: run_label_def onWrite_def doWrite_def connected_def pending_def outbox_def queue_ok_def writes_front_def)
qed

lemma drained:
  assumes "connected c sv"
  shows "\<exists>tr sv'. set tr \<subseteq> {RunPosted c, WriteEnds c True} \<and> length tr \<le> pending c sv \<and> server_run lib sv tr sv' \<and>
    s_written (the_session sv' c) = outbox (the_session sv c)"
  using assms
proof (induction "pending c sv" arbitrary: sv rule: less_induct)
  case less
  have go: ?case if l: "l \<in> {RunPosted c, WriteEnds c True}" "enabled sv l" and sv1: "run_label lib l sv = Some (Inr (), sv1)"
    "connected c sv1" "outbox (the_session sv1 c) = outbox (the_session sv c)" "pending c sv1 < pending c sv" for l sv1
  proof -
    obtain tr sv' where tr: "set tr \<subseteq> {RunPosted c, WriteEnds c True}" "length tr \<le> pending c sv1" "server_run lib sv1 tr sv'"
      "s_written (the_session sv' c) = outbox (the_session sv1 c)"
      using less.hyps[OF sv1(4,2)] by blast
    show ?thesis
      by (intro exI[of _ "l # tr"] exI[of _ sv']) (use tr l sv1 server_run_prepend[OF tr(3) l(2) sv1(1)] in auto)
  qed
  have c: "live sv c" "queue_ok (the_session sv c)" "\<not> s_stopped (the_session sv c)" using less.prems by (simp_all add: connected_def)
  show ?case
  proof (cases "s_posted (the_session sv c)")
    case (Cons h hs)
    then have "enabled sv (RunPosted c)" using c(1) by (simp add: enabled_def)
    then show ?thesis using go[of "RunPosted c"] posted_drains[OF less.prems Cons, of lib] by blast
  next
    case Nil
    show ?thesis
    proof (cases "s_writeQueue (the_session sv c)")
      case (Cons line rest)
      then have "enabled sv (WriteEnds c True)" using c by (auto simp: enabled_def queue_ok_def)
      then show ?thesis using go[of "WriteEnds c True"] written_drains[OF less.prems Cons, of lib] by blast
    next
      case Nil
      then show ?thesis using \<open>s_posted (the_session sv c) = []\<close>
        by (intro exI[of _ "[]"] exI[of _ sv]) (simp add: outbox_def server_run.idle)
    qed
  qed
qed

text \<open>
  C15: Every line posted to a client is sent. In any run of the server, whenever a session is not stopped and no stop is waiting,
  its own handlers and the successful completions of its writes, at most two per waiting line, lead to a state in which
  everything ever posted to the client has been written to its socket, in the order of posting. Nothing else has to happen for it.
\<close>

theorem posted_lines_are_sent:
  assumes "server_run lib (started_server (new_core sink)) tr sv" "2 * length tr + 3 < 2 ^ 64" "live sv c"
    and "\<not> s_stopped (the_session sv c)" "PostStop \<notin> set (s_posted (the_session sv c))"
  shows "\<exists>tr' sv'. set tr' \<subseteq> {RunPosted c, WriteEnds c True} \<and>
    length tr' \<le> 2 * length (s_posted (the_session sv c)) + length (s_writeQueue (the_session sv c)) \<and>
    server_run lib sv tr' sv' \<and> s_written (the_session sv' c) = outbox (the_session sv c)"
proof -
  have "queues_inv sv" using server_run_inv[OF assms(1), of 0] started_server_inv[of "length tr" sink] assms(2) by simp
  then have "connected c sv" using assms(3-5) by (simp add: connected_def queues_inv_def)
  then show ?thesis using drained unfolding pending_def by blast
qed

lemma pair_connected:
  assumes "parseClientMessage lib l1 = Inr CreateRoomRequest" "parseClientMessage lib l2 = Inr (JoinRoomRequest 1)"
    and "CHR 0x0A \<notin> set l1" "CHR 0x0A \<notin> set l2" "\<And>m. serializeServerMessage lib m = Inr (ser m)"
  shows "\<exists>sv. run_labels lib (pair_run l1 l2) (started_server (new_core sink)) = Some sv \<and> live sv 1 \<and>
    \<not> s_stopped (the_session sv 1) \<and> PostStop \<notin> set (s_posted (the_session sv 1)) \<and>
    length (outbox (the_session sv 1)) = 2 \<and> s_written (the_session sv 1) = []"
  using assms by (simp add: pair_run_def server_eval outbox_def)

theorem posted_lines_are_sent_witness:
  "\<exists>l1 l2 sv tr' sv'. server_run plain_json (started_server (new_core True)) (pair_run l1 l2) sv \<and>
     s_written (the_session sv 1) = [] \<and> server_run plain_json sv tr' sv' \<and>
     s_written (the_session sv' 1) = outbox (the_session sv 1) \<and> length (s_written (the_session sv' 1)) = 2"
proof -
  obtain l1 where l1: "CHR 0x0A \<notin> set l1" "parseClientMessage plain_json l1 = Inr CreateRoomRequest"
    by (rule plain_request[of CreateRoomRequest]) simp_all
  obtain l2 where l2: "CHR 0x0A \<notin> set l2" "parseClientMessage plain_json l2 = Inr (JoinRoomRequest 1)"
    by (rule plain_request[of "JoinRoomRequest 1"]) simp_all
  obtain ser where ser: "\<And>m. serializeServerMessage plain_json m = Inr (ser m)" using plain_serialize by blast
  obtain sv where sv: "run_labels plain_json (pair_run l1 l2) (started_server (new_core True)) = Some sv" "live sv 1"
    "\<not> s_stopped (the_session sv 1)" "PostStop \<notin> set (s_posted (the_session sv 1))"
    "length (outbox (the_session sv 1)) = 2" "s_written (the_session sv 1) = []"
    using pair_connected[OF l1(2) l2(2) l1(1) l2(1) ser, of True] by (elim exE conjE)
  obtain tr' sv' where "server_run plain_json sv tr' sv'" "s_written (the_session sv' 1) = outbox (the_session sv 1)"
    using posted_lines_are_sent[OF run_labels_run[OF sv(1)] _ sv(2-4)] by (auto simp: pair_run_def)
  then show ?thesis using run_labels_run[OF sv(1)] sv(5,6) by (intro exI conjI) (assumption | simp)+
qed

end
