(* ===== verification/CS_Time.thy ===== *)
theory CS_Time
  imports CS_Room_Run
begin

text \<open>
  The clock of the rooms: \<^verbatim>\<open>core/include/clearspace/core/time.hpp\<close> and \<^verbatim>\<open>core/src/time.cpp\<close>. A time provider answers
  \<^verbatim>\<open>now()\<close> from some state of the world. \<^verbatim>\<open>SystemTimeProvider\<close> reads \<^verbatim>\<open>std::chrono::steady_clock\<close>, whose readings never
  decrease: \<open>clk_elapsed i\<close> is the time that passes before reading \<open>i\<close>, in nanoseconds. \<open>run_clocked\<close> calls the
  operations of a room with its provider; only a cursor move by a member reads the clock, inside the room's critical section.

  The locale \<open>time_provider\<close> is what the rate limit of cursor moves needs of the clock.
\<close>

type_synonym 'w ITimeProvider = "'w \<Rightarrow> TimePoint \<times> 'w"

record SteadyClock =
  clk_time :: TimePoint
  clk_elapsed :: "nat \<Rightarrow> nat"
  clk_reads :: nat

definition SystemTimeProvider_now :: "SteadyClock ITimeProvider" where
  "SystemTimeProvider_now clk =
     (let t = clk_time clk + int (clk_elapsed clk (clk_reads clk))
      in (t, clk\<lparr>clk_time := t, clk_reads := Suc (clk_reads clk)\<rparr>))"

definition makeSystemTimeProvider :: "SteadyClock ITimeProvider" where
  "makeSystemTimeProvider = SystemTimeProvider_now"

datatype room_call = CallJoin ClientId | CallLeave ClientId | CallApply ClientId EventPayload

fun clocked :: "'w ITimeProvider \<Rightarrow> Room \<Rightarrow> 'w \<Rightarrow> room_call \<Rightarrow> room_op \<times> 'w" where
  "clocked now r w (CallJoin c) = (Join c, w)"
| "clocked now r w (CallLeave c) = (Leave c, w)"
| "clocked now r w (CallApply c ev) =
     (case (ensureMember r c, ev) of
        (Inr _, CursorMove p) \<Rightarrow> (case now w of (t, w') \<Rightarrow> (Apply c t ev, w'))
      | _ \<Rightarrow> (Apply c 0 ev, w))"

fun run_clocked :: "'w ITimeProvider \<Rightarrow> Room \<Rightarrow> 'w \<Rightarrow> room_call list \<Rightarrow> (room_op list \<times> Room \<times> 'w) option" where
  "run_clocked now r w [] = Some ([], r, w)"
| "run_clocked now r w (call # calls) =
     (case clocked now r w call of (op, w1) \<Rightarrow> do {
        (out, r1) \<leftarrow> run_op r op;
        (ops, r2, w2) \<leftarrow> run_clocked now r1 w1 calls;
        Some (op # ops, r2, w2) })"

text \<open>The cursor moves of a member along a run, with their times and whether they were accepted.\<close>

fun cursor_entry :: "ClientId \<Rightarrow> Room \<Rightarrow> Room \<Rightarrow> room_op \<Rightarrow> (TimePoint \<times> bool) list" where
  "cursor_entry c r r' (Apply d t (CursorMove p)) =
     (if d = c \<and> c \<in> set (members r) then [(t, nextSeq r' \<noteq> nextSeq r)] else [])"
| "cursor_entry c r r' op = []"

lemma cursor_entry_Cons:
  assumes "cursor_entry c r r' op = e # es"
  obtains t p where "es = []" "op = Apply c t (CursorMove p)" "c \<in> set (members r)" "e = (t, nextSeq r' \<noteq> nextSeq r)"
proof (cases op)
  case (Apply d t ev)
  then show thesis using assms that by (cases ev) (auto split: if_splits)
qed (use assms in simp_all)

fun cursor_log :: "ClientId \<Rightarrow> Room \<Rightarrow> room_op list \<Rightarrow> (TimePoint \<times> bool) list" where
  "cursor_log c r [] = []"
| "cursor_log c r (op # ops) = (case run_op r op of
     None \<Rightarrow> [] | Some (out, r') \<Rightarrow> cursor_entry c r r' op @ cursor_log c r' ops)"

definition accepted :: "(TimePoint \<times> bool) list \<Rightarrow> TimePoint list" where
  "accepted log = map fst (filter snd log)"

lemma accepted_simps [simp]:
  "accepted [] = []" "accepted ((t, ok) # log) = (if ok then t # accepted log else accepted log)"
  "accepted (log @ log') = accepted log @ accepted log'"
  by (simp_all add: accepted_def)

text \<open>What the rate limit keeps: the last accepted move and the accepted moves that follow are an interval apart.\<close>

definition spaced :: "TimePoint option \<Rightarrow> (TimePoint \<times> bool) list \<Rightarrow> bool" where
  "spaced lst log \<longleftrightarrow> sorted_wrt (\<lambda>a b. a + kCursorMinInterval \<le> b) (case lst of None \<Rightarrow> accepted log | Some a \<Rightarrow> a # accepted log) \<and>
     (\<forall>t. (t, False) \<in> set log \<longrightarrow> (\<exists>a\<in>set_option lst \<union> set (accepted log). a \<le> t \<and> t < a + kCursorMinInterval))"

lemma spaced_drop:
  "spaced (Some a) log \<Longrightarrow> a \<le> t \<Longrightarrow> t - a < kCursorMinInterval \<Longrightarrow> spaced (Some a) ((t, False) # log)"
  by (auto simp: spaced_def)

lemma spaced_accept:
  assumes "spaced (Some t) log" "\<And>a. lst = Some a \<Longrightarrow> a + kCursorMinInterval \<le> t"
  shows "spaced lst ((t, True) # log)"
  using assms by (cases lst) (fastforce simp: spaced_def kCursorMinInterval_def)+

lemma accepted_count:
  "sorted_wrt (\<lambda>a b. a + kCursorMinInterval \<le> b) (a # ts) \<Longrightarrow> int (length ts) * kCursorMinInterval \<le> last (a # ts) - a"
proof (induction ts arbitrary: a)
  case (Cons b ts)
  then have "int (length ts) * kCursorMinInterval \<le> last (b # ts) - b" "a + kCursorMinInterval \<le> b" by auto
  then show ?case by (simp add: algebra_simps)
qed simp

locale time_provider =
  fixes now :: "'w ITimeProvider"
    and time :: "'w \<Rightarrow> TimePoint"
  assumes reading: "now w = (t, w') \<Longrightarrow> time w \<le> t \<and> time w' = t"
begin

lemma clocked_time: "clocked now r w call = (op, w1) \<Longrightarrow> time w \<le> time w1"
  by (cases call) (auto split: sum.splits EventPayload.splits prod.splits dest: reading)

text \<open>A call that is not a cursor move of the member \<open>c\<close> leaves its entry alone.\<close>

lemma clocked_other:
  assumes "clocked now r w call = (op, w1)" "run_op r op = Some (out, r1)" "call \<noteq> CallLeave c"
    and "cursor_entry c r r1 op = []"
  shows "lastCursorUpdate r1 c = lastCursorUpdate r c"
proof (cases "\<exists>t p. op = Apply c t (CursorMove p)")
  case True
  then obtain t p where op: "op = Apply c t (CursorMove p)" by blast
  then have "c \<notin> set (members r)" using assms(4) by (auto split: if_splits)
  then show ?thesis using assms(2) op by (auto simp: apply_event_def ensureMember_def)
next
  case False
  have "op \<noteq> Leave c" using assms(1,3) by (cases call) (auto split: sum.splits EventPayload.splits prod.splits)
  then have "leaves_cursor_alone c op" using False by (cases op) (auto simp: leaves_cursor_alone_def)
  then show ?thesis using run_op_cursor_frame[OF _ assms(2)] by blast
qed

lemma clocked_move:
  assumes "clocked now r w call = (op, w1)" "run_op r op = Some (out, r1)" "cursor_entry c r r1 op = e # es"
    and "\<forall>a. lastCursorUpdate r c = Some a \<longrightarrow> a \<le> time w"
  obtains t where "e = (t, True)" "lastCursorUpdate r1 c = Some t" "t = time w1"
      "\<And>a. lastCursorUpdate r c = Some a \<Longrightarrow> a + kCursorMinInterval \<le> t"
    | t a where "e = (t, False)" "r1 = r" "lastCursorUpdate r c = Some a" "a \<le> t" "t - a < kCursorMinInterval" "a \<le> time w1"
proof -
  obtain t p where op: "op = Apply c t (CursorMove p)" "c \<in> set (members r)" "e = (t, nextSeq r1 \<noteq> nextSeq r)"
    by (rule cursor_entry_Cons[OF assms(3)]) blast
  have "call = CallApply c (CursorMove p)"
    using assms(1) op(1) by (cases call) (auto split: sum.splits EventPayload.splits prod.splits)
  then have t: "now w = (t, w1)" using assms(1) op(1,2) by (auto simp: ensureMember_def split: prod.splits)
  have "\<exists>res. applyCursorMove r t c p = Some (res, r1)"
    using assms(2) op(1,2) by (auto simp: apply_event_def ensureMember_def)
  then obtain res where res: "applyCursorMove r t c p = Some (res, r1)" by blast
  show thesis
  proof (cases "\<exists>a. lastCursorUpdate r c = Some a \<and> t - a < kCursorMinInterval")
    case True
    then obtain a where a: "lastCursorUpdate r c = Some a" "t - a < kCursorMinInterval" by blast
    then have "r1 = r" using res by (simp add: applyCursorMove_def)
    then show thesis using that(2)[of t a] a op(3) reading[OF t] assms(4) by simp
  next
    case False
    then have "r1 = r\<lparr>lastCursorUpdate := (lastCursorUpdate r)(c \<mapsto> t),
        board := (board r)\<lparr>cursors := AList.update c p (cursors (board r))\<rparr>, nextSeq := nextSeq r + 1\<rparr>"
      using res by (cases "lastCursorUpdate r c") (simp_all add: applyCursorMove_def Let_def)
    moreover have "a + kCursorMinInterval \<le> t" if "lastCursorUpdate r c = Some a" for a using False that by force
    ultimately show thesis using op(3) reading[OF t] by (intro that(1)[of t]) simp_all
  qed
qed

lemma run_spaced:
  assumes "run_clocked now r w calls = Some (ops, r', w')" "CallLeave c \<notin> set calls"
    and "\<forall>a. lastCursorUpdate r c = Some a \<longrightarrow> a \<le> time w"
  shows "spaced (lastCursorUpdate r c) (cursor_log c r ops)"
  using assms
proof (induction calls arbitrary: r w ops)
  case Nil
  then show ?case by (auto simp: spaced_def split: option.splits)
next
  case (Cons call calls)
  obtain op w1 where op: "clocked now r w call = (op, w1)" by (cases "clocked now r w call")
  then obtain out r1 ops' where run: "run_op r op = Some (out, r1)" "run_clocked now r1 w1 calls = Some (ops', r', w')" "ops = op # ops'"
    using Cons.prems(1) by (auto split: bind_splits)
  note ih = Cons.IH[OF run(2)]
  have notleave: "CallLeave c \<notin> set calls" "call \<noteq> CallLeave c" using Cons.prems(2) by auto
  note known = Cons.prems(3)
  have log: "cursor_log c r ops = cursor_entry c r r1 op @ cursor_log c r1 ops'" using run by simp
  show ?case
  proof (cases "cursor_entry c r r1 op")
    case Nil
    have "lastCursorUpdate r1 c = lastCursorUpdate r c"
      using clocked_other[OF op run(1) notleave(2) Nil] .
    moreover have "\<forall>a. lastCursorUpdate r1 c = Some a \<longrightarrow> a \<le> time w1"
      using known clocked_time[OF op] calculation by (metis order_trans)
    ultimately show ?thesis using ih[OF notleave(1)] log Nil by simp
  next
    case (Cons e es)
    have es: "es = []" by (rule cursor_entry_Cons[OF Cons])
    show ?thesis
    proof (cases rule: clocked_move[OF op run(1) Cons known, consumes 0, case_names accept drop])
      case (accept t)
      have "spaced (Some t) (cursor_log c r1 ops')" using ih[OF notleave(1)] accept(2,3) by simp
      then show ?thesis unfolding log Cons es append.simps accept(1) by (rule spaced_accept) (rule accept(4))
    next
      case (drop t a)
      have "spaced (Some a) (cursor_log c r1 ops')" using ih[OF notleave(1)] drop(2,3,6) by simp
      then show ?thesis unfolding log Cons es append.simps drop(1,3) using drop(4,5) by (intro spaced_drop)
    qed
  qed
qed

end

interpretation system_clock: time_provider makeSystemTimeProvider clk_time
  by unfold_locales (auto simp: makeSystemTimeProvider_def SystemTimeProvider_now_def Let_def)

lemma clocked_runs:
  assumes "room_inv r" "seq_room r (2 * length calls)"
  shows "\<exists>ops r' w'. run_clocked now r w calls = Some (ops, r', w')"
  using assms
proof (induction calls arbitrary: r w)
  case (Cons call calls)
  obtain op w1 where op: "clocked now r w call = (op, w1)" by (cases "clocked now r w call")
  have "seq_room r (2 * length (op # replicate (length calls) op))" using Cons.prems(2) by simp
  then obtain out r1 where "run_op r op = Some (out, r1)" "room_inv r1" "seq_room r1 (2 * length calls)"
    using run_room_step[OF Cons.prems(1)] by (metis length_replicate)
  with Cons.IH[of r1 w1] op show ?case by auto
qed simp

text \<open>
  C26: The rate limit of cursor moves, with the clock of the system. Every sequence of calls of a room (short enough that no
  counter wraps) runs to its end. As long as a client does not leave the room, \<open>k\<close> accepted moves of its cursor
  take at least \<open>k - 1\<close> intervals of 40 ms, whatever all clients do; and the limit never locks a cursor: a move is
  dropped only within 40 ms after an accepted one.
\<close>

theorem cursor_budget:
  assumes "2 * length calls + 1 < 2 ^ 64" "CallLeave c \<notin> set calls"
  shows "\<exists>ops r clk' log. run_clocked makeSystemTimeProvider (new_room rid) clk calls = Some (ops, r, clk') \<and>
    log = cursor_log c (new_room rid) ops \<and>
    (\<forall>t ts. accepted log = t # ts \<longrightarrow> int (length ts) * kCursorMinInterval \<le> last (t # ts) - t) \<and>
    (\<forall>t. (t, False) \<in> set log \<longrightarrow> (\<exists>a\<in>set (accepted log). a \<le> t \<and> t < a + kCursorMinInterval))"
proof -
  obtain ops r clk' where run: "run_clocked makeSystemTimeProvider (new_room rid) clk calls = Some (ops, r, clk')"
    using clocked_runs[OF new_room_inv new_room_space[OF assms(1)], of makeSystemTimeProvider rid clk] by blast
  have "spaced None (cursor_log c (new_room rid) ops)"
    using system_clock.run_spaced[OF run assms(2)] by (simp add: new_room_def)
  then have gaps: "sorted_wrt (\<lambda>a b. a + kCursorMinInterval \<le> b) (accepted (cursor_log c (new_room rid) ops))"
    "\<forall>t. (t, False) \<in> set (cursor_log c (new_room rid) ops) \<longrightarrow>
      (\<exists>a\<in>set (accepted (cursor_log c (new_room rid) ops)). a \<le> t \<and> t < a + kCursorMinInterval)"
    by (simp_all add: spaced_def)
  have "int (length ts) * kCursorMinInterval \<le> last (t # ts) - t"
    if "accepted (cursor_log c (new_room rid) ops) = t # ts" for t ts
    using gaps(1) unfolding that by (rule accepted_count)
  then show ?thesis using run gaps(2) by blast
qed

text \<open>Four moves, 30 ms apart: the first and the third are accepted.\<close>

definition busy_cursor :: "room_call list" where
  "busy_cursor = (let move = CallApply 5 (CursorMove \<lparr>pt_x = 0, pt_y = 0\<rparr>)
     in [CallJoin 5, CallJoin 6, move, move, move, move])"

definition ticking :: SteadyClock where
  "ticking = \<lparr>clk_time = 0, clk_elapsed = (\<lambda>_. 30 * 1000000), clk_reads = 0\<rparr>"

theorem cursor_budget_witness:
  "\<exists>ops r clk'. run_clocked makeSystemTimeProvider (new_room 1) ticking busy_cursor = Some (ops, r, clk') \<and>
     cursor_log 5 (new_room 1) ops = [(30000000, True), (60000000, False), (90000000, True), (120000000, False)] \<and>
     kCursorMinInterval \<le> 90000000 - 30000000"
proof -
  let ?log = "[(30000000, True), (60000000, False), (90000000, True), (120000000, False)] :: (TimePoint \<times> bool) list"
  obtain ops r clk' where run: "run_clocked makeSystemTimeProvider (new_room 1) ticking busy_cursor = Some (ops, r, clk')"
    "cursor_log 5 (new_room 1) ops = ?log"
    by (simp add: busy_cursor_def ticking_def makeSystemTimeProvider_def SystemTimeProvider_now_def room_eval
        kCursorMinInterval_def)
  have "int (length [90000000 :: TimePoint]) * kCursorMinInterval \<le> last [30000000, 90000000] - 30000000"
    using cursor_budget[of busy_cursor 5 1 ticking] run by (simp add: busy_cursor_def Let_def)
  then show ?thesis using run by simp
qed

end
