(* ===== verification/CS_Concurrency.thy ===== *)
theory CS_Concurrency
  imports CS_Server_Core "HOL-Library.Multiset"
begin

text \<open>
  Calls of several threads into one room. \<^verbatim>\<open>ServerCore::handleEvent\<close>, \<^verbatim>\<open>leaveRoom\<close> and \<^verbatim>\<open>joinRoom\<close> take the
  room's mutex once per \<^verbatim>\<open>Room\<close> method they call and hold nothing in between, and the session that
  called them dispatches the events afterwards. A step here is one such critical section, one
  \<^verbatim>\<open>enqueue\<close>, one look into the registry, or one post to a session. \<open>Shared\<close> is the room, the snapshots enqueued so far, the
  messages posted to each client's session in their order, the clients that the registry finds, and where each thread is in
  its call; rooms do not interact (\<open>rooms_isolated\<close>), so one room is enough. An inbox holds what the room causes, events and join
  snapshots; error and success replies to the caller itself are left out.

  An event whose client the registry does not find is discarded, as in \<^verbatim>\<open>SessionRegistry::deliver\<close>; the label names it. Sessions
  enter the registry at any time. They are removed by \<^verbatim>\<open>stopImpl\<close>, on their strand and after it has left the room the
  session is in, so the client is not a member at that moment (\<open>threads_consistent\<close> shows that a session knows its room). The
  messages of events have no text from outside, so printing them does not throw.
\<close>

datatype Inbox = InEvent OutgoingEvent | InSnapshot RoomSnapshot

datatype CallPc =
    AtStart
  | Applied "OutgoingEvent list"
  | LeftRoom "OutgoingEvent list"
  | FoundEmpty "OutgoingEvent list"
  | Snapped "OutgoingEvent list" PersistedBoardSnapshot
  | Dispatching "OutgoingEvent list"
  | Delivering OutgoingEvent "OutgoingEvent list"
  | JoinedRoom ClientId RoomSnapshot

record Shared =
  sh_room :: Room
  sh_sink :: bool
  sh_queue :: "PersistedBoardSnapshot list"
  sh_inbox :: "ClientId \<Rightarrow> Inbox list"
  sh_registry :: "ClientId \<Rightarrow> bool"
  sh_pcs :: "CallPc list"

datatype clabel = Locked nat room_op | Count nat | TakeSnapshot nat | Enqueue nat | Lookup nat | Discard nat OutgoingEvent
  | Dispatch nat | Return nat | DeliverSnapshot nat | Register ClientId | Unregister ClientId

definition at :: "Shared \<Rightarrow> nat \<Rightarrow> CallPc \<Rightarrow> bool" where
  "at s t pc \<longleftrightarrow> t < length (sh_pcs s) \<and> sh_pcs s ! t = pc"

definition goto :: "nat \<Rightarrow> CallPc \<Rightarrow> Shared \<Rightarrow> Shared" where
  "goto t pc s = s\<lparr>sh_pcs := (sh_pcs s)[t := pc]\<rparr>"

definition put :: "ClientId \<Rightarrow> Inbox \<Rightarrow> Shared \<Rightarrow> Shared" where
  "put c msg s = s\<lparr>sh_inbox := (sh_inbox s)(c := sh_inbox s c @ [msg])\<rparr>"

inductive event_call :: "Shared \<Rightarrow> clabel \<Rightarrow> Shared \<Rightarrow> bool" where
  "\<lbrakk>at s t AtStart; apply_event (sh_room s) now c ev = Some (Inl e, r')\<rbrakk> \<Longrightarrow>
   event_call s (Locked t (Apply c now ev)) (s\<lparr>sh_room := r'\<rparr>)"
| "\<lbrakk>at s t AtStart; apply_event (sh_room s) now c ev = Some (Inr out, r')\<rbrakk> \<Longrightarrow>
   event_call s (Locked t (Apply c now ev))
     (goto t (if sh_sink s \<and> shouldSave ev then Applied out else Dispatching out) (s\<lparr>sh_room := r'\<rparr>))"
| "at s t (Applied out) \<Longrightarrow>
   event_call s (TakeSnapshot t) (goto t (Snapped out (makePersistedSnapshot (sh_room s))) s)"

inductive leave_call :: "Shared \<Rightarrow> clabel \<Rightarrow> Shared \<Rightarrow> bool" where
  "\<lbrakk>at s t AtStart; leave (sh_room s) c = Some (Inl e, r')\<rbrakk> \<Longrightarrow>
   leave_call s (Locked t (Leave c)) (s\<lparr>sh_room := r'\<rparr>)"
| "\<lbrakk>at s t AtStart; leave (sh_room s) c = Some (Inr out, r')\<rbrakk> \<Longrightarrow>
   leave_call s (Locked t (Leave c))
     (goto t (if sh_sink s then LeftRoom out else Dispatching out) (s\<lparr>sh_room := r'\<rparr>))"
| "at s t (LeftRoom out) \<Longrightarrow>
   leave_call s (Count t) (goto t (if memberCount (sh_room s) = 0 then FoundEmpty out else Dispatching out) s)"
| "at s t (FoundEmpty out) \<Longrightarrow>
   leave_call s (TakeSnapshot t) (goto t (Snapped out (makePersistedSnapshot (sh_room s))) s)"

inductive join_call :: "Shared \<Rightarrow> clabel \<Rightarrow> Shared \<Rightarrow> bool" where
  "\<lbrakk>at s t AtStart; join (sh_room s) c = (Inr snap, r')\<rbrakk> \<Longrightarrow>
   join_call s (Locked t (Join c)) (goto t (JoinedRoom c snap) (s\<lparr>sh_room := r'\<rparr>))"
| "at s t (JoinedRoom c snap) \<Longrightarrow>
   join_call s (DeliverSnapshot t) (goto t AtStart (put c (InSnapshot snap) s))"

inductive finish_call :: "Shared \<Rightarrow> clabel \<Rightarrow> Shared \<Rightarrow> bool" where
  "at s t (Snapped out sn) \<Longrightarrow>
   finish_call s (Enqueue t) (goto t (Dispatching out) (s\<lparr>sh_queue := sh_queue s @ [sn]\<rparr>))"
| "\<lbrakk>at s t (Dispatching (e # es)); sh_registry s (ev_to e)\<rbrakk> \<Longrightarrow> finish_call s (Lookup t) (goto t (Delivering e es) s)"
| "\<lbrakk>at s t (Dispatching (e # es)); \<not> sh_registry s (ev_to e)\<rbrakk> \<Longrightarrow> finish_call s (Discard t e) (goto t (Dispatching es) s)"
| "at s t (Delivering e es) \<Longrightarrow>
   finish_call s (Dispatch t) (goto t (Dispatching es) (put (ev_to e) (InEvent e) s))"
| "at s t (Dispatching []) \<Longrightarrow> finish_call s (Return t) (goto t AtStart s)"

inductive registry_call :: "Shared \<Rightarrow> clabel \<Rightarrow> Shared \<Rightarrow> bool" where
  "registry_call s (Register c) (s\<lparr>sh_registry := (sh_registry s)(c := True)\<rparr>)"
| "c \<notin> set (members (sh_room s)) \<Longrightarrow> registry_call s (Unregister c) (s\<lparr>sh_registry := (sh_registry s)(c := False)\<rparr>)"

abbreviation conc_step :: "Shared \<Rightarrow> clabel \<Rightarrow> Shared \<Rightarrow> bool" where
  "conc_step s l s' \<equiv> event_call s l s' \<or> leave_call s l s' \<or> join_call s l s' \<or> finish_call s l s' \<or> registry_call s l s'"

inductive conc_run :: "Shared \<Rightarrow> clabel list \<Rightarrow> Shared \<Rightarrow> bool" for s0 where
  quiet_start: "conc_run s0 [] s0"
| more: "\<lbrakk>conc_run s0 tr s; conc_step s l s'\<rbrakk> \<Longrightarrow> conc_run s0 (tr @ [l]) s'"

inductive_cases event_callE: "event_call s l s'"
inductive_cases leave_callE: "leave_call s l s'"
inductive_cases join_callE: "join_call s l s'"
inductive_cases finish_callE: "finish_call s l s'"
inductive_cases registry_callE: "registry_call s l s'"

lemmas conc_elims = disjE event_callE leave_callE join_callE finish_callE registry_callE

text \<open>A room with \<open>n\<close> idle threads, the members of which are registered.\<close>

definition shared :: "Room \<Rightarrow> bool \<Rightarrow> nat \<Rightarrow> Shared" where
  "shared r sink n = \<lparr>sh_room = r, sh_sink = sink, sh_queue = [], sh_inbox = (\<lambda>_. []),
     sh_registry = (\<lambda>c. c \<in> set (members r)), sh_pcs = replicate n AtStart\<rparr>"

subsection \<open>Every interleaving is a sequential run of the critical sections\<close>

fun locked1 :: "clabel \<Rightarrow> room_op list" where
  "locked1 (Locked _ op) = [op]" | "locked1 _ = []"

definition locked :: "clabel list \<Rightarrow> room_op list" where
  "locked tr = concat (map locked1 tr)"

fun undelivered :: "CallPc \<Rightarrow> OutgoingEvent list" where
  "undelivered (Applied out) = out"
| "undelivered (LeftRoom out) = out"
| "undelivered (FoundEmpty out) = out"
| "undelivered (Snapped out _) = out"
| "undelivered (Dispatching out) = out"
| "undelivered (Delivering e es) = e # es"
| "undelivered _ = []"

fun discarded1 :: "clabel \<Rightarrow> OutgoingEvent list" where
  "discarded1 (Discard _ e) = [e]" | "discarded1 _ = []"

definition discarded :: "clabel list \<Rightarrow> OutgoingEvent list" where
  "discarded tr = concat (map discarded1 tr)"

fun inbox_event :: "Inbox \<Rightarrow> OutgoingEvent list" where
  "inbox_event (InEvent e) = [e]" | "inbox_event (InSnapshot _) = []"

definition delivered :: "Shared \<Rightarrow> ClientId \<Rightarrow> OutgoingEvent list" where
  "delivered s m = concat (map inbox_event (sh_inbox s m))"

text \<open>The events for \<open>m\<close> that were posted or are still with the threads, in no particular order.\<close>

definition events_for :: "Shared \<Rightarrow> ClientId \<Rightarrow> OutgoingEvent multiset" where
  "events_for s m = mset (delivered s m) + mset (received m (concat (map undelivered (sh_pcs s))))"

lemma locked_simps [simp]: "locked [] = []" "locked (tr @ [l]) = locked tr @ locked1 l"
  by (simp_all add: locked_def)

lemma discarded_simps [simp]: "discarded [] = []" "discarded (tr @ [l]) = discarded tr @ discarded1 l"
  by (simp_all add: discarded_def)

lemma goto_simps [simp]:
  "sh_room (goto t pc s) = sh_room s" "sh_sink (goto t pc s) = sh_sink s" "sh_queue (goto t pc s) = sh_queue s"
  "sh_inbox (goto t pc s) = sh_inbox s" "sh_registry (goto t pc s) = sh_registry s" "sh_pcs (goto t pc s) = (sh_pcs s)[t := pc]"
  by (simp_all add: goto_def)

lemma put_simps [simp]:
  "sh_room (put c msg s) = sh_room s" "sh_sink (put c msg s) = sh_sink s" "sh_queue (put c msg s) = sh_queue s"
  "sh_pcs (put c msg s) = sh_pcs s" "sh_registry (put c msg s) = sh_registry s"
  "sh_inbox (put c msg s) = (sh_inbox s)(c := sh_inbox s c @ [msg])"
  by (simp_all add: put_def)

lemma mset_received_concat:
  assumes "t < length xs"
  shows "mset (received m (concat (map f (xs[t := v])))) + mset (received m (f (xs ! t))) =
    mset (received m (concat (map f xs))) + mset (received m (f v))"
proof -
  have "xs = take t xs @ xs ! t # drop (Suc t) xs" using assms by (simp add: id_take_nth_drop)
  then have "concat (map f xs) = concat (map f (take t xs)) @ f (xs ! t) @ concat (map f (drop (Suc t) xs))"
    by (metis concat.simps(2) concat_append list.simps(9) map_append)
  moreover have "concat (map f (xs[t := v])) = concat (map f (take t xs)) @ f v @ concat (map f (drop (Suc t) xs))"
    using assms by (simp add: upd_conv_take_nth_drop)
  ultimately show ?thesis by (simp add: received_def)
qed

text \<open>Moving a thread changes the open events by what its program counter holds.\<close>

lemma events_goto:
  assumes "at s t pc"
  shows "events_for (goto t pc' s) m + mset (received m (undelivered pc)) =
    events_for s m + mset (received m (undelivered pc'))"
  using mset_received_concat[of t "sh_pcs s" m undelivered pc'] assms
  by (simp add: events_for_def at_def delivered_def)

lemma events_fields [simp]:
  "events_for (s\<lparr>sh_room := r\<rparr>) m = events_for s m" "events_for (s\<lparr>sh_queue := q\<rparr>) m = events_for s m"
  "at (s\<lparr>sh_room := r\<rparr>) t pc = at s t pc" "at (s\<lparr>sh_queue := q\<rparr>) t pc = at s t pc"
  "at (put c msg s) t pc = at s t pc" "events_for (s\<lparr>sh_registry := reg\<rparr>) m = events_for s m"
  by (simp_all add: events_for_def delivered_def at_def)

lemma events_put: "events_for (put c msg s) m =
    events_for s m + (if m = c then mset (inbox_event msg) else {#})"
  by (simp add: events_for_def delivered_def)

text \<open>A thread moves to a place that holds the events it has just produced.\<close>

lemma events_produce:
  assumes "at s t AtStart" "undelivered pc = out"
  shows "events_for (goto t pc s) m = events_for s m + mset (received m out)"
  using events_goto[OF assms(1), of pc m] assms(2) by simp

lemma events_move:
  assumes "at s t pc" "undelivered pc' = undelivered pc"
  shows "events_for (goto t pc' s) m = events_for s m"
  using events_goto[OF assms(1), of pc' m] assms(2) by simp

lemma events_dispatch:
  assumes "at s t (Delivering e es)"
  shows "events_for (goto t (Dispatching es) (put (ev_to e) (InEvent e) s)) m = events_for s m"
proof -
  have "events_for (goto t (Dispatching es) (put (ev_to e) (InEvent e) s)) m + mset (received m (e # es)) =
      events_for s m + (if m = ev_to e then {#e#} else {#}) + mset (received m es)"
    using events_goto[of "put (ev_to e) (InEvent e) s" t "Delivering e es" "Dispatching es" m] assms
    by (simp add: events_put)
  then show ?thesis by (cases "m = ev_to e") (simp_all add: received_def)
qed

lemma events_discard:
  assumes "at s t (Dispatching (e # es))"
  shows "events_for (goto t (Dispatching es) s) m + mset (received m [e]) = events_for s m"
  using events_goto[OF assms, of "Dispatching es" m] by (cases "m = ev_to e") (simp_all add: received_def)

definition explains :: "Room \<Rightarrow> clabel list \<Rightarrow> Shared \<Rightarrow> bool" where
  "explains r0 tr s \<longleftrightarrow> (\<exists>outs. run_room r0 (locked tr) = Some (outs, sh_room s) \<and>
     (\<forall>m. events_for s m + mset (received m (discarded tr)) = mset (received m outs)))"

lemma explains_locked:
  assumes "explains r0 tr s" "locked1 l = [op]" "discarded1 l = []" "run_op (sh_room s) op = Some (out, sh_room s')"
    and "\<And>m. events_for s' m = events_for s m + mset (received m out)"
  shows "explains r0 (tr @ [l]) s'"
proof -
  obtain outs where "run_room r0 (locked tr) = Some (outs, sh_room s)"
    "\<forall>m. events_for s m + mset (received m (discarded tr)) = mset (received m outs)"
    using assms(1) unfolding explains_def by blast
  then show ?thesis
    unfolding explains_def using assms(2-5)
    by (intro exI[of _ "outs @ out"]) (simp add: run_room_snoc received_def add.assoc add.commute add.left_commute)
qed

lemma explains_same:
  assumes "explains r0 tr s" "locked1 l = []" "sh_room s' = sh_room s"
    and "\<And>m. events_for s' m + mset (received m (discarded1 l)) = events_for s m"
  shows "explains r0 (tr @ [l]) s'"
proof -
  obtain outs where outs: "run_room r0 (locked tr) = Some (outs, sh_room s)"
    "\<forall>m. events_for s m + mset (received m (discarded tr)) = mset (received m outs)"
    using assms(1) unfolding explains_def by blast
  have "events_for s' m + mset (received m (discarded (tr @ [l]))) = mset (received m outs)" for m
    using outs(2)[THEN spec, of m] unfolding assms(4)[of m, symmetric] by (simp add: ac_simps)
  then show ?thesis unfolding explains_def using assms(2,3) outs(1) by auto
qed

lemma event_call_explains: "event_call s l s' \<Longrightarrow> explains r0 tr s \<Longrightarrow> explains r0 (tr @ [l]) s'"
proof (induction rule: event_call.induct)
  case (1 s t now c ev e r')
  then show ?case by (intro explains_locked[OF \<open>explains r0 tr s\<close>, where op = "Apply c now ev" and out = "[]"]) (simp_all add: sent_def received_def)
next
  case (2 s t now c ev out r')
  then show ?case by (intro explains_locked[OF \<open>explains r0 tr s\<close>, where op = "Apply c now ev" and out = out]) (simp_all add: sent_def events_produce)
next
  case (3 s t out)
  then show ?case by (intro explains_same[OF \<open>explains r0 tr s\<close>]) (simp_all add: events_move)
qed

lemma leave_call_explains: "leave_call s l s' \<Longrightarrow> explains r0 tr s \<Longrightarrow> explains r0 (tr @ [l]) s'"
proof (induction rule: leave_call.induct)
  case (1 s t c e r')
  then show ?case by (intro explains_locked[OF \<open>explains r0 tr s\<close>, where op = "Leave c" and out = "[]"]) (simp_all add: sent_def received_def)
next
  case (2 s t c out r')
  then show ?case by (intro explains_locked[OF \<open>explains r0 tr s\<close>, where op = "Leave c" and out = out]) (simp_all add: sent_def events_produce)
next
  case (3 s t out)
  then show ?case by (intro explains_same[OF \<open>explains r0 tr s\<close>]) (simp_all add: events_move)
next
  case (4 s t out)
  then show ?case by (intro explains_same[OF \<open>explains r0 tr s\<close>]) (simp_all add: events_move)
qed

lemma join_call_explains: "join_call s l s' \<Longrightarrow> explains r0 tr s \<Longrightarrow> explains r0 (tr @ [l]) s'"
proof (induction rule: join_call.induct)
  case (1 s t c snap r')
  then show ?case by (intro explains_locked[OF \<open>explains r0 tr s\<close>, where op = "Join c" and out = "[]"]) (simp_all add: events_produce received_def)
next
  case (2 s t c snap)
  then show ?case by (intro explains_same[OF \<open>explains r0 tr s\<close>]) (simp_all add: events_move events_put)
qed

lemma finish_call_explains: "finish_call s l s' \<Longrightarrow> explains r0 tr s \<Longrightarrow> explains r0 (tr @ [l]) s'"
proof (induction rule: finish_call.induct)
  case (1 s t out sn)
  then show ?case by (intro explains_same[OF \<open>explains r0 tr s\<close>]) (simp_all add: events_move)
next
  case (2 s t e es)
  then show ?case by (intro explains_same[OF \<open>explains r0 tr s\<close>]) (simp_all add: events_move)
next
  case (3 s t e es)
  then show ?case by (intro explains_same[OF \<open>explains r0 tr s\<close>]) (simp_all add: events_discard)
next
  case (4 s t e es)
  then show ?case by (intro explains_same[OF \<open>explains r0 tr s\<close>]) (simp_all add: events_dispatch)
next
  case (5 s t)
  then show ?case by (intro explains_same[OF \<open>explains r0 tr s\<close>]) (simp_all add: events_move)
qed

lemma registry_call_explains: "registry_call s l s' \<Longrightarrow> explains r0 tr s \<Longrightarrow> explains r0 (tr @ [l]) s'"
  by (induction rule: registry_call.induct) (erule explains_same; simp)+

lemma conc_run_explains:
  assumes "conc_run s0 tr s" "explains (sh_room s0) [] s0"
  shows "explains (sh_room s0) tr s"
  using assms
  by (induction rule: conc_run.induct)
    (blast intro: event_call_explains leave_call_explains join_call_explains finish_call_explains registry_call_explains)+

text \<open>Nothing is discarded of a client that is registered and stays so.\<close>

lemma registered_step:
  assumes "conc_step s l s'" "sh_registry s m" "l \<noteq> Unregister m"
  shows "sh_registry s' m \<and> received m (discarded1 l) = []"
  using assms by (auto elim!: conc_elims simp: received_def)

lemma registered_run:
  assumes "conc_run s0 tr s" "sh_registry s0 m" "Unregister m \<notin> set tr"
  shows "sh_registry s m \<and> received m (discarded tr) = []"
  using assms by (induction rule: conc_run.induct) (use registered_step in \<open>auto simp: received_def\<close>)

text \<open>A member that issues no operation stays a member, and a member is not removed from the registry.\<close>

lemma op_member:
  "leave r c = Some (res', r') \<Longrightarrow> c \<noteq> m \<Longrightarrow> m \<in> set (members r') \<longleftrightarrow> m \<in> set (members r)"
  "join r c = (res'', r') \<Longrightarrow> c \<noteq> m \<Longrightarrow> m \<in> set (members r') \<longleftrightarrow> m \<in> set (members r)"
  by (auto simp: join_def leave_def leave_finish_active_def Let_def split: if_splits option.splits bind_splits)

lemma member_step:
  assumes "conc_step s l s'" "m \<in> set (members (sh_room s))" "\<forall>op\<in>set (locked1 l). op_client op \<noteq> m"
  shows "m \<in> set (members (sh_room s')) \<and> l \<noteq> Unregister m"
  using assms by (auto elim!: conc_elims simp: op_member apply_keeps_members)

lemma member_stays:
  assumes "conc_run s0 tr s" "m \<in> set (members (sh_room s0))" "\<forall>op\<in>set (locked tr). op_client op \<noteq> m"
  shows "m \<in> set (members (sh_room s)) \<and> Unregister m \<notin> set tr"
  using assms by (induction rule: conc_run.induct) (use member_step in \<open>auto simp: ball_Un\<close>)

lemma shared_explains: "explains r [] (shared r sink n)"
  by (simp add: explains_def events_for_def delivered_def shared_def received_def)

text \<open>
  C6: Threads do not disturb a room. In every interleaving of calls by any number of threads, with sessions entering and
  leaving the registry, the room is in the state of the sequential run of the same operations in the order in which they
  took the room's mutex. For every client the events of that run are exactly, none lost and none repeated, those posted to
  it, those its callers still hold, and those discarded because the registry did not find the client; and nothing is
  discarded of a client that is a member at the beginning and is not removed from the registry.
\<close>

theorem calls_linearizable:
  assumes "conc_run (shared r sink n) tr s"
  shows "\<exists>outs. run_room r (locked tr) = Some (outs, sh_room s) \<and>
    (\<forall>m. mset (delivered s m) + mset (received m (concat (map undelivered (sh_pcs s)))) + mset (received m (discarded tr)) =
       mset (received m outs)) \<and>
    (\<forall>m. m \<in> set (members r) \<and> Unregister m \<notin> set tr \<longrightarrow> received m (discarded tr) = [])"
  using conc_run_explains[OF assms] shared_explains[of r sink n] registered_run[OF assms]
  by (simp add: explains_def events_for_def shared_def)

subsection \<open>What is saved\<close>

text \<open>
  \<open>board_after r0 ops k sn\<close>: \<open>sn\<close> is the snapshot of the room after the first \<open>k\<close> operations.
  \<open>must_save r0 ops i\<close>: operation \<open>i\<close> is a stroke end or a clear that the room accepted.
\<close>

definition board_after :: "Room \<Rightarrow> room_op list \<Rightarrow> nat \<Rightarrow> PersistedBoardSnapshot \<Rightarrow> bool" where
  "board_after r0 ops k sn \<longleftrightarrow> k \<le> length ops \<and>
     (\<exists>outs r'. run_room r0 (take k ops) = Some (outs, r') \<and> sn = makePersistedSnapshot r')"

definition must_save :: "Room \<Rightarrow> room_op list \<Rightarrow> nat \<Rightarrow> bool" where
  "must_save r0 ops i \<longleftrightarrow> i < length ops \<and>
     (\<exists>c now ev outs r1 out r2. ops ! i = Apply c now ev \<and> shouldSave ev \<and>
        run_room r0 (take i ops) = Some (outs, r1) \<and> apply_event r1 now c ev = Some (Inr out, r2))"

fun snapped :: "CallPc \<Rightarrow> PersistedBoardSnapshot list" where
  "snapped (Snapped _ sn) = [sn]" | "snapped _ = []"

fun is_applied :: "CallPc \<Rightarrow> bool" where
  "is_applied (Applied _) = True" | "is_applied _ = False"

definition all_real :: "Room \<Rightarrow> room_op list \<Rightarrow> Shared \<Rightarrow> bool" where
  "all_real r0 ops s \<longleftrightarrow>
     (\<forall>sn \<in> set (sh_queue s) \<union> (\<Union>pc\<in>set (sh_pcs s). set (snapped pc)). \<exists>k. board_after r0 ops k sn)"

definition saved_from :: "Room \<Rightarrow> room_op list \<Rightarrow> Shared \<Rightarrow> nat \<Rightarrow> bool" where
  "saved_from r0 ops s i \<longleftrightarrow> (\<exists>sn\<in>set (sh_queue s). \<exists>k>i. board_after r0 ops k sn)"

definition saving :: "Room \<Rightarrow> room_op list \<Rightarrow> nat \<Rightarrow> CallPc \<Rightarrow> bool" where
  "saving r0 ops i pc \<longleftrightarrow> is_applied pc \<or> (\<exists>sn\<in>set (snapped pc). \<exists>k>i. board_after r0 ops k sn)"

definition save_due :: "Room \<Rightarrow> room_op list \<Rightarrow> Shared \<Rightarrow> nat \<Rightarrow> bool" where
  "save_due r0 ops s i \<longleftrightarrow> saved_from r0 ops s i \<or> (\<exists>pc\<in>set (sh_pcs s). saving r0 ops i pc)"

lemma board_after_append: "board_after r0 ops k sn \<Longrightarrow> board_after r0 (ops @ ext) k sn"
  by (auto simp: board_after_def)

lemma board_after_now:
  "run_room r0 ops = Some (outs, r) \<Longrightarrow> board_after r0 ops (length ops) (makePersistedSnapshot r)"
  by (simp add: board_after_def)

lemma all_real_append: "all_real r0 ops s \<Longrightarrow> all_real r0 (ops @ ext) s"
  unfolding all_real_def by (meson board_after_append)

lemma save_due_append: "save_due r0 ops s i \<Longrightarrow> save_due r0 (ops @ ext) s i"
  unfolding save_due_def saved_from_def saving_def by (meson board_after_append)

lemma must_save_old: "i < length ops \<Longrightarrow> must_save r0 (ops @ [op]) i = must_save r0 ops i"
  by (simp add: must_save_def nth_append)

text \<open>How a step that moves one thread keeps both facts.\<close>

lemma all_real_move:
  assumes "all_real r0 ops s" "sh_pcs s' = (sh_pcs s)[t := pc']"
    and "\<And>sn. sn \<in> set (sh_queue s') \<union> set (snapped pc') \<Longrightarrow> sn \<in> set (sh_queue s) \<or> (\<exists>k. board_after r0 ops k sn)"
  shows "all_real r0 ops s'"
  using assms set_update_subset_insert[of "sh_pcs s" t pc'] unfolding all_real_def by fastforce

lemma save_due_move:
  assumes "save_due r0 ops s i" "at s t pc" "sh_pcs s' = (sh_pcs s)[t := pc']"
    and "set (sh_queue s) \<subseteq> set (sh_queue s')"
    and "saving r0 ops i pc \<Longrightarrow> saving r0 ops i pc' \<or> saved_from r0 ops s' i"
  shows "save_due r0 ops s' i"
proof (cases "saved_from r0 ops s i")
  case True
  then show ?thesis using assms(4) by (auto simp: save_due_def saved_from_def)
next
  case False
  then obtain u where u: "u < length (sh_pcs s)" "saving r0 ops i (sh_pcs s ! u)"
    using assms(1) by (auto simp: save_due_def in_set_conv_nth)
  show ?thesis
  proof (cases "u = t")
    case True
    then show ?thesis using u assms(2,3,5) set_update_memI[of t "sh_pcs s" pc']
      by (auto simp: save_due_def at_def)
  next
    case False
    then have "sh_pcs s ! u \<in> set (sh_pcs s')" using u(1) assms(3)
      by (metis length_list_update nth_list_update_neq nth_mem)
    then show ?thesis using u(2) by (auto simp: save_due_def)
  qed
qed

lemma must_save_new:
  assumes "run_room r0 ops = Some (outs, r)"
  shows "must_save r0 (ops @ [op]) (length ops) \<longleftrightarrow>
    (\<exists>c now ev out r2. op = Apply c now ev \<and> shouldSave ev \<and> apply_event r now c ev = Some (Inr out, r2))"
  using assms by (simp add: must_save_def)

definition saves_ok :: "Room \<Rightarrow> clabel list \<Rightarrow> Shared \<Rightarrow> bool" where
  "saves_ok r0 tr s \<longleftrightarrow> explains r0 tr s \<and> all_real r0 (locked tr) s \<and>
     (sh_sink s \<longrightarrow> (\<forall>i. must_save r0 (locked tr) i \<longrightarrow> save_due r0 (locked tr) s i))"

lemma saves_unlocked:
  assumes ok: "saves_ok r0 tr s" and ex: "explains r0 (tr @ [l]) s'" and l: "locked1 l = []"
    and at: "at s t pc" and pcs: "sh_pcs s' = (sh_pcs s)[t := pc']" and sink: "sh_sink s' = sh_sink s"
    and queue: "set (sh_queue s) \<subseteq> set (sh_queue s')"
    and real: "\<And>sn. sn \<in> set (sh_queue s') \<union> set (snapped pc') \<Longrightarrow>
      sn \<in> set (sh_queue s) \<or> (\<exists>k. board_after r0 (locked tr) k sn)"
    and due: "\<And>i. i < length (locked tr) \<Longrightarrow> saving r0 (locked tr) i pc \<Longrightarrow>
      saving r0 (locked tr) i pc' \<or> saved_from r0 (locked tr) s' i"
  shows "saves_ok r0 (tr @ [l]) s'"
  unfolding saves_ok_def
proof (intro conjI ex impI allI)
  show "all_real r0 (locked (tr @ [l])) s'"
    using ok l by (simp add: saves_ok_def) (metis all_real_move[OF _ pcs real])
  fix i assume "sh_sink s'" and i: "must_save r0 (locked (tr @ [l])) i"
  then have "save_due r0 (locked tr) s i" "i < length (locked tr)"
    using ok l sink by (simp_all add: saves_ok_def must_save_def)
  then show "save_due r0 (locked (tr @ [l])) s' i"
    using save_due_move[OF _ at pcs queue due] l by simp
qed

lemma saves_locked:
  assumes ok: "saves_ok r0 tr s" and ex: "explains r0 (tr @ [l]) s'" and l: "locked1 l = [op]"
    and at: "at s t AtStart" and pcs: "sh_pcs s' = (sh_pcs s)[t := pc']" and sink: "sh_sink s' = sh_sink s"
    and queue: "sh_queue s' = sh_queue s" and pc': "snapped pc' = []"
    and new: "\<And>c now ev out r2. sh_sink s \<Longrightarrow> op = Apply c now ev \<Longrightarrow> shouldSave ev \<Longrightarrow>
      apply_event (sh_room s) now c ev = Some (Inr out, r2) \<Longrightarrow> is_applied pc'"
  shows "saves_ok r0 (tr @ [l]) s'"
  unfolding saves_ok_def
proof (intro conjI ex impI allI)
  show "all_real r0 (locked (tr @ [l])) s'"
    using ok l by (simp add: saves_ok_def)
      (rule all_real_move[OF all_real_append pcs], simp_all add: queue pc')
  fix i assume s': "sh_sink s'" and i: "must_save r0 (locked (tr @ [l])) i"
  show "save_due r0 (locked (tr @ [l])) s' i"
  proof (cases "i < length (locked tr)")
    case True
    then have "save_due r0 (locked tr) s i" using ok i s' sink l
      by (simp add: saves_ok_def must_save_old)
    then show ?thesis
      using save_due_move[OF save_due_append at pcs, of r0 "locked tr" i "[op]"] l queue by (simp add: saving_def)
  next
    case False
    then have "i = length (locked tr)" using i l by (simp add: must_save_def)
    then have "is_applied pc'" using i l ok s' sink new
      by (auto simp: saves_ok_def explains_def must_save_new)
    moreover have "pc' \<in> set (sh_pcs s')" using at pcs by (simp add: at_def set_update_memI)
    ultimately show ?thesis by (auto simp: save_due_def saving_def)
  qed
qed

lemma saves_now:
  "saves_ok r0 tr s \<Longrightarrow> board_after r0 (locked tr) (length (locked tr)) (makePersistedSnapshot (sh_room s))"
  unfolding saves_ok_def explains_def by (elim conjE exE) (rule board_after_now)

text \<open>The two places where a thread takes the snapshot, and the one where it hands it over.\<close>

lemma saves_snap:
  assumes "saves_ok r0 tr s" "at s t pc" "explains r0 (tr @ [TakeSnapshot t]) s'"
    and "s' = goto t (Snapped out (makePersistedSnapshot (sh_room s))) s"
  shows "saves_ok r0 (tr @ [TakeSnapshot t]) s'"
  using saves_now[OF assms(1)]
  by (intro saves_unlocked[OF assms(1,3) _ assms(2), where pc' = "Snapped out (makePersistedSnapshot (sh_room s))"])
    (auto simp: assms(4) saving_def)

lemma saves_enqueue:
  assumes ok: "saves_ok r0 tr s" and at: "at s t (Snapped out sn)" and ex: "explains r0 (tr @ [Enqueue t]) s'"
    and s': "s' = goto t (Dispatching out) (s\<lparr>sh_queue := sh_queue s @ [sn]\<rparr>)"
  shows "saves_ok r0 (tr @ [Enqueue t]) s'"
proof -
  have "Snapped out sn \<in> set (sh_pcs s)" using at nth_mem by (fastforce simp: at_def)
  then have "\<exists>k. board_after r0 (locked tr) k sn"
    using ok by (fastforce simp: saves_ok_def all_real_def)
  then show ?thesis
    by (intro saves_unlocked[OF ok ex _ at, where pc' = "Dispatching out"])
      (auto simp: s' saving_def saved_from_def)
qed

lemma at_stays: "at s t pc \<Longrightarrow> (sh_pcs s)[t := pc] = sh_pcs s"
  by (auto simp: at_def)

lemma event_call_saves:
  assumes "event_call s l s'" "saves_ok r0 tr s"
  shows "saves_ok r0 (tr @ [l]) s'"
proof -
  have ex: "explains r0 (tr @ [l]) s'" using event_call_explains[OF assms(1)] assms(2) by (simp add: saves_ok_def)
  from assms(1) show ?thesis
  proof cases
    case (1 t now c ev e r')
    then show ?thesis
      by (intro saves_locked[OF assms(2) ex, where op = "Apply c now ev" and pc' = AtStart]) (auto simp: at_stays)
  next
    case (2 t now c ev out r')
    then show ?thesis
      by (intro saves_locked[OF assms(2) ex, where op = "Apply c now ev" and
            pc' = "if sh_sink s \<and> shouldSave ev then Applied out else Dispatching out"]) auto
  next
    case (3 t out)
    then show ?thesis using saves_snap[OF assms(2)] ex by blast
  qed
qed

lemma leave_call_saves:
  assumes "leave_call s l s'" "saves_ok r0 tr s"
  shows "saves_ok r0 (tr @ [l]) s'"
proof -
  have ex: "explains r0 (tr @ [l]) s'" using leave_call_explains[OF assms(1)] assms(2) by (simp add: saves_ok_def)
  from assms(1) show ?thesis
  proof cases
    case (1 t c e r')
    then show ?thesis
      by (intro saves_locked[OF assms(2) ex, where op = "Leave c" and pc' = AtStart]) (auto simp: at_stays)
  next
    case (2 t c out r')
    then show ?thesis
      by (intro saves_locked[OF assms(2) ex, where op = "Leave c" and
            pc' = "if sh_sink s then LeftRoom out else Dispatching out"]) auto
  next
    case (3 t out)
    then show ?thesis
      by (intro saves_unlocked[OF assms(2) ex, where
            pc' = "if memberCount (sh_room s) = 0 then FoundEmpty out else Dispatching out"]) (auto simp: saving_def split: if_splits)
  next
    case (4 t out)
    then show ?thesis using saves_snap[OF assms(2)] ex by blast
  qed
qed

lemma join_call_saves:
  assumes "join_call s l s'" "saves_ok r0 tr s"
  shows "saves_ok r0 (tr @ [l]) s'"
proof -
  have ex: "explains r0 (tr @ [l]) s'" using join_call_explains[OF assms(1)] assms(2) by (simp add: saves_ok_def)
  from assms(1) show ?thesis
  proof cases
    case (1 t c snap r')
    then show ?thesis
      by (intro saves_locked[OF assms(2) ex, where op = "Join c" and pc' = "JoinedRoom c snap"]) auto
  next
    case (2 t c snap)
    then show ?thesis
      by (intro saves_unlocked[OF assms(2) ex, where pc' = AtStart]) (auto simp: saving_def)
  qed
qed

lemma finish_call_saves:
  assumes "finish_call s l s'" "saves_ok r0 tr s"
  shows "saves_ok r0 (tr @ [l]) s'"
proof -
  have ex: "explains r0 (tr @ [l]) s'" using finish_call_explains[OF assms(1)] assms(2) by (simp add: saves_ok_def)
  from assms(1) show ?thesis
  proof cases
    case (1 t out sn)
    then show ?thesis using saves_enqueue[OF assms(2)] ex by blast
  next
    case (2 t e es)
    then show ?thesis
      by (intro saves_unlocked[OF assms(2) ex, where pc' = "Delivering e es"]) (auto simp: saving_def)
  next
    case (3 t e es)
    then show ?thesis
      by (intro saves_unlocked[OF assms(2) ex, where pc' = "Dispatching es"]) (auto simp: saving_def)
  next
    case (4 t e es)
    then show ?thesis
      by (intro saves_unlocked[OF assms(2) ex, where pc' = "Dispatching es"]) (auto simp: saving_def)
  next
    case (5 t)
    then show ?thesis
      by (intro saves_unlocked[OF assms(2) ex, where pc' = AtStart]) (auto simp: saving_def)
  qed
qed

lemma saves_registry [simp]:
  "all_real r0 ops (s\<lparr>sh_registry := reg\<rparr>) = all_real r0 ops s" "save_due r0 ops (s\<lparr>sh_registry := reg\<rparr>) i = save_due r0 ops s i"
  by (simp_all add: all_real_def save_due_def saved_from_def)

lemma registry_call_saves:
  assumes "registry_call s l s'" "saves_ok r0 tr s"
  shows "saves_ok r0 (tr @ [l]) s'"
proof -
  have "explains r0 (tr @ [l]) s'" using registry_call_explains[OF assms(1)] assms(2) by (simp add: saves_ok_def)
  then show ?thesis using assms
    by (auto simp: saves_ok_def elim!: registry_callE)
qed

lemma conc_run_saves:
  assumes "conc_run s0 tr s" "saves_ok (sh_room s0) [] s0"
  shows "saves_ok (sh_room s0) tr s"
  using assms
  by (induction rule: conc_run.induct)
    (blast intro: event_call_saves leave_call_saves join_call_saves finish_call_saves registry_call_saves)+

lemma shared_saves: "saves_ok r [] (shared r sink n)"
proof -
  have "all_real r [] (shared r sink n)" by (auto simp: all_real_def shared_def)
  then show ?thesis using shared_explains[of r sink n] by (simp add: saves_ok_def must_save_def)
qed

text \<open>
  C10: Concurrent calls save real boards and miss none. In every interleaving each enqueued snapshot is the
  room as it was after some prefix of the operations in mutex order, and once all threads are idle
  every accepted stroke end or clear is followed by an enqueued snapshot that already contains it.
\<close>

theorem concurrent_saves:
  assumes "conc_run (shared r True n) tr s"
  shows "(\<forall>sn\<in>set (sh_queue s). \<exists>k. board_after r (locked tr) k sn) \<and>
    (sh_pcs s = replicate n AtStart \<longrightarrow> (\<forall>i. must_save r (locked tr) i \<longrightarrow>
       (\<exists>sn\<in>set (sh_queue s). \<exists>k>i. board_after r (locked tr) k sn)))"
proof -
  have "sh_sink s" using assms
    by (induction rule: conc_run.induct) (auto simp: shared_def elim!: conc_elims)
  moreover have "saves_ok r tr s" using conc_run_saves[OF assms] shared_saves[of r True n] by (simp add: shared_def)
  ultimately show ?thesis
    by (auto simp: saves_ok_def all_real_def save_due_def saving_def saved_from_def)
qed

subsection \<open>Interleavings in which the order is lost\<close>

lemma conc_run_trans: "conc_run s1 tr2 s2 \<Longrightarrow> conc_run s0 tr1 s1 \<Longrightarrow> conc_run s0 (tr1 @ tr2) s2"
proof (induction rule: conc_run.induct)
  case (more tr s l s')
  then show ?case using conc_run.more[of s0 "tr1 @ tr" s l s'] by simp
qed simp

lemma conc_run_Nil: "conc_run s0 [] s \<longleftrightarrow> s = s0"
  by (auto intro: conc_run.intros elim: conc_run.cases)

lemma conc_run_Cons: "conc_run s0 (l # tr) s \<longleftrightarrow> (\<exists>s1. conc_step s0 l s1 \<and> conc_run s1 tr s)"
proof (induction tr arbitrary: s rule: rev_induct)
  case Nil
  show ?case by (auto simp: conc_run_Nil elim: conc_run.cases intro: conc_run.more[OF conc_run.quiet_start, simplified])
next
  case (snoc l' tr)
  show ?case
  proof
    assume "conc_run s0 (l # tr @ [l']) s"
    then obtain u where "conc_run s0 (l # tr) u" "conc_step u l' s"
      by (cases rule: conc_run.cases) auto
    with snoc.IH show "\<exists>s1. conc_step s0 l s1 \<and> conc_run s1 (tr @ [l']) s" by (metis conc_run.more)
  next
    assume "\<exists>s1. conc_step s0 l s1 \<and> conc_run s1 (tr @ [l']) s"
    then show "conc_run s0 (l # tr @ [l']) s"
      using conc_run_trans[of _ "tr @ [l']" s s0 "[l]"] conc_run.more[OF conc_run.quiet_start, of s0 l] by auto
  qed
qed

lemmas conc_eval = conc_run_Nil conc_run_Cons event_call.simps leave_call.simps join_call.simps finish_call.simps
  registry_call.simps at_def goto_def put_def

definition three_join :: "clabel list" where
  "three_join = [Register 1, Register 2, Register 3, Locked 0 (Join 1), DeliverSnapshot 0, Locked 0 (Join 2), DeliverSnapshot 0,
     Locked 0 (Join 3), DeliverSnapshot 0]"

definition three_members :: Room where
  "three_members = snd (join (snd (join (snd (join (new_room 7) 1)) 2)) 3)"

lemma three_join_run: "\<exists>s. conc_run (shared (new_room 7) True 2) three_join s \<and>
    sh_room s = three_members \<and> sh_sink s \<and> sh_queue s = [] \<and> sh_pcs s = [AtStart, AtStart] \<and>
    (\<forall>c\<in>{1, 2, 3}. sh_registry s c) \<and>
    (\<exists>snap. sh_inbox s 3 = [InSnapshot snap] \<and> snap_state snap = board three_members)"
  by (simp add: three_join_def three_members_def shared_def conc_eval room_eval numeral_2_eq_2)

text \<open>Client 1 begins a stroke on thread 0, client 2 clears the board on thread 1.\<close>

definition dispatch_race :: "clabel list" where
  "dispatch_race =
     [Locked 0 (Apply 1 0 (StrokeBegin Red Thin \<lparr>pt_x = 0, pt_y = 0\<rparr>)),
      Locked 1 (Apply 2 0 Clear), TakeSnapshot 1, Enqueue 1, Lookup 1, Dispatch 1, Lookup 1, Dispatch 1, Return 1,
      Lookup 0, Dispatch 0, Lookup 0, Dispatch 0, Return 0]"

definition enqueue_race :: "clabel list" where
  "enqueue_race =
     [Locked 0 (Apply 1 0 (StrokeBegin Red Thin \<lparr>pt_x = 0, pt_y = 0\<rparr>)), Lookup 0, Dispatch 0, Lookup 0,
      Dispatch 0, Return 0,
      Locked 0 (Apply 1 0 StrokeEnd), TakeSnapshot 0,
      Locked 1 (Apply 2 0 Clear), TakeSnapshot 1, Enqueue 1, Lookup 1, Dispatch 1, Lookup 1, Dispatch 1, Return 1,
      Enqueue 0, Lookup 0, Dispatch 0, Lookup 0, Dispatch 0, Return 0]"

lemma dispatch_race_run:
  assumes "sh_room s = three_members" "sh_sink s" "sh_pcs s = [AtStart, AtStart]" "sh_inbox s 3 = [InSnapshot snap]"
    "snap_state snap = board three_members" "\<forall>c\<in>{1, 2, 3}. sh_registry s c"
  shows "\<exists>s'. conc_run s dispatch_race s' \<and> sh_pcs s' = [AtStart, AtStart] \<and>
    hd (sh_inbox s' 3) = InSnapshot snap \<and> map ev_seq (delivered s' 3) = [2, 1] \<and>
    strokes (board (sh_room s')) = [] \<and>
    length (view_strokes (foldl replay (board_view (snap_state snap)) (map ev_payload (delivered s' 3)))) = 1"
  using assms
  by (simp add: dispatch_race_def conc_eval room_eval three_members_def shouldSave_def delivered_def board_view_def)

lemma enqueue_race_run:
  assumes "sh_room s = three_members" "sh_sink s" "sh_pcs s = [AtStart, AtStart]" "sh_queue s = []"
    "\<forall>c\<in>{1, 2, 3}. sh_registry s c"
  shows "\<exists>s'. conc_run s enqueue_race s' \<and> sh_pcs s' = [AtStart, AtStart] \<and>
    map pers_lastSeq (sh_queue s') = [3, 2] \<and> map (length \<circ> pers_strokes) (sh_queue s') = [0, 1] \<and>
    strokes (board (sh_room s')) = []"
  using assms
  by (simp add: enqueue_race_def conc_eval room_eval three_members_def shouldSave_def makePersistedSnapshot_def)

lemma dispatch_race_reachable: "\<exists>s. conc_run (shared (new_room 7) True 2) (three_join @ dispatch_race) s \<and>
    sh_pcs s = [AtStart, AtStart] \<and> map ev_seq (delivered s 3) = [2, 1] \<and> strokes (board (sh_room s)) = [] \<and>
    (\<exists>snap. hd (sh_inbox s 3) = InSnapshot snap \<and>
       length (view_strokes (foldl replay (board_view (snap_state snap)) (map ev_payload (delivered s 3)))) = 1)"
proof -
  obtain s snap where s: "conc_run (shared (new_room 7) True 2) three_join s" "sh_room s = three_members" "sh_sink s"
      "sh_pcs s = [AtStart, AtStart]" "sh_inbox s 3 = [InSnapshot snap]" "snap_state snap = board three_members"
      "\<forall>c\<in>{1, 2, 3}. sh_registry s c"
    using three_join_run by (elim exE conjE) (rule that)
  from dispatch_race_run[OF s(2-7)] show ?thesis
    using conc_run_trans[OF _ s(1)] by (elim exE conjE) (intro exI conjI)
qed

lemma enqueue_race_reachable: "\<exists>s. conc_run (shared (new_room 7) True 2) (three_join @ enqueue_race) s \<and>
    sh_pcs s = [AtStart, AtStart] \<and> map pers_lastSeq (sh_queue s) = [3, 2] \<and>
    map (length \<circ> pers_strokes) (sh_queue s) = [0, 1] \<and> strokes (board (sh_room s)) = []"
proof -
  obtain s snap where s: "conc_run (shared (new_room 7) True 2) three_join s" "sh_room s = three_members" "sh_sink s"
      "sh_pcs s = [AtStart, AtStart]" "sh_queue s = []" "\<forall>c\<in>{1, 2, 3}. sh_registry s c"
    using three_join_run by (elim exE conjE) (rule that)
  from enqueue_race_run[OF s(2-6)] show ?thesis
    using conc_run_trans[OF _ s(1)] by (elim exE conjE) (intro exI conjI)
qed

theorem calls_linearizable_witness:
  "\<exists>s outs. conc_run (shared (new_room 7) True 2) (three_join @ dispatch_race) s \<and>
    run_room (new_room 7) (locked (three_join @ dispatch_race)) = Some (outs, sh_room s) \<and>
    map ev_seq (delivered s 3) = [2, 1] \<and> mset (delivered s 3) = mset (received 3 outs)"
proof -
  obtain s where s: "conc_run (shared (new_room 7) True 2) (three_join @ dispatch_race) s"
      "sh_pcs s = [AtStart, AtStart]" "map ev_seq (delivered s 3) = [2, 1]"
    using dispatch_race_reachable by (elim exE conjE) (rule that)
  obtain outs where outs: "run_room (new_room 7) (locked (three_join @ dispatch_race)) = Some (outs, sh_room s)"
      "mset (delivered s 3) + mset (received 3 (concat (map undelivered (sh_pcs s)))) +
         mset (received 3 (discarded (three_join @ dispatch_race))) = mset (received 3 outs)"
    using calls_linearizable[OF s(1)] by (elim exE conjE) (rule that, auto)
  moreover have "discarded (three_join @ dispatch_race) = []" by (simp add: discarded_def three_join_def dispatch_race_def)
  ultimately show ?thesis using s by (intro exI[of _ s] exI[of _ outs]) simp
qed

theorem concurrent_saves_witness:
  "\<exists>s. conc_run (shared (new_room 7) True 2) (three_join @ enqueue_race) s \<and>
    map pers_lastSeq (sh_queue s) = [3, 2] \<and>
    (\<exists>sn\<in>set (sh_queue s). \<exists>k>5. board_after (new_room 7) (locked (three_join @ enqueue_race)) k sn)"
proof -
  let ?ops = "locked (three_join @ enqueue_race)"
  obtain s where s: "conc_run (shared (new_room 7) True 2) (three_join @ enqueue_race) s"
      "sh_pcs s = [AtStart, AtStart]" "map pers_lastSeq (sh_queue s) = [3, 2]"
    using enqueue_race_reachable by (elim exE conjE) (rule that)
  have ops: "?ops = [Join 1, Join 2, Join 3, Apply 1 0 (StrokeBegin Red Thin \<lparr>pt_x = 0, pt_y = 0\<rparr>),
      Apply 1 0 StrokeEnd, Apply 2 0 Clear]"
    by (simp add: locked_def three_join_def enqueue_race_def)
  have "must_save (new_room 7) ?ops 5"
    unfolding ops by (simp add: must_save_def shouldSave_def room_eval)
  then show ?thesis using concurrent_saves[OF s(1)] s by (auto simp: numeral_2_eq_2)
qed

text \<open>
  C35: Events can reach a client out of order. The events of a call are dispatched after the room's
  mutex was released, so there is a run of two threads after which client 3 was sent event 2, a clear,
  before event 1, a stroke begin, and a client that draws what it receives shows a stroke on a board that is
  empty.
\<close>

theorem events_overtake:
  "\<exists>tr s snap. conc_run (shared (new_room 7) True 2) tr s \<and> sh_pcs s = replicate 2 AtStart \<and>
    map ev_seq (delivered s 3) = [2, 1] \<and> hd (sh_inbox s 3) = InSnapshot snap \<and>
    view_strokes (foldl replay (board_view (snap_state snap)) (map ev_payload (delivered s 3))) \<noteq>
      strokes (board (sh_room s))"
proof -
  obtain s snap where "conc_run (shared (new_room 7) True 2) (three_join @ dispatch_race) s"
      "sh_pcs s = [AtStart, AtStart]" "map ev_seq (delivered s 3) = [2, 1]" "strokes (board (sh_room s)) = []"
      "hd (sh_inbox s 3) = InSnapshot snap"
      "length (view_strokes (foldl replay (board_view (snap_state snap)) (map ev_payload (delivered s 3)))) = 1"
    using dispatch_race_reachable by (elim exE conjE) (rule that)
  then show ?thesis by (intro exI conjI) (assumption | force simp: numeral_2_eq_2)+
qed

text \<open>
  C36: Snapshots can be enqueued out of order. Taking the snapshot and enqueueing it are two steps, so
  there is a run of two threads that leaves an empty board and enqueues the snapshot of the
  empty board (event 3) before the snapshot of the stroke that was cleared (event 2); the writer keeps this order
  and the stale board is what it stores last.
\<close>

theorem snapshots_overtake:
  "\<exists>tr s. conc_run (shared (new_room 7) True 2) tr s \<and> sh_pcs s = replicate 2 AtStart \<and>
    map pers_lastSeq (sh_queue s) = [3, 2] \<and> strokes (board (sh_room s)) = [] \<and>
    pers_strokes (last (sh_queue s)) \<noteq> []"
proof -
  obtain s where s: "conc_run (shared (new_room 7) True 2) (three_join @ enqueue_race) s"
      "sh_pcs s = [AtStart, AtStart]" "map pers_lastSeq (sh_queue s) = [3, 2]"
      "map (length \<circ> pers_strokes) (sh_queue s) = [0, 1]" "strokes (board (sh_room s)) = []"
    using enqueue_race_reachable by (elim exE conjE) (rule that)
  then have "pers_strokes (last (sh_queue s)) \<noteq> []" by (cases "sh_queue s" rule: rev_cases) auto
  with s show ?thesis by (intro exI[of _ "three_join @ enqueue_race"] exI[of _ s]) (simp add: numeral_2_eq_2)
qed

end
