(* ===== verification/CS_Reorder.thy ===== *)
theory CS_Reorder
  imports CS_Concurrency
begin

text \<open>
  Threads can deliver the events of a room out of order (\<open>CS_Concurrency\<close>). Their sequence numbers are enough to repair it: no
  number is lost, repeated or skipped, and a client that sorts by them shows the board.
\<close>

lemma sort_seq_received:
  assumes "mset evs = mset evs'" "map (\<lambda>e. unat (ev_seq e)) evs' = [a..<b]"
  shows "sort_key (\<lambda>e. unat (ev_seq e)) evs = evs'"
proof (rule sort_key_inj_key_eq[OF assms(1)])
  have "inj_on (\<lambda>e. unat (ev_seq e)) (set evs')"
    using assms(2) by (metis distinct_map distinct_upt)
  then show "inj_on (\<lambda>e. unat (ev_seq e)) (set evs)" using mset_eq_setD[OF assms(1)] by simp
  show "sorted (map (\<lambda>e. unat (ev_seq e)) evs')" unfolding assms(2) by simp
qed

text \<open>
  C9: Sequence numbers repair the order. Whatever the interleaving of calls into a room, once all calls have returned, the events
  delivered to a member that only watched (the members of the beginning are registered) carry exactly the numbers from the room's counter at the beginning up to its counter
  now, each once; and replaying them in the order of their numbers on the board of the beginning gives the board of now.
\<close>

theorem sorted_events_converge:
  assumes "conc_run (shared r sink n) tr s" "sh_pcs s = replicate n AtStart"
    and "room_inv r" "seq_room r (2 * length (locked tr))" "m \<in> set (members r)" "\<forall>op\<in>set (locked tr). op_client op \<noteq> m"
  shows "map (\<lambda>e. unat (ev_seq e)) (sort_key (\<lambda>e. unat (ev_seq e)) (delivered s m)) =
      [unat (nextSeq r)..<unat (nextSeq (sh_room s))] \<and>
    board_view (board (sh_room s)) =
      foldl replay (board_view (board r)) (map ev_payload (sort_key (\<lambda>e. unat (ev_seq e)) (delivered s m)))"
proof -
  obtain outs where outs: "run_room r (locked tr) = Some (outs, sh_room s)"
    "mset (delivered s m) + mset (received m (concat (map undelivered (sh_pcs s)))) + mset (received m (discarded tr)) =
      mset (received m outs)"
    using conc_run_explains[OF assms(1)] shared_explains[of r sink n] by (auto simp: explains_def events_for_def shared_def)
  have m: "sh_registry (shared r sink n) m" "m \<in> set (members (sh_room (shared r sink n)))" using assms(5) by (simp_all add: shared_def)
  have "received m (discarded tr) = []" using registered_run[OF assms(1) m(1)] member_stays[OF assms(1) m(2) assms(6)] by blast
  moreover have "concat (map undelivered (replicate n AtStart)) = []" by (induction n) simp_all
  ultimately have "mset (delivered s m) = mset (received m outs)" using outs(2) assms(2) by simp
  moreover note obs = run_room_observer[OF assms(3-6) outs(1)]
  ultimately have "sort_key (\<lambda>e. unat (ev_seq e)) (delivered s m) = received m outs" using sort_seq_received by blast
  then show ?thesis using obs by simp
qed

text \<open>The race in which client 3 is delivered two events in the wrong order.\<close>

lemma race_from_members: "\<exists>s. conc_run (shared three_members True 2) dispatch_race s \<and> sh_pcs s = [AtStart, AtStart] \<and>
    map ev_seq (delivered s 3) = [2, 1]"
  by (simp add: dispatch_race_def conc_eval room_eval three_members_def shouldSave_def delivered_def shared_def numeral_2_eq_2)

theorem sorted_events_converge_witness:
  "\<exists>s. conc_run (shared three_members True 2) dispatch_race s \<and> map ev_seq (delivered s 3) = [2, 1] \<and>
     board_view (board (sh_room s)) = foldl replay (board_view (board three_members))
       (map ev_payload (sort_key (\<lambda>e. unat (ev_seq e)) (delivered s 3)))"
proof -
  obtain s where s: "conc_run (shared three_members True 2) dispatch_race s" "sh_pcs s = [AtStart, AtStart]"
    "map ev_seq (delivered s 3) = [2, 1]" using race_from_members by (elim exE conjE)
  have inv: "room_inv three_members" unfolding three_members_def by (rule join_inv[OF join_inv[OF join_inv[OF new_room_inv]]])
  have pcs: "sh_pcs s = replicate 2 AtStart" using s(2) by (simp add: numeral_2_eq_2)
  have "nextSeq three_members = 1" "3 \<in> set (members three_members)" by (simp_all add: three_members_def room_eval)
  then have "board_view (board (sh_room s)) = foldl replay (board_view (board three_members))
       (map ev_payload (sort_key (\<lambda>e. unat (ev_seq e)) (delivered s 3)))"
    using sorted_events_converge[OF s(1) pcs inv, of 3] by (simp add: seq_room_def dispatch_race_def locked_def)
  with s(1,3) show ?thesis by (intro exI conjI)
qed

end
