(* ===== verification/Spec2Isabelle.thy ===== *)
theory Spec2Isabelle
  imports CS_Room_Spec CS_Composition CS_Process CS_Typing CS_Replies CS_Writer_Stop CS_Saved CS_Delivery CS_Time
    CS_Reorder
begin

text \<open>
  ClearSpace is a server for a shared whiteboard. Clients connect over TCP, send one JSON object per line,
  join a room and draw; the server numbers what they do, sends it to the other members of the room and
  saves boards to SQLite. Paths below are relative to \<^verbatim>\<open>src/\<close>.

  \<^bold>\<open>The parts and how they interact.\<close>
  \<^item> \<^verbatim>\<open>core/\<close>: a \<^verbatim>\<open>Room\<close> holds the board, the members and the counters behind one mutex;
    \<^verbatim>\<open>RoomManager\<close> maps ids to rooms; \<^verbatim>\<open>ServerCore\<close> finds the room of a call and enqueues a snapshot
    after a stroke end, a clear, and the departure of the last member.
  \<^item> \<^verbatim>\<open>transport/\<close>: the messages, their JSON form, and the mapping between messages and core values.
  \<^item> \<^verbatim>\<open>server/\<close>: \<^verbatim>\<open>TcpServer\<close> accepts connections, a \<^verbatim>\<open>ClientSession\<close> per client reads lines, calls the core
    and writes its queue, \<^verbatim>\<open>SessionRegistry\<close> finds the session of a client.
  \<^item> \<^verbatim>\<open>persistence/\<close>: \<^verbatim>\<open>SnapshotWriter\<close> takes snapshots from a queue on a thread of its own and hands them to
    the store behind \<^verbatim>\<open>ISnapshotStore\<close>; \<^verbatim>\<open>SqliteSnapshotStore\<close> keeps them as blobs in one table.
  \<^item> \<^verbatim>\<open>app/\<close>: \<^verbatim>\<open>main\<close> puts the parts together.

  \<^bold>\<open>The theories.\<close>
  \<^item> \<open>CS_Prelude\<close>: integer types, results of fallible code, checked vector access, shared lemmas.
  \<^item> \<open>CS_Types\<close>: the data of \<^verbatim>\<open>core/include\<close>. \<open>CS_Room\<close>: every method of \<^verbatim>\<open>Room\<close>, the invariant \<open>room_inv\<close> and
    the outcome of each operation. \<open>CS_Room_Run\<close>: runs of a room, what members receive, replay by a
    client. \<open>CS_Room_Spec\<close>: an abstract room without index maps and the simulation by the real one. \<open>CS_Time\<close>: the
    time provider, whose contract is the locale \<open>time_provider\<close>, and rooms that read it.
  \<^item> \<open>CS_Room_Manager\<close> and \<open>CS_Server_Core\<close>: the directory and the core; the interfaces are the locales
    \<open>room_directory\<close> and \<open>room_service\<close>, interpreted on the model's operations.
  \<^item> \<open>CS_Concurrency\<close>: calls of several threads into one room, one step per critical section of
    \<^verbatim>\<open>core/src/server_core.cpp\<close>, per enqueue, per look into the session registry and per delivery. \<open>CS_Reorder\<close>: what
    sequence numbers give a client when deliveries overtake each other.
  \<^item> \<open>CS_Messages\<close>, \<open>CS_Mappers\<close>, \<open>CS_Json\<close>: \<^verbatim>\<open>transport/\<close>. The JSON library is the parameter \<open>JsonLib\<close> with the
    documented behaviour \<open>json_laws\<close>, which \<open>plain_json\<close> satisfies.
  \<^item> \<open>CS_Codec\<close>: the blob format. \<open>CS_Snapshot_Api\<close>: \<^verbatim>\<open>ISnapshotStore\<close> as a record of operations and its
    contract as the locale \<open>snapshot_store\<close>. \<open>CS_Store\<close>: the SQLite store, which interprets that locale.
    \<open>CS_Writer\<close>: the writer as a step relation, with the client lemmas of the locale. \<open>CS_Writer_Stop\<close>: its destructor.
  \<^item> \<open>CS_Session\<close>: session, registry and acceptor as operations on the server state; \<open>CS_Session_Run\<close>: runs.
    \<open>CS_Replies\<close>: what a request does as a pure function, and that the session layer implements it. \<open>CS_Screen\<close>: what a
    client shows that reads its lines. \<open>CS_Delivery\<close>: that every line is sent.
  \<^item> \<open>CS_Threads\<close>: the same handlers as programs of atomic actions, one per critical section, access to session data or
    post. \<open>CS_Strands\<close>: rely and guarantee for them. \<open>CS_System\<close>: all interleavings, with one running handler per strand
    and one for the acceptor. \<open>CS_Room_Property\<close>: the locale \<open>room_property\<close>, which carries a property of rooms to every
    interleaving; \<open>CS_Typing\<close> interprets it by the typing of boards.
    \<open>CS_Saved\<close>: what running handlers still owe to a room that has become empty.
  \<^item> \<open>CS_App\<close>: \<^verbatim>\<open>main\<close> up to \<^verbatim>\<open>server.start()\<close>. \<open>CS_Process\<close>: the worker threads and how the process ends.
  \<^item> \<open>CS_Composition\<close>: every handler makes at most one call into the core, and the invariant of
    what has been enqueued. This theory: the path from a client's request to the database.

  \<^bold>\<open>Conventions.\<close> A struct is a record, a variant a datatype, \<^verbatim>\<open>Expected\<close> a sum with the error on the left; an
  exception is a sum with its text on the left; undefined behaviour is \<open>None\<close>, and its absence is
  proved. Identifiers and counters are words of their width; floats are their bit patterns. Hash maps are
  lists where their order is visible (members, cursors) and maps otherwise; \<open>iteration_order_irrelevant\<close>
  shows that the order does not matter beyond the order of messages. Names are those of the code, private members
  without the trailing underscore.

  \<^bold>\<open>What is shown.\<close> A room never indexes outside its stroke vector and keeps its invariant
  (\<open>room_runs_safe\<close>), refines the abstract room with all answers (\<open>room_implements_spec\<close>), and a client that replays
  what it received has the server's board (\<open>observer_converges\<close>). While handlers run one at a time, the same
  holds from the lines of all clients to the lines of one that only watches (\<open>screen_converges\<close>), and every line posted to a live session is sent (\<open>posted_lines_are_sent\<close>). Cursor
  moves keep their rate limit and are never locked out (\<open>cursor_budget\<close>). Under every interleaving of the threads sessions and
  rooms agree and no step has undefined behaviour (\<open>threads_consistent\<close>), lines to a client keep their order
  (\<open>threads_keep_order\<close>), boards are well
  typed (\<open>boards_well_typed\<close>) and the process never returns from \<^verbatim>\<open>main\<close>
  (\<open>process_never_returns\<close>); the lemma \<open>label_exec\<close> ties the programs of atomic actions to the handlers. Requests are
  parsed (\<open>accepted_lines\<close>) and refused with the error of their first defect (\<open>refused_lines\<close>), and a handled request posts exactly the lines of its outcome (\<open>request_refines\<close>). Snapshots survive the way through the blob (\<open>strokes_roundtrip\<close>), the table
  (\<open>save_then_load\<close>) and the writer (\<open>writer_fifo\<close>, \<open>worker_drains_queue\<close>, \<open>destructor_terminates\<close>), and \<open>emptied_board_is_stored\<close> joins
  these from \<^verbatim>\<open>main\<close> to the row in the database, for requests handled one at a time, a database that does not fail and a clock
  that moves on between saves. Threads do not disturb the room (\<open>calls_linearizable\<close>) and no
  save is missed (\<open>concurrent_saves\<close>, and \<open>idle_server_saved_empty_rooms\<close> for the whole server); deliveries can
  overtake each other, but events sorted by their numbers give the board (\<open>sorted_events_converge\<close>). Several theorems prove that something can go wrong: a lost wakeup
  of \<^verbatim>\<open>flush\<close>, events and snapshots that overtake each other, a member left behind by a late read, an
  exception that escapes from a handler and ends the process (\<open>bad_line_terminates\<close>), a range check on truncated numbers, a clock set back, a failed
  initialisation that is never repeated.

  \<^bold>\<open>Bounds.\<close> No definition has fuel: loops over data are structural recursion, and waiting loops are
  step relations whose progress is proved. Theorems on runs bound the number of steps (about
  \<open>2 ^ 63\<close>) so that no 64-bit counter wraps (readings of the steady clock, a 64-bit count of nanoseconds, are integers); a step spends at most two numbers of a counter, so no
  real execution reaches the bound. Blobs are below 2 GiB where the length passes through a 32-bit \<^verbatim>\<open>int\<close>.

  \<^bold>\<open>Granularity.\<close> In \<open>server_run\<close> a handler is one step, which is how a single thread runs them. In \<open>sys_step\<close> a handler
  is a sequence of atomic actions and any other handler may run in between, its own strand excepted; every
  \<open>server_run\<close> is such an interleaving (\<open>run_labels_interleave\<close>). The number of threads is not bounded there, and a session
  object may be destroyed as soon as none of its handlers is running or queued, also while another handler is about to
  deliver to it; both only add behaviours. \<open>CS_Concurrency\<close> follows the calls into one room and keeps the order of deliveries
  and enqueued snapshots, with events for clients that are not registered discarded; the replies of a session to its own
  client (errors, \<^verbatim>\<open>ok\<close>, \<^verbatim>\<open>pong\<close>) are not part of it. Asynchronous writes are kept as the list of lines being written, and a
  line is sent when its write completes. \<^verbatim>\<open>ClientSession::start\<close> dispatches the first read, which may run it at once; the model
  posts it, and nothing can happen to the session in between but further posts. The
  writer's threads interleave at every access to shared state.

  \<^bold>\<open>Not modelled.\<close> Boost.Asio, SQLite and the JSON library are not part of the repository: they appear as the
  order of handlers and \<open>AcceptorEnv\<close>, as \<open>SqliteEnv\<close> and the table, and as \<open>JsonLib\<close>. The room
  operations take the reading of the clock as an argument; \<open>CS_Time\<close> says where it comes from. \<^verbatim>\<open>TcpServer::port()\<close>, which
  only the tests call, asks the system for the port of the socket and changes nothing. Memory exhaustion is left out. Tests and build files are not part of
  the running program.
\<close>

subsection \<open>From a client's stroke to the database\<close>

lemma main_writer: "main_app mc argv = Inr app \<Longrightarrow>
    new_writer (Some sqlite_ops) (mc_sql mc) (file_store mc argv) 10 = Inr (app_writer app) \<and>
    app_server app = started_server (new_core True)"
  by (auto simp: main_app_def app_start_def expected_simps started split: sum.splits)

text \<open>
  C4: A board survives its users. Take any run of the started program in which requests are handled
  one at a time, and let the writer have worked off what the core enqueued, up to the return of a
  \<^verbatim>\<open>flush\<close>, with a database that does not fail and a clock that reads a later millisecond at every save. Then for every room that all
  members have left, the latest snapshot in the database is the room's board: its last sequence
  number and every stroke that was drawn and not cleared. This holds of the open store and after its
  destructor has closed it, so a program started again on the file finds the board.
\<close>

theorem emptied_board_is_stored:
  assumes "main_app mc argv = Inr app"
    and "server_run lib (app_server app) tr sv" "2 * length tr + 3 < 2 ^ 64"
    and "getRoom (manager (sv_core sv)) rid = Some r" "members r = []" "strokes (board r) \<noteq> []"
    and "writer_run sqlite_ops (app_writer app) (wtr @ [FlushReturn t]) w" "pushed wtr = sv_enqueued sv"
    and "length (added wtr) < 2 ^ 64" "chronological host (file_store mc argv)"
    and "\<forall>(task, e1, e2)\<in>set (processed wtr). sql_able host e1 \<and> sql_able host e2 \<and>
           sql_storable host (pers_strokes task) \<and> sql_before (file_store mc argv) (env_nowMs e1)"
    and "sorted_wrt (<) (map (\<lambda>(task, e1, e2). env_nowMs e1) (processed wtr))"
    and "sql_able host e'" "st \<in> {w_store w, close_store (w_store w)}"
  shows "\<exists>found. fst (loadLatest e' st rid) = Inr (Some found) \<and>
    stored_board found = (lastSeq r, strokes (board r))"
proof -
  note start = main_writer[OF assms(1)]
  have "unat (10 :: u64) = 10" by simp
  then have store: "chronological host (w_store w)"
      "sql_newest host (w_store w) = boards_after (sql_newest host (file_store mc argv)) (pushed wtr)"
    using flush_returns_store(1,2)[OF conjunct1[OF start] assms(10,7,9) _ _ assms(11,12)] by auto
  have run: "server_run lib (started_server (new_core True)) tr sv" using assms(2) start by simp
  have saved: "of_room rid (sv_enqueued sv) \<noteq> []" "last (of_room rid (sv_enqueued sv)) = makePersistedSnapshot r"
    using empty_room_saved[OF run assms(3-5)] assms(6) by (simp_all split: if_splits)
  have "sql_newest host (w_store w) rid = Some (lastSeq r, strokes (board r))"
    using saved assms(8) by (simp add: store(2) boards_after_last of_room_def task_board_def makePersistedSnapshot_def lastSeq_def)
  then have "chronological host st" "sql_newest host st rid = Some (lastSeq r, strokes (board r))"
    using assms(14) store(1) close_store_law[OF store(1)] by auto
  then show ?thesis
    using sqlite.load_law[OF _ assms(13), of st rid] by (auto simp: sqlite_ops_def)
qed


text \<open>One client creates a room, joins it, begins a stroke and leaves.\<close>

definition draw_run :: "string \<Rightarrow> string \<Rightarrow> string \<Rightarrow> string \<Rightarrow> ServerLabel list" where
  "draw_run l1 l2 l3 l4 = [Accept, RunPosted 1, Receive 1 l1, OnRead 0 1, Receive 1 l2, OnRead 0 1,
     Receive 1 l3, OnRead 0 1, Receive 1 l4, OnRead 0 1]"

definition drawn :: "Stroke list" where
  "drawn = [\<lparr>stroke_id = 1, author = 1, color = Red, thickness = Thin, strokeOrder = 1,
     points = [\<lparr>pt_x = 0, pt_y = 0\<rparr>], finished = True\<rparr>]"

lemma draw_run_exec:
  assumes "parseClientMessage lib l1 = Inr CreateRoomRequest" "parseClientMessage lib l2 = Inr (JoinRoomRequest 1)"
    and "parseClientMessage lib l3 = Inr (StrokeBeginRequest 1 1 0 \<lparr>dto_x = 0, dto_y = 0\<rparr>)"
    and "parseClientMessage lib l4 = Inr (LeaveRoomRequest 1)"
    and "CHR 0x0A \<notin> set l1" "CHR 0x0A \<notin> set l2" "CHR 0x0A \<notin> set l3" "CHR 0x0A \<notin> set l4"
    and "\<And>m. serializeServerMessage lib m = Inr (ser m)"
  shows "\<exists>sv r. run_labels lib (draw_run l1 l2 l3 l4) (started_server (new_core True)) = Some sv \<and>
    getRoom (manager (sv_core sv)) 1 = Some r \<and> members r = [] \<and> strokes (board r) = drawn \<and>
    sv_enqueued sv = [makePersistedSnapshot r] \<and> lastSeq r = 3"
  using assms by (simp add: draw_run_def server_eval drawn_def core_leaveRoom_def core_handleEvent_def handleDraw_def
    handleLeave_def makePersistedSnapshot_def lastSeq_def shouldSave_def
    toColor_def toThickness_def toCorePoint_def Red_def Blue_def Thin_def Thick_def)

lemma plain_draw_run:
  obtains l1 l2 l3 l4 sv r where "server_run plain_json (started_server (new_core True)) (draw_run l1 l2 l3 l4) sv"
    "getRoom (manager (sv_core sv)) 1 = Some r" "members r = []" "strokes (board r) = drawn"
    "sv_enqueued sv = [makePersistedSnapshot r]" "lastSeq r = 3"
proof -
  obtain l1 where l1: "CHR 0x0A \<notin> set l1" "parseClientMessage plain_json l1 = Inr CreateRoomRequest"
    by (rule plain_request[of CreateRoomRequest]) simp_all
  obtain l2 where l2: "CHR 0x0A \<notin> set l2" "parseClientMessage plain_json l2 = Inr (JoinRoomRequest 1)"
    by (rule plain_request[of "JoinRoomRequest 1"]) simp_all
  obtain l3 where l3: "CHR 0x0A \<notin> set l3"
      "parseClientMessage plain_json l3 = Inr (StrokeBeginRequest 1 1 0 \<lparr>dto_x = 0, dto_y = 0\<rparr>)"
    by (rule plain_request[of "StrokeBeginRequest 1 1 0 \<lparr>dto_x = 0, dto_y = 0\<rparr>"])
      (simp_all add: finite_point_def finite_float_def)
  obtain l4 where l4: "CHR 0x0A \<notin> set l4" "parseClientMessage plain_json l4 = Inr (LeaveRoomRequest 1)"
    by (rule plain_request[of "LeaveRoomRequest 1"]) simp_all
  obtain ser where ser: "\<And>m. serializeServerMessage plain_json m = Inr (ser m)" using plain_serialize by blast
  obtain sv r where "run_labels plain_json (draw_run l1 l2 l3 l4) (started_server (new_core True)) = Some sv"
    "getRoom (manager (sv_core sv)) 1 = Some r" "members r = []" "strokes (board r) = drawn"
    "sv_enqueued sv = [makePersistedSnapshot r]" "lastSeq r = 3"
    using draw_run_exec[OF l1(2) l2(2) l3(2) l4(2) l1(1) l2(1) l3(1) l4(1) ser] by (elim exE conjE)
  then show thesis by (intro that[of l1 l2 l3 l4 sv r] run_labels_run)
qed

definition save_trace :: "PersistedBoardSnapshot \<Rightarrow> SqliteEnv wlabel list" where
  "save_trace task = [EnqAdd task, EnqPush task, EnqNotify, Take task,
     Process task (plain_env 100) (plain_env 101), Sub, NotifyAll, FlushStart 0]"

lemma save_trace_run:
  assumes "length (serializeStrokes LittleEndian (pers_strokes task)) < 2 ^ 31"
  shows "\<exists>w. writer_run sqlite_ops sample_w0 (save_trace task @ [FlushReturn 0]) w"
proof -
  have "env_host (plain_env 100) = LittleEndian" by (simp add: plain_env_def)
  then obtain st where "process_task sqlite_ops 10 (ready (new_store None 0)) task (plain_env 100) (plain_env 101) = Some st"
    using save_defined[of "plain_env 100" "pers_strokes task"] assms
    by (fastforce simp: process_task_def sqlite_ops_def split: option.splits sum.splits)
  then show ?thesis by (simp add: save_trace_def sample_w0_def writer_eval wake_flushers_def wake_worker_def)
qed

lemma plain_main:
  obtains app where "main_app (plain_machine (\<lambda>_. Inr ())) [] = Inr app" "app_server app = started_server (new_core True)"
    "app_writer app = sample_w0" "file_store (plain_machine (\<lambda>_. Inr ())) [] = new_store None 0"
  using plain_acceptor_works[of 5555 "new_core True"]
  by (auto simp: main_app_def app_start_eq arg_port_def plain_machine_def plain_env_def file_store_def sample_w0_def)

theorem emptied_board_is_stored_witness:
  "\<exists>w found. fst (loadLatest (plain_env 200) (close_store (w_store w)) 1) = Inr (Some found) \<and> stored_board found = (3, drawn) \<and>
     (\<exists>task. writer_run sqlite_ops sample_w0 (save_trace task @ [FlushReturn 0]) w)"
proof -
  obtain l1 l2 l3 l4 sv r where sv: "server_run plain_json (started_server (new_core True)) (draw_run l1 l2 l3 l4) sv"
    "getRoom (manager (sv_core sv)) 1 = Some r" "members r = []" "strokes (board r) = drawn"
    "sv_enqueued sv = [makePersistedSnapshot r]" "lastSeq r = 3"
    by (rule plain_draw_run)
  obtain app where app: "main_app (plain_machine (\<lambda>_. Inr ())) [] = Inr app" "app_server app = started_server (new_core True)"
    "app_writer app = sample_w0" "file_store (plain_machine (\<lambda>_. Inr ())) [] = new_store None 0"
    by (rule plain_main)
  let ?task = "makePersistedSnapshot r"
  have blob: "length (serializeStrokes LittleEndian (pers_strokes ?task)) < 2 ^ 31"
    using sv(4) by (simp add: makePersistedSnapshot_def length_serializeStrokes drawn_def)
  then obtain w where w: "writer_run sqlite_ops sample_w0 (save_trace ?task @ [FlushReturn 0]) w"
    using save_trace_run by blast
  have able: "sql_able LittleEndian (plain_env n)" for n
    using plain_env_ok by (simp add: sql_able_def) (simp add: plain_env_def)
  have chr: "chronological LittleEndian (new_store None 0)"
    using new_store_inv by (simp add: chronological_def) (simp add: new_store_def rows_of_def)
  have trace: "pushed (save_trace ?task) = [?task]" "added (save_trace ?task) = [?task]"
    "processed (save_trace ?task) = [(?task, plain_env 100, plain_env 101)]"
    by (simp_all add: save_trace_def)
  have "\<exists>found. fst (loadLatest (plain_env 200) (close_store (w_store w)) 1) = Inr (Some found) \<and>
      stored_board found = (lastSeq r, strokes (board r))"
    by (rule emptied_board_is_stored[OF app(1), where lib = plain_json and tr = "draw_run l1 l2 l3 l4" and sv = sv and
          wtr = "save_trace ?task" and t = 0 and host = LittleEndian and w = w])
      (use sv app w able chr trace blob in \<open>simp_all add: draw_run_def drawn_def sql_storable_def sql_before_def\<close>,
       simp add: new_store_def rows_of_def)
  then show ?thesis using sv(4,6) w by auto
qed

end
